(* ===== verification/Prelude.thy ===== *)
theory Prelude
  imports Main "HOL-Library.Word" "HOL-Library.Char_ord" "HOL-Library.List_Lexorder"
    "HOL-Library.Multiset" "HOL-Library.Sublist"
begin

text \<open>
  Shared vocabulary of the development: bytes and byte strings as the C++ code handles them
  (\<open>std::string\<close> and \<open>std::string_view\<close> are lists of \<open>char\<close>, one \<open>char\<close> per byte), the
  standard-library routines the modelled code calls on them (\<open>find\<close>, \<open>substr\<close>,
  \<open>std::to_string\<close>, \<open>std::from_chars\<close>), IEEE-754 doubles as 64-bit patterns, and the interface
  every encoder/decoder pair of the server is an instance of.
\<close>

unbundle bit_operations_syntax

named_theorems json_simps \<open>equations of the JSON accessors\<close>
named_theorems auth_simps \<open>definitions unfolded when an authorization decision is analysed\<close>

section \<open>Bytes and characters\<close>

type_synonym double = "64 word"
type_synonym byte_string = string

text \<open>\<open>static_cast<unsigned char>(c)\<close>.\<close>

abbreviation byte_of :: "char \<Rightarrow> nat" where
  "byte_of c \<equiv> of_char c"

definition is_digit :: "char \<Rightarrow> bool" where
  "is_digit c \<longleftrightarrow> CHR ''0'' \<le> c \<and> c \<le> CHR ''9''"

definition is_upper_ascii :: "char \<Rightarrow> bool" where
  "is_upper_ascii c \<longleftrightarrow> CHR ''A'' \<le> c \<and> c \<le> CHR ''Z''"

definition is_lower_ascii :: "char \<Rightarrow> bool" where
  "is_lower_ascii c \<longleftrightarrow> CHR ''a'' \<le> c \<and> c \<le> CHR ''z''"

definition digit_value :: "char \<Rightarrow> nat" where
  "digit_value c = byte_of c - 48"

definition digit_char :: "nat \<Rightarrow> char" where
  "digit_char n = char_of (48 + n)"

definition char_range :: "nat \<Rightarrow> nat \<Rightarrow> char \<Rightarrow> bool" where
  "char_range lo hi c \<longleftrightarrow> lo \<le> byte_of c \<and> byte_of c \<le> hi"

lemma char_eq_byte: "c = d \<longleftrightarrow> byte_of c = (byte_of d :: nat)"
  by simp

lemma char_le_byte: "c \<le> d \<longleftrightarrow> byte_of c \<le> (byte_of d :: nat)"
  by (simp add: less_eq_char_def)

lemma is_digit_byte: "is_digit c \<longleftrightarrow> 48 \<le> byte_of c \<and> byte_of c \<le> (57::nat)"
  by (simp add: is_digit_def char_le_byte)

lemma is_digit_digit_char [simp]: "n < 10 \<Longrightarrow> is_digit (digit_char n)"
  by (simp add: is_digit_byte digit_char_def)

lemma digit_value_digit_char [simp]: "n < 10 \<Longrightarrow> digit_value (digit_char n) = n"
  by (simp add: digit_value_def digit_char_def)

lemma digit_value_less: "is_digit c \<Longrightarrow> digit_value c < 10"
  by (auto simp: is_digit_byte digit_value_def)

lemma digit_char_digit_value: "is_digit c \<Longrightarrow> digit_char (digit_value c) = c"
proof -
  assume "is_digit c"
  then have "48 + (byte_of c - 48) = (byte_of c :: nat)" by (simp add: is_digit_byte)
  then have "digit_char (digit_value c) = char_of (byte_of c :: nat)"
    by (simp add: digit_char_def digit_value_def)
  then show ?thesis by simp
qed

section \<open>Byte strings\<close>

text \<open>\<open>std::string_view::find(char)\<close>: the first position, \<open>None\<close> for \<open>npos\<close>.\<close>

fun find_char :: "char \<Rightarrow> byte_string \<Rightarrow> nat option" where
  "find_char c [] = None"
| "find_char c (x # xs) = (if x = c then Some 0 else map_option Suc (find_char c xs))"

text \<open>\<open>std::string_view::find(std::string_view)\<close>.\<close>

fun find_sub :: "byte_string \<Rightarrow> byte_string \<Rightarrow> nat option" where
  "find_sub p [] = (if p = [] then Some 0 else None)"
| "find_sub p (x # xs) =
     (if take (length p) (x # xs) = p then Some 0 else map_option Suc (find_sub p xs))"

definition starts_with :: "byte_string \<Rightarrow> byte_string \<Rightarrow> bool" where
  "starts_with s p \<longleftrightarrow> length p \<le> length s \<and> take (length p) s = p"

lemma find_char_Some:
  "find_char c s = Some i \<longleftrightarrow> i < length s \<and> s ! i = c \<and> c \<notin> set (take i s)"
proof (induction s arbitrary: i)
  case (Cons x xs)
  show ?case
  proof (cases i)
    case 0
    then show ?thesis by auto
  next
    case (Suc j)
    have "find_char c (x # xs) = Some i \<longleftrightarrow> x \<noteq> c \<and> find_char c xs = Some j"
      using Suc by auto
    then show ?thesis using Suc Cons.IH [of j] by auto
  qed
qed simp

lemma find_char_None: "find_char c s = None \<longleftrightarrow> c \<notin> set s"
  by (induction s) auto

lemma find_char_split:
  "find_char c s = Some i \<Longrightarrow> s = take i s @ c # drop (Suc i) s"
  by (metis find_char_Some id_take_nth_drop)

lemma find_char_append:
  "c \<notin> set xs \<Longrightarrow> find_char c (xs @ c # ys) = Some (length xs)"
  by (induction xs) auto

lemma find_sub_bound: "find_sub p s = Some i \<Longrightarrow> i + length p \<le> length s"
proof (induction s arbitrary: i)
  case (Cons x xs)
  show ?case
  proof (cases "take (length p) (x # xs) = p")
    case True
    then have "length p \<le> length (x # xs)"
      by (metis length_take min.cobounded1)
    with Cons.prems True show ?thesis by auto
  next
    case False
    with Cons.prems obtain j where "find_sub p xs = Some j" "i = Suc j" by auto
    with Cons.IH show ?thesis by fastforce
  qed
qed (auto split: if_splits)

section \<open>Decimal numbers\<close>

text \<open>\<open>std::to_string\<close> of an unsigned value.\<close>

fun show_nat :: "nat \<Rightarrow> byte_string" where
  "show_nat n = (if n < 10 then [digit_char n] else show_nat (n div 10) @ [digit_char (n mod 10)])"

declare show_nat.simps [simp del]

text \<open>\<open>std::to_string\<close> of a signed value.\<close>

definition show_int :: "int \<Rightarrow> byte_string" where
  "show_int i = (if i < 0 then CHR ''-'' # show_nat (nat (- i)) else show_nat (nat i))"

definition digits_value :: "byte_string \<Rightarrow> nat" where
  "digits_value ds = foldl (\<lambda>acc c. acc * 10 + digit_value c) 0 ds"

lemma digits_value_snoc [simp]: "digits_value (ds @ [d]) = digits_value ds * 10 + digit_value d"
  by (simp add: digits_value_def)

lemma digits_value_Nil [simp]: "digits_value [] = 0"
  by (simp add: digits_value_def)

lemma show_nat_digits: "\<forall>c \<in> set (show_nat n). is_digit c"
proof (induction n rule: show_nat.induct)
  case (1 n)
  then show ?case by (cases "n < 10") (auto simp: show_nat.simps [of n])
qed

lemma show_nat_nonempty [simp]: "show_nat n \<noteq> []"
  by (subst show_nat.simps) simp

lemma digits_value_show_nat [simp]: "digits_value (show_nat n) = n"
proof (induction n rule: show_nat.induct)
  case (1 n)
  show ?case
  proof (cases "n < 10")
    case True
    then show ?thesis by (simp add: show_nat.simps [of n] digits_value_def)
  next
    case False
    with "1.IH" show ?thesis by (simp add: show_nat.simps [of n])
  qed
qed

lemma show_nat_inject [simp]: "show_nat m = show_nat n \<longleftrightarrow> m = n"
  by (metis digits_value_show_nat)

lemma show_nat_hd_not_zero: "0 < n \<Longrightarrow> hd (show_nat n) \<noteq> CHR ''0''"
proof (induction n rule: show_nat.induct)
  case (1 n)
  show ?case
  proof (cases "n < 10")
    case True
    with "1.prems" have "byte_of (digit_char n) \<noteq> byte_of (CHR ''0'')"
      by (simp add: digit_char_def)
    then have "digit_char n \<noteq> CHR ''0''" by metis
    with True show ?thesis by (simp add: show_nat.simps [of n])
  next
    case False
    with "1.IH" have "hd (show_nat (n div 10)) \<noteq> CHR ''0''" by simp
    with False show ?thesis by (simp add: show_nat.simps [of n] hd_append)
  qed
qed

lemma show_nat_0: "show_nat 0 = ''0''"
proof -
  have "char_of (48::nat) = CHR ''0''" by (simp add: char_of_eq_iff)
  then show ?thesis by (simp add: show_nat.simps [of 0] digit_char_def)
qed

text \<open>The canonical digit strings are exactly the ones \<open>show_nat\<close> prints.\<close>

lemma show_nat_digits_value:
  assumes "ds \<noteq> []" and "\<forall>c \<in> set ds. is_digit c" and "hd ds \<noteq> CHR ''0''"
  shows "show_nat (digits_value ds) = ds"
  using assms
proof (induction ds rule: rev_induct)
  case (snoc d ds)
  note dig = snoc.prems(2)
  have d: "is_digit d" using dig by simp
  show ?case
  proof (cases "ds = []")
    case True
    have "digits_value [d] = digit_value d" by (simp add: digits_value_def)
    then show ?thesis using True d digit_value_less [OF d]
      by (simp add: show_nat.simps [of "digit_value d"] digit_char_digit_value)
  next
    case False
    then have IH: "show_nat (digits_value ds) = ds" using snoc by simp
    have pos: "0 < digits_value ds"
    proof (rule ccontr)
      assume "\<not> 0 < digits_value ds"
      then have "ds = ''0''" using IH show_nat_0 by simp
      then show False using snoc.prems(3) False by simp
    qed
    have lt: "digit_value d < 10" using digit_value_less [OF d] .
    then have "(digits_value ds * 10 + digit_value d) div 10 = digits_value ds"
      and "(digits_value ds * 10 + digit_value d) mod 10 = digit_value d" by simp_all
    with pos lt IH show ?thesis
      by (simp add: show_nat.simps [of "digits_value ds * 10 + digit_value d"]
          digit_char_digit_value [OF d])
  qed
qed simp

lemma show_int_inject [simp]: "show_int i = show_int j \<longleftrightarrow> i = j"
proof -
  have neg: "CHR ''-'' # show_nat m \<noteq> show_nat n" for m n
  proof
    assume "CHR ''-'' # show_nat m = show_nat n"
    then have "CHR ''-'' \<in> set (show_nat n)" by (metis list.set_intros(1))
    then show False using show_nat_digits [of n] by (auto simp: is_digit_byte)
  qed
  show ?thesis
  proof
    assume eq: "show_int i = show_int j"
    have "(i < 0) = (j < 0)"
      using eq neg [of "nat (- i)" "nat j"] neg [of "nat (- j)" "nat i"]
      by (simp add: show_int_def split: if_splits)
    with eq show "i = j" by (auto simp: show_int_def split: if_splits)
  qed simp
qed

text \<open>
  \<open>std::from_chars\<close> into an \<open>std::int64_t\<close>: an optional minus sign, then digits up to the first
  other character. The result is the error code, the number of characters consumed and the value.
\<close>

datatype from_chars_errc = Errc_ok | Errc_invalid_argument | Errc_result_out_of_range

definition from_chars_int64 :: "byte_string \<Rightarrow> from_chars_errc \<times> nat \<times> int" where
  "from_chars_int64 s =
     (let neg = (s \<noteq> [] \<and> hd s = CHR ''-'');
          body = (if neg then tl s else s);
          ds = takeWhile is_digit body;
          v = (if neg then - int (digits_value ds) else int (digits_value ds));
          consumed = length ds + (if neg then 1 else 0)
      in if ds = [] then (Errc_invalid_argument, 0, 0)
         else if v < - (2 ^ 63) \<or> 2 ^ 63 \<le> v then (Errc_result_out_of_range, consumed, 0)
         else (Errc_ok, consumed, v))"

section \<open>IEEE-754 binary64\<close>

text \<open>
  A \<open>double\<close> is its bit pattern: bit 63 the sign, bits 52--62 the biased exponent, bits 0--51 the
  fraction.
\<close>

definition double_exponent :: "double \<Rightarrow> nat" where
  "double_exponent d = unat (drop_bit 52 d) mod 2048"

definition double_fraction :: "double \<Rightarrow> nat" where
  "double_fraction d = unat d mod 2 ^ 52"

definition double_negative :: "double \<Rightarrow> bool" where
  "double_negative d \<longleftrightarrow> bit d 63"

definition double_isfinite :: "double \<Rightarrow> bool" where
  "double_isfinite d \<longleftrightarrow> double_exponent d \<noteq> 2047"

text \<open>\<open>std::trunc\<close> of a finite value, as the integer it denotes.\<close>

definition double_trunc :: "double \<Rightarrow> int" where
  "double_trunc d =
     (let e = double_exponent d;
          m = 2 ^ 52 + double_fraction d;
          a = (if e < 1023 then 0
               else if 1075 \<le> e then m * 2 ^ (e - 1075) else m div 2 ^ (1075 - e))
      in if double_negative d then - int a else int a)"

section \<open>Encoders and decoders\<close>

text \<open>
  The interface of an encoder and the decoder written for it: what is encoded decodes to itself.
  The consequences every client relies on are proved here once.
\<close>

locale codec =
  fixes encode :: "'a \<Rightarrow> byte_string"
    and decode :: "byte_string \<Rightarrow> 'a option"
    and valid :: "'a \<Rightarrow> bool"
  assumes decode_encode: "valid x \<Longrightarrow> decode (encode x) = Some x"
begin

lemma encode_inject: "valid x \<Longrightarrow> valid y \<Longrightarrow> encode x = encode y \<Longrightarrow> x = y"
  using decode_encode by (metis option.inject)

lemma encode_inj_on: "inj_on encode {x. valid x}"
  by (auto intro!: inj_onI encode_inject)

end

end
