(* ===== verification/CanonicalJson.thy ===== *)
theory CanonicalJson
  imports Prelude
begin

text \<open>
  The canonical JSON layer, \<open>src/src/canonicaljson/\<close>: the value tree (\<open>Value.hpp\<close>), the conversion
  of a document read by yyjson into it with every limit the parser enforces (\<open>parser.cpp\<close>), UTF-8
  validation, and the canonical serializer whose bytes are hashed and signed (\<open>serializer.cpp\<close>,
  \<open>signable.cpp\<close>).

  yyjson itself is a third-party library: its reader is an argument of the parsing functions, and
  \<open>yyjson_value\<close> lists the node kinds the adapter (\<open>yyjson_adapter.c\<close>) distinguishes. Every
  \<open>ObjectMember\<close> the program builds comes from \<open>make_member\<close>, so a member always owns a value;
  the null-pointer tests of the serializer are on an unreachable state and have no counterpart.
\<close>

section \<open>The value tree\<close>

text \<open>
  \<open>Value\<close> stores an integer as a signed 64-bit number; no code does arithmetic on the stored number that could
  leave that range, so \<open>JInt\<close> has an integer. Parsed values are bounded further, see \<open>within_limits\<close>.
\<close>

datatype json =
    JNull
  | JBool bool
  | JInt int
  | JDouble double
  | JString byte_string
  | JArray "json list"
  | JObject "(byte_string \<times> json) list"
  | JRawNumber byte_string

type_synonym json_object = "(byte_string \<times> json) list"

datatype parse_error =
    Trailing_data | Unexpected_end | Unexpected_token | Invalid_literal | Invalid_string
  | Invalid_escape | Invalid_unicode_escape | Invalid_number | Integer_out_of_range
  | Duplicate_object_key | Nesting_too_deep | Too_many_object_members

datatype canonical_json_error = Duplicate_key | Bad_string | Float_not_allowed

section \<open>UTF-8 validation\<close>

text \<open>
  The lead byte of a multi-byte sequence: its length, the smallest code point that needs it and the
  payload bits it carries.
\<close>

definition utf8_lead :: "nat \<Rightarrow> (nat \<times> nat \<times> nat) option" where
  "utf8_lead first =
     (if (first AND 0xE0) = 0xC0 then Some (2, 0x80, first AND 0x1F)
      else if (first AND 0xF0) = 0xE0 then Some (3, 0x800, first AND 0x0F)
      else if (first AND 0xF8) = 0xF0 then Some (4, 0x10000, first AND 0x07)
      else None)"

text \<open>The loop over the continuation bytes; \<open>None\<close> where the source returns false.\<close>

fun utf8_tail :: "nat \<Rightarrow> nat \<Rightarrow> byte_string \<Rightarrow> (nat \<times> byte_string) option" where
  "utf8_tail 0 codepoint s = Some (codepoint, s)"
| "utf8_tail (Suc n) codepoint [] = None"
| "utf8_tail (Suc n) codepoint (c # s) =
     (if (byte_of c AND 0xC0) \<noteq> 0x80 then None
      else utf8_tail n (push_bit 6 codepoint OR (byte_of c AND 0x3F)) s)"

lemma utf8_tail_length: "utf8_tail n cp s = Some (cp', r) \<Longrightarrow> length r \<le> length s"
  by (induction n cp s rule: utf8_tail.induct) (auto split: if_splits)

function utf8_is_valid :: "byte_string \<Rightarrow> bool" where
  "utf8_is_valid [] = True"
| "utf8_is_valid (c # s) =
     (if byte_of c \<le> (0x7F::nat) then utf8_is_valid s
      else case utf8_lead (byte_of c) of
        None \<Rightarrow> False
      | Some (len, min_codepoint, codepoint) \<Rightarrow>
          if length (c # s) < len then False
          else case utf8_tail (len - 1) codepoint s of
            None \<Rightarrow> False
          | Some (cp, rest) \<Rightarrow>
              if cp < min_codepoint \<or> 0x10FFFF < cp \<or> (0xD800 \<le> cp \<and> cp \<le> 0xDFFF) then False
              else utf8_is_valid rest)"
  by pat_completeness auto
termination
  by (relation "measure length") (auto dest!: utf8_tail_length)

definition string_is_valid_for_json :: "byte_string \<Rightarrow> bool" where
  "string_is_valid_for_json value = utf8_is_valid value"

section \<open>Integer literals\<close>

definition max_safe_integer :: int where
  "max_safe_integer = 9007199254740991"

definition min_safe_integer :: int where
  "min_safe_integer = - 9007199254740991"

definition is_canonical_int64_token :: "byte_string \<Rightarrow> bool" where
  "is_canonical_int64_token token =
     (case token of
        [] \<Rightarrow> False
      | c # rest \<Rightarrow>
          let has_minus = (c = CHR ''-'') in
          if has_minus \<and> rest = [] then False
          else
            let digits = (if has_minus then rest else token) in
            if hd digits = CHR ''0'' then
              (if has_minus then False else tl digits = [])
            else if \<not> (CHR ''1'' \<le> hd digits \<and> hd digits \<le> CHR ''9'') then False
            else list_all is_digit (tl digits))"

definition raw_number_as_int64 :: "byte_string \<Rightarrow> parse_error + json" where
  "raw_number_as_int64 token =
     (if \<exists>c \<in> set token. c = CHR ''.'' \<or> c = CHR ''e'' \<or> c = CHR ''E'' then Inl Invalid_number
      else if \<not> is_canonical_int64_token token then Inl Invalid_number
      else case from_chars_int64 token of (errc, consumed, parsed) \<Rightarrow>
        if errc = Errc_result_out_of_range then Inl Integer_out_of_range
        else if errc \<noteq> Errc_ok \<or> consumed \<noteq> length token then Inl Invalid_number
        else if parsed < min_safe_integer \<or> max_safe_integer < parsed then Inl Integer_out_of_range
        else Inr (JInt parsed))"

section \<open>Conversion of a yyjson document\<close>

text \<open>
  The node kinds the adapter reports. An integer node is unsigned or signed, as
  \<open>yyjson_is_uint\<close> tells; with \<open>YYJSON_READ_NUMBER_AS_RAW\<close> every number is a \<open>Yy_raw\<close> node.
\<close>

datatype yyjson_value =
    Yy_null
  | Yy_bool bool
  | Yy_raw byte_string
  | Yy_uint "64 word"
  | Yy_sint int
  | Yy_real double
  | Yy_str byte_string
  | Yy_arr "yyjson_value list"
  | Yy_obj "(byte_string \<times> yyjson_value) list"
  | Yy_unknown

datatype yyjson_read_code =
    Read_invalid_parameter | Read_memory_allocation | Read_empty_content
  | Read_unexpected_content | Read_unexpected_end | Read_unexpected_character
  | Read_json_structure | Read_invalid_comment | Read_invalid_number | Read_invalid_string
  | Read_literal | Read_file_open | Read_file_read | Read_more

type_synonym yyjson_reader = "byte_string \<Rightarrow> yyjson_read_code + (nat \<times> yyjson_value)"

fun map_yyjson_error :: "yyjson_read_code \<Rightarrow> parse_error" where
  "map_yyjson_error Read_empty_content = Unexpected_end"
| "map_yyjson_error Read_unexpected_end = Unexpected_end"
| "map_yyjson_error Read_more = Unexpected_end"
| "map_yyjson_error Read_unexpected_content = Trailing_data"
| "map_yyjson_error Read_invalid_number = Invalid_number"
| "map_yyjson_error Read_invalid_string = Invalid_string"
| "map_yyjson_error Read_literal = Invalid_literal"
| "map_yyjson_error _ = Unexpected_token"

text \<open>\<open>merovingian_yyjson_integer_in_canonical_range\<close> and \<open>merovingian_yyjson_number_as_int64\<close>.\<close>

fun yyjson_integer_in_canonical_range :: "yyjson_value \<Rightarrow> bool" where
  "yyjson_integer_in_canonical_range (Yy_uint u) = (uint u \<le> 9007199254740991)"
| "yyjson_integer_in_canonical_range (Yy_sint i) =
     (- 9007199254740991 \<le> i \<and> i \<le> 9007199254740991)"
| "yyjson_integer_in_canonical_range _ = True"

fun yyjson_number_as_int64 :: "yyjson_value \<Rightarrow> int" where
  "yyjson_number_as_int64 (Yy_uint u) = sint u"
| "yyjson_number_as_int64 (Yy_sint i) = i"
| "yyjson_number_as_int64 _ = 0"

definition max_depth :: nat where
  "max_depth = 64"

definition max_object_members :: nat where
  "max_object_members = 65536"

text \<open>
  The recursive conversion. \<open>convert_items\<close> and \<open>convert_members\<close> are the callbacks of the array
  and object iterations with their context: the values collected so far and, for objects, the keys
  already seen. The first error ends the iteration.
\<close>

function (sequential)
  convert_yyjson_value :: "bool \<Rightarrow> nat \<Rightarrow> yyjson_value \<Rightarrow> parse_error + json"
  and convert_items ::
    "bool \<Rightarrow> nat \<Rightarrow> json list \<Rightarrow> yyjson_value list \<Rightarrow> parse_error + json list"
  and convert_members ::
    "bool \<Rightarrow> nat \<Rightarrow> byte_string set \<Rightarrow> json_object \<Rightarrow> (byte_string \<times> yyjson_value) list
      \<Rightarrow> parse_error + json_object"
where
  "convert_yyjson_value preserve_numbers depth value =
     (if max_depth < depth then Inl Nesting_too_deep
      else case value of
        Yy_null \<Rightarrow> Inr JNull
      | Yy_bool b \<Rightarrow> Inr (JBool b)
      | Yy_raw raw \<Rightarrow>
          (case raw_number_as_int64 raw of
             Inl e \<Rightarrow>
               if preserve_numbers \<and> (e = Invalid_number \<or> e = Integer_out_of_range)
               then Inr (JRawNumber raw) else Inl e
           | Inr v \<Rightarrow> Inr v)
      | Yy_uint u \<Rightarrow>
          if \<not> yyjson_integer_in_canonical_range (Yy_uint u) then Inl Integer_out_of_range
          else Inr (JInt (yyjson_number_as_int64 (Yy_uint u)))
      | Yy_sint i \<Rightarrow>
          if \<not> yyjson_integer_in_canonical_range (Yy_sint i) then Inl Integer_out_of_range
          else Inr (JInt (yyjson_number_as_int64 (Yy_sint i)))
      | Yy_real d \<Rightarrow> Inr (JDouble d)
      | Yy_str s \<Rightarrow> Inr (JString s)
      | Yy_arr vs \<Rightarrow> map_sum id JArray (convert_items preserve_numbers depth [] vs)
      | Yy_obj ms \<Rightarrow>
          if max_object_members < length ms then Inl Too_many_object_members
          else map_sum id JObject (convert_members preserve_numbers depth {} [] ms)
      | Yy_unknown \<Rightarrow> Inl Unexpected_token)"
| "convert_items preserve_numbers depth acc [] = Inr acc"
| "convert_items preserve_numbers depth acc (v # vs) =
     (case convert_yyjson_value preserve_numbers (depth + 1) v of
        Inl e \<Rightarrow> Inl e
      | Inr x \<Rightarrow> convert_items preserve_numbers depth (acc @ [x]) vs)"
| "convert_members preserve_numbers depth seen_keys acc [] = Inr acc"
| "convert_members preserve_numbers depth seen_keys acc ((k, v) # ms) =
     (if k \<in> seen_keys then Inl Duplicate_object_key
      else case convert_yyjson_value preserve_numbers (depth + 1) v of
        Inl e \<Rightarrow> Inl e
      | Inr x \<Rightarrow> convert_members preserve_numbers depth (insert k seen_keys) (acc @ [(k, x)]) ms)"
  by pat_completeness auto
termination
  by (relation "measure (\<lambda>x. case x of
        Inl (_, _, v) \<Rightarrow> 2 * size v + 1
      | Inr (Inl (_, _, _, vs)) \<Rightarrow> 2 * size_list size vs
      | Inr (Inr (_, _, _, _, ms)) \<Rightarrow> 2 * size_list (size_prod (\<lambda>_. 0) size) ms)") auto

declare convert_yyjson_value.simps [simp del]

definition input_is_blank :: "byte_string \<Rightarrow> bool" where
  "input_is_blank input =
     list_all (\<lambda>c. c = CHR '' '' \<or> c = CHR 0x0A \<or> c = CHR 0x0D \<or> c = CHR 0x09) input"

definition parse_with_raw_numbers ::
    "yyjson_reader \<Rightarrow> byte_string \<Rightarrow> bool \<Rightarrow> parse_error + json" where
  "parse_with_raw_numbers read_raw input preserve_numbers =
     (if input_is_blank input then Inl Unexpected_end
      else if \<not> utf8_is_valid input then Inl Invalid_string
      else case read_raw input of
        Inl code \<Rightarrow> Inl (map_yyjson_error code)
      | Inr (bytes_read, root) \<Rightarrow>
          if bytes_read \<noteq> length input then Inl Trailing_data
          else convert_yyjson_value preserve_numbers 0 root)"

definition parse_lossless :: "yyjson_reader \<Rightarrow> byte_string \<Rightarrow> parse_error + json" where
  "parse_lossless read_raw input = parse_with_raw_numbers read_raw input False"

definition parse_preserving_numbers :: "yyjson_reader \<Rightarrow> byte_string \<Rightarrow> parse_error + json" where
  "parse_preserving_numbers read_raw input = parse_with_raw_numbers read_raw input True"

definition parse_json :: "yyjson_reader \<Rightarrow> byte_string \<Rightarrow> parse_error + json" where
  "parse_json read_numbers input =
     (if input_is_blank input then Inl Unexpected_end
      else if \<not> utf8_is_valid input then Inl Invalid_string
      else case read_numbers input of
        Inl code \<Rightarrow> Inl (map_yyjson_error code)
      | Inr (bytes_read, root) \<Rightarrow>
          if bytes_read \<noteq> length input then Inl Trailing_data
          else convert_yyjson_value False 0 root)"

section \<open>The serializer\<close>

definition hex_digit :: "nat \<Rightarrow> char" where
  "hex_digit value = ''0123456789abcdef'' ! (value AND 0x0F)"

definition append_control_escape :: "byte_string \<Rightarrow> nat \<Rightarrow> byte_string" where
  "append_control_escape output value =
     output @ [CHR 0x5C, CHR ''u'', CHR ''0'', CHR ''0''] @
     [hex_digit (drop_bit 4 value), hex_digit value]"

definition append_escaped_char :: "byte_string \<Rightarrow> char \<Rightarrow> byte_string" where
  "append_escaped_char output c =
     (if c = CHR 0x22 then output @ [CHR 0x5C, CHR 0x22]
      else if c = CHR 0x5C then output @ [CHR 0x5C, CHR 0x5C]
      else if c = CHR 0x08 then output @ [CHR 0x5C, CHR ''b'']
      else if c = CHR 0x0C then output @ [CHR 0x5C, CHR ''f'']
      else if c = CHR 0x0A then output @ [CHR 0x5C, CHR ''n'']
      else if c = CHR 0x0D then output @ [CHR 0x5C, CHR ''r'']
      else if c = CHR 0x09 then output @ [CHR 0x5C, CHR ''t'']
      else if byte_of c < (0x20::nat) then append_control_escape output (byte_of c)
      else output @ [c])"

definition append_escaped_string :: "byte_string \<Rightarrow> byte_string \<Rightarrow> byte_string" where
  "append_escaped_string output value =
     foldl append_escaped_char (output @ [CHR 0x22]) value @ [CHR 0x22]"

text \<open>
  \<open>object_has_duplicate_keys\<close>: the scan keeps the set of keys seen.
\<close>

fun has_duplicate_keys_from :: "byte_string set \<Rightarrow> json_object \<Rightarrow> bool" where
  "has_duplicate_keys_from seen_keys [] = False"
| "has_duplicate_keys_from seen_keys ((k, v) # ms) =
     (if k \<in> seen_keys then True else has_duplicate_keys_from (insert k seen_keys) ms)"

definition object_has_duplicate_keys :: "json_object \<Rightarrow> bool" where
  "object_has_duplicate_keys object = has_duplicate_keys_from {} object"

text \<open>
  \<open>format_double\<close> goes through the C library's \<open>snprintf\<close> and \<open>strtod\<close>: \<open>print_g precision d\<close> is the
  text of \<open>%.*g\<close> and \<open>read_d\<close> the value \<open>strtod\<close> reads back when it consumes the whole text.
  \<open>decimal_point\<close> is the active locale's separator.
\<close>

record c_library =
  print_g :: "nat \<Rightarrow> double \<Rightarrow> byte_string"
  read_d :: "byte_string \<Rightarrow> double option"
  same_double :: "double \<Rightarrow> double \<Rightarrow> bool"
  decimal_point :: "byte_string option"

definition normalize_decimal_point :: "c_library \<Rightarrow> byte_string \<Rightarrow> byte_string" where
  "normalize_decimal_point lib text =
     (case decimal_point lib of
        None \<Rightarrow> text
      | Some point \<Rightarrow>
          if point = [] \<or> point = ''.'' then text
          else case find_sub point text of
            None \<Rightarrow> text
          | Some position \<Rightarrow> take position text @ ''.'' @ drop (position + length point) text)"

fun format_double_from :: "c_library \<Rightarrow> nat \<Rightarrow> nat \<Rightarrow> double \<Rightarrow> byte_string" where
  "format_double_from lib 0 precision value = normalize_decimal_point lib (print_g lib 17 value)"
| "format_double_from lib (Suc tries) precision value =
     (let text = print_g lib precision value in
      if text = [] \<or> 32 \<le> length text then format_double_from lib tries (precision + 1) value
      else case read_d lib text of
        None \<Rightarrow> format_double_from lib tries (precision + 1) value
      | Some round_tripped \<Rightarrow>
          if same_double lib round_tripped value then normalize_decimal_point lib text
          else format_double_from lib tries (precision + 1) value)"

definition format_double :: "c_library \<Rightarrow> double \<Rightarrow> byte_string" where
  "format_double lib value = format_double_from lib 17 1 value"

text \<open>Writing the collected parts: the loops with the \<open>first\<close> flag.\<close>

fun append_items :: "byte_string \<Rightarrow> bool \<Rightarrow> byte_string list \<Rightarrow> byte_string" where
  "append_items output first [] = output"
| "append_items output first (x # xs) =
     append_items ((if first then output else output @ '','') @ x) False xs"

fun append_members ::
    "byte_string \<Rightarrow> bool \<Rightarrow> (byte_string \<times> byte_string) list \<Rightarrow> byte_string" where
  "append_members output first [] = output"
| "append_members output first ((k, x) # ms) =
     append_members
       (append_escaped_string (if first then output else output @ '','') k @ '':'' @ x) False ms"

function (sequential)
  serialize_value :: "c_library \<Rightarrow> bool \<Rightarrow> json \<Rightarrow> canonical_json_error + byte_string"
  and serialize_items ::
    "c_library \<Rightarrow> bool \<Rightarrow> json list \<Rightarrow> canonical_json_error + byte_string list"
  and serialize_members ::
    "c_library \<Rightarrow> bool \<Rightarrow> json_object \<Rightarrow> canonical_json_error + (byte_string \<times> byte_string) list"
where
  "serialize_value lib reject_floats JNull = Inr ''null''"
| "serialize_value lib reject_floats (JBool b) = Inr (if b then ''true'' else ''false'')"
| "serialize_value lib reject_floats (JInt i) = Inr (show_int i)"
| "serialize_value lib reject_floats (JDouble d) =
     (if reject_floats then Inl Float_not_allowed else Inr (format_double lib d))"
| "serialize_value lib reject_floats (JRawNumber token) =
     (if reject_floats then Inl Float_not_allowed else Inr token)"
| "serialize_value lib reject_floats (JString s) =
     (if \<not> string_is_valid_for_json s then Inl Bad_string
      else Inr (append_escaped_string [] s))"
| "serialize_value lib reject_floats (JArray vs) =
     (case serialize_items lib reject_floats vs of
        Inl e \<Rightarrow> Inl e
      | Inr parts \<Rightarrow> Inr (append_items ''['' True parts @ '']''))"
| "serialize_value lib reject_floats (JObject ms) =
     (if object_has_duplicate_keys ms then Inl Duplicate_key
      else case serialize_members lib reject_floats ms of
        Inl e \<Rightarrow> Inl e
      | Inr members \<Rightarrow>
          Inr (append_members ''{'' True (sort_key fst members) @ ''}''))"
| "serialize_items lib reject_floats [] = Inr []"
| "serialize_items lib reject_floats (v # vs) =
     (case serialize_value lib reject_floats v of
        Inl e \<Rightarrow> Inl e
      | Inr x \<Rightarrow>
          (case serialize_items lib reject_floats vs of Inl e \<Rightarrow> Inl e | Inr xs \<Rightarrow> Inr (x # xs)))"
| "serialize_members lib reject_floats [] = Inr []"
| "serialize_members lib reject_floats ((k, v) # ms) =
     (if \<not> string_is_valid_for_json k then Inl Bad_string
      else case serialize_value lib reject_floats v of
        Inl e \<Rightarrow> Inl e
      | Inr x \<Rightarrow>
          (case serialize_members lib reject_floats ms of
             Inl e \<Rightarrow> Inl e
           | Inr xs \<Rightarrow> Inr ((k, x) # xs)))"
  by pat_completeness auto
termination
  by (relation "measure (\<lambda>x. case x of
        Inl (_, _, v) \<Rightarrow> 2 * size v + 1
      | Inr (Inl (_, _, vs)) \<Rightarrow> 2 * size_list size vs
      | Inr (Inr (_, _, ms)) \<Rightarrow> 2 * size_list (size_prod (\<lambda>_. 0) size) ms)") auto

definition serialize_canonical :: "c_library \<Rightarrow> json \<Rightarrow> canonical_json_error + byte_string" where
  "serialize_canonical lib value = serialize_value lib False value"

text \<open>
  The signing path never formats a number through the C library, so it is given none of it.
\<close>

definition no_c_library :: c_library where
  "no_c_library =
     \<lparr>print_g = (\<lambda>_ _. []), read_d = (\<lambda>_. None), same_double = (\<lambda>_ _. False),
      decimal_point = None\<rparr>"

definition serialize_canonical_strict :: "json \<Rightarrow> canonical_json_error + byte_string" where
  "serialize_canonical_strict value = serialize_value no_c_library True value"

definition make_signable_object_view :: "json \<Rightarrow> canonical_json_error + byte_string" where
  "make_signable_object_view value =
     (case value of
        JObject ms \<Rightarrow>
          serialize_canonical_strict
            (JObject (filter (\<lambda>(k, v). \<not> (k = ''signatures'' \<or> k = ''unsigned'')) ms))
      | _ \<Rightarrow> serialize_canonical_strict value)"

fun canonical_json_error_name :: "canonical_json_error \<Rightarrow> byte_string" where
  "canonical_json_error_name Duplicate_key = ''duplicate_object_key''"
| "canonical_json_error_name Bad_string = ''invalid_string''"
| "canonical_json_error_name Float_not_allowed = ''float_not_allowed''"

section \<open>UTF-8\<close>

text \<open>The encoding of a Unicode scalar value, and the text they spell.\<close>

definition scalar_value :: "nat \<Rightarrow> bool" where
  "scalar_value cp \<longleftrightarrow> cp \<le> 0x10FFFF \<and> \<not> (0xD800 \<le> cp \<and> cp \<le> 0xDFFF)"

definition utf8_encode :: "nat \<Rightarrow> byte_string" where
  "utf8_encode cp =
     (if cp < 0x80 then [char_of cp]
      else if cp < 0x800 then [char_of (0xC0 + cp div 64), char_of (0x80 + cp mod 64)]
      else if cp < 0x10000 then
        [char_of (0xE0 + cp div 4096), char_of (0x80 + cp div 64 mod 64), char_of (0x80 + cp mod 64)]
      else
        [char_of (0xF0 + cp div 262144), char_of (0x80 + cp div 4096 mod 64),
         char_of (0x80 + cp div 64 mod 64), char_of (0x80 + cp mod 64)])"

lemma and_push_mask: "(b::nat) AND push_bit n (mask k) = (b div 2 ^ n mod 2 ^ k) * 2 ^ n"
proof -
  have "b AND push_bit n (mask k) = push_bit n (drop_bit n b AND mask k)"
    by (rule bit_eqI) (auto simp: bit_simps)
  also have "\<dots> = push_bit n (take_bit k (drop_bit n b))"
    by (simp add: take_bit_eq_mask)
  finally show ?thesis
    by (simp add: push_bit_eq_mult drop_bit_eq_div take_bit_eq_mod)
qed

lemma byte_masks:
  "(b::nat) AND 0xE0 = b div 32 mod 8 * 32"
  "(b::nat) AND 0xF0 = b div 16 mod 16 * 16"
  "(b::nat) AND 0xF8 = b div 8 mod 32 * 8"
  "(b::nat) AND 0xC0 = b div 64 mod 4 * 64"
  "(b::nat) AND 0x3F = b mod 64"
  "(b::nat) AND 0x1F = b mod 32"
  "(b::nat) AND 0x0F = b mod 16"
  "(b::nat) AND 0x07 = b mod 8"
proof -
  have m: "mask 3 = (7::nat)" "mask 4 = (15::nat)" "mask 5 = (31::nat)" "mask 2 = (3::nat)" "mask 6 = (63::nat)"
    by (simp_all add: mask_eq_exp_minus_1)
  show "b AND 0xE0 = b div 32 mod 8 * 32"
    using and_push_mask [of b 5 3] by (simp add: m push_bit_eq_mult)
  show "b AND 0xF0 = b div 16 mod 16 * 16"
    using and_push_mask [of b 4 4] by (simp add: m push_bit_eq_mult)
  show "b AND 0xF8 = b div 8 mod 32 * 8"
    using and_push_mask [of b 3 5] by (simp add: m push_bit_eq_mult)
  show "b AND 0xC0 = b div 64 mod 4 * 64"
    using and_push_mask [of b 6 2] by (simp add: m push_bit_eq_mult)
  show "b AND 0x3F = b mod 64" "b AND 0x1F = b mod 32" "b AND 0x0F = b mod 16" "b AND 0x07 = b mod 8"
    using take_bit_eq_mask [of 6 b] take_bit_eq_mask [of 5 b] take_bit_eq_mask [of 4 b]
      take_bit_eq_mask [of 3 b]
    by (simp_all add: m take_bit_eq_mod)
qed

lemma push_bit_or: "m < 64 \<Longrightarrow> push_bit 6 (a::nat) OR m = a * 64 + m"
proof -
  assume "m < 64"
  then have m: "take_bit 6 m = m"
    by (simp add: take_bit_nat_eq_self_iff)
  have "push_bit 6 a AND take_bit 6 m = 0"
    by (rule bit_eqI) (auto simp: bit_simps)
  then show ?thesis
    using disjunctive_add_eq_or [of "push_bit 6 a" m] m by (simp add: push_bit_eq_mult)
qed

lemma div_eq_iff_range: "0 < d \<Longrightarrow> (b::nat) div d = q \<longleftrightarrow> q * d \<le> b \<and> b < Suc q * d"
  using less_eq_div_iff_mult_less_eq [of d q b] div_less_iff_less_mult [of d b "Suc q"] by auto

lemma mod_minus_multiple:
  "d dvd k \<Longrightarrow> k \<le> b \<Longrightarrow> b < k + d \<Longrightarrow> (b::nat) mod d = b - k"
  by (rule mod_nat_eqI) auto

lemma mask_ranges:
  assumes "b < 256"
  shows "(b::nat) AND 0xE0 = 0xC0 \<longleftrightarrow> 192 \<le> b \<and> b < 224"
    and "b AND 0xF0 = 0xE0 \<longleftrightarrow> 224 \<le> b \<and> b < 240"
    and "b AND 0xF8 = 0xF0 \<longleftrightarrow> 240 \<le> b \<and> b < 248"
    and "b AND 0xC0 = 0x80 \<longleftrightarrow> 128 \<le> b \<and> b < 192"
proof -
  have "b div 32 mod 8 = b div 32" "b div 16 mod 16 = b div 16" "b div 8 mod 32 = b div 8"
    "b div 64 mod 4 = b div 64"
    using assms by (simp_all add: div_less_iff_less_mult)
  moreover have "(x::nat) * 32 = 192 \<longleftrightarrow> x = 6" "x * 16 = 224 \<longleftrightarrow> x = 14" "x * 8 = 240 \<longleftrightarrow> x = 30"
    "x * 64 = 128 \<longleftrightarrow> x = 2" for x
    by linarith+
  ultimately show "b AND 0xE0 = 0xC0 \<longleftrightarrow> 192 \<le> b \<and> b < 224" "b AND 0xF0 = 0xE0 \<longleftrightarrow> 224 \<le> b \<and> b < 240"
    "b AND 0xF8 = 0xF0 \<longleftrightarrow> 240 \<le> b \<and> b < 248" "b AND 0xC0 = 0x80 \<longleftrightarrow> 128 \<le> b \<and> b < 192"
    by (simp_all add: byte_masks div_eq_iff_range)
qed

lemma byte_of_lt: "byte_of c < (256::nat)"
  by simp

lemma utf8_lead_eq:
  "b < 256 \<Longrightarrow> utf8_lead b =
     (if 192 \<le> b \<and> b < 224 then Some (2, 0x80, b - 192)
      else if 224 \<le> b \<and> b < 240 then Some (3, 0x800, b - 224)
      else if 240 \<le> b \<and> b < 248 then Some (4, 0x10000, b - 240)
      else None)"
proof -
  assume b: "b < 256"
  then show ?thesis
    by (simp add: utf8_lead_def mask_ranges byte_masks(5-8) mod_minus_multiple)
qed

lemma utf8_tail_Cons:
  "utf8_tail (Suc n) cp (c # s) =
     (if 128 \<le> byte_of c \<and> byte_of c < (192::nat) then utf8_tail n (cp * 64 + (byte_of c - 128)) s
      else None)"
  using mod_minus_multiple [of 64 128 "byte_of c"]
  by (auto simp: mask_ranges byte_masks(5) push_bit_or)

declare utf8_tail.simps(3) [simp del]

lemma utf8_tail_numerals:
  "utf8_tail 2 cp s = utf8_tail (Suc (Suc 0)) cp s"
  "utf8_tail 3 cp s = utf8_tail (Suc (Suc (Suc 0))) cp s"
  by (simp_all add: numeral_2_eq_2 numeral_3_eq_3)

lemma utf8_encode_valid:
  assumes "scalar_value cp"
  shows "utf8_is_valid (utf8_encode cp @ s) = utf8_is_valid s"
proof -
  have join: "cp div 64 * 64 + cp mod 64 = cp" "cp div 4096 * 64 + cp div 64 mod 64 = cp div 64"
    "cp div 262144 * 64 + cp div 4096 mod 64 = cp div 4096"
    using div_mult_mod_eq [of "cp div 64" 64] div_mult_mod_eq [of "cp div 4096" 64]
    by (simp_all flip: div_mult2_eq)
  have join3: "4096 * (cp div 4096) + cp div 64 mod 64 * 64 + cp mod 64 = cp"
    using join by linarith
  have join4: "262144 * (cp div 262144) + 4096 * (cp div 4096 mod 64) + cp div 64 mod 64 * 64 + cp mod 64 = cp"
    using join by linarith
  consider "cp < 0x80" | "0x80 \<le> cp" "cp < 0x800" | "0x800 \<le> cp" "cp < 0x10000"
    | "0x10000 \<le> cp" "cp \<le> 0x10FFFF"
    using assms by (fastforce simp: scalar_value_def)
  then show ?thesis
  proof cases
    case 1
    then show ?thesis by (simp add: utf8_encode_def)
  next
    case 2
    then have d: "cp div 64 < 32"
      by (simp add: div_less_iff_less_mult)
    then show ?thesis
      using 2 assms join(1) by (simp add: d utf8_encode_def utf8_lead_eq utf8_tail_Cons scalar_value_def)
  next
    case 3
    then have d: "cp div 4096 < 16"
      by (simp add: div_less_iff_less_mult)
    then show ?thesis
      using 3 assms
      by (auto simp: d join3 utf8_encode_def utf8_lead_eq utf8_tail_Cons scalar_value_def utf8_tail_numerals)
  next
    case 4
    then have d: "cp div 262144 < 8"
      by (simp add: div_less_iff_less_mult)
    then show ?thesis
      using 4 assms
      by (simp add: d join4 utf8_encode_def utf8_lead_eq utf8_tail_Cons scalar_value_def utf8_tail_numerals)
  qed
qed

lemma utf8_tail_Some:
  "utf8_tail n cp s = Some (cp', rest) \<Longrightarrow>
     \<exists>ms. length ms = n \<and> (\<forall>m \<in> set ms. m < 64) \<and> s = map (\<lambda>m. char_of (0x80 + m)) ms @ rest \<and>
       cp' = foldl (\<lambda>a m. a * 64 + m) cp ms"
proof (induction n arbitrary: cp s)
  case (Suc n)
  then obtain c s' where s: "s = c # s'"
    by (cases s) auto
  with Suc.prems have c: "128 \<le> byte_of c" "byte_of c < (192::nat)"
    and t: "utf8_tail n (cp * 64 + (byte_of c - 128)) s' = Some (cp', rest)"
    by (auto simp: utf8_tail_Cons split: if_splits)
  from Suc.IH [OF t] obtain ms where "length ms = n" "\<forall>m \<in> set ms. m < 64"
    "s' = map (\<lambda>m. char_of (0x80 + m)) ms @ rest"
    "cp' = foldl (\<lambda>a m. a * 64 + m) (cp * 64 + (byte_of c - 128)) ms"
    by blast
  then show ?case
    using c s by (intro exI [of _ "(byte_of c - 128) # ms"]) auto
qed auto

lemma utf8_encode_digits:
  assumes "m < 64"
  shows "0x80 \<le> q * 64 + m \<Longrightarrow> q < 32 \<Longrightarrow> utf8_encode (q * 64 + m) = [char_of (0xC0 + q), char_of (0x80 + m)]"
    and "n < 64 \<Longrightarrow> 0x800 \<le> (q * 64 + n) * 64 + m \<Longrightarrow> q < 16 \<Longrightarrow>
      utf8_encode ((q * 64 + n) * 64 + m) = [char_of (0xE0 + q), char_of (0x80 + n), char_of (0x80 + m)]"
    and "n < 64 \<Longrightarrow> p < 64 \<Longrightarrow> 0x10000 \<le> ((q * 64 + p) * 64 + n) * 64 + m \<Longrightarrow>
      utf8_encode (((q * 64 + p) * 64 + n) * 64 + m) =
        [char_of (0xF0 + q), char_of (0x80 + p), char_of (0x80 + n), char_of (0x80 + m)]"
proof -
  have d: "(a * 64 + m) div 64 = a" "(a * 64 + m) mod 64 = m" if "m < 64" for a m :: nat
    using that by simp_all
  have e: "x div 4096 = x div 64 div 64" "x div 262144 = x div 64 div 64 div 64" for x :: nat
    by (simp_all flip: div_mult2_eq)
  show "0x80 \<le> q * 64 + m \<Longrightarrow> q < 32 \<Longrightarrow> utf8_encode (q * 64 + m) = [char_of (0xC0 + q), char_of (0x80 + m)]"
    using assms by (simp add: utf8_encode_def)
  show "utf8_encode ((q * 64 + n) * 64 + m) = [char_of (0xE0 + q), char_of (0x80 + n), char_of (0x80 + m)]"
    if "n < 64" "0x800 \<le> (q * 64 + n) * 64 + m" "q < 16"
    unfolding utf8_encode_def e d [OF assms] d [OF that(1)] using assms that by simp
  show "utf8_encode (((q * 64 + p) * 64 + n) * 64 + m) =
        [char_of (0xF0 + q), char_of (0x80 + p), char_of (0x80 + n), char_of (0x80 + m)]"
    if "n < 64" "p < 64" "0x10000 \<le> ((q * 64 + p) * 64 + n) * 64 + m"
    unfolding utf8_encode_def e d [OF assms] d [OF that(1)] d [OF that(2)] using assms that by simp
qed

lemma utf8_valid_split:
  assumes "utf8_is_valid (c # s)"
  shows "\<exists>cp rest. scalar_value cp \<and> c # s = utf8_encode cp @ rest \<and> utf8_is_valid rest"
proof (cases "byte_of c \<le> (0x7F::nat)")
  case True
  then show ?thesis
    using assms by (intro exI [of _ "byte_of c"] exI [of _ s]) (simp add: scalar_value_def utf8_encode_def)
next
  case False
  with assms obtain len min_cp cp0 where l: "utf8_lead (byte_of c) = Some (len, min_cp, cp0)"
    by (cases "utf8_lead (byte_of c)") auto
  with False assms obtain cp rest where t: "utf8_tail (len - 1) cp0 s = Some (cp, rest)"
    by (cases "utf8_tail (len - 1) cp0 s") (auto split: if_splits)
  have m: "min_cp \<le> cp" and cp: "scalar_value cp" and v: "utf8_is_valid rest"
    using False assms l t by (auto simp: scalar_value_def split: if_splits)
  obtain ms where ms: "length ms = len - 1" "\<forall>m \<in> set ms. m < 64"
    "s = map (\<lambda>m. char_of (0x80 + m)) ms @ rest" "cp = foldl (\<lambda>a m. a * 64 + m) cp0 ms"
    using utf8_tail_Some [OF t] by blast
  have "c # s = utf8_encode cp @ rest"
  proof -
    consider "len = 2" "min_cp = 0x80" "byte_of c = 192 + cp0" "cp0 < 32"
      | "len = 3" "min_cp = 0x800" "byte_of c = 224 + cp0" "cp0 < 16"
      | "len = 4" "min_cp = 0x10000" "byte_of c = 240 + cp0" "cp0 < 8"
      using l by (auto simp: utf8_lead_eq split: if_splits)
    then show ?thesis
    proof cases
      case 1
      then obtain a where "ms = [a]" using ms(1) by (auto simp: length_Suc_conv)
      then show ?thesis
        using 1 ms m utf8_encode_digits(1) [of a cp0] by (simp flip: 1(3))
    next
      case 2
      then obtain a b where "ms = [a, b]" using ms(1) by (auto simp: numeral_2_eq_2 length_Suc_conv)
      then show ?thesis
        using 2 ms m utf8_encode_digits(2) [of b a cp0] by (simp flip: 2(3))
    next
      case 3
      then obtain a b d where "ms = [a, b, d]" using ms(1) by (auto simp: numeral_3_eq_3 length_Suc_conv)
      then show ?thesis
        using 3 ms m utf8_encode_digits(3) [of d b a cp0] by (simp flip: 3(3))
    qed
  qed
  then show ?thesis
    using cp v by blast
qed

section \<open>Escaping\<close>

definition escape_char :: "char \<Rightarrow> byte_string" where
  "escape_char c = append_escaped_char [] c"

definition escape :: "byte_string \<Rightarrow> byte_string" where
  "escape s = concat (map escape_char s)"

lemma append_escaped_char_eq: "append_escaped_char out c = out @ escape_char c"
  by (simp add: escape_char_def append_escaped_char_def append_control_escape_def)

lemma append_escaped_string_eq [json_simps]:
  "append_escaped_string out s = out @ CHR 0x22 # escape s @ [CHR 0x22]"
proof -
  have "foldl append_escaped_char acc s = acc @ escape s" for acc
    by (induction s arbitrary: acc) (simp_all add: append_escaped_char_eq escape_def)
  then show ?thesis
    by (simp add: append_escaped_string_def)
qed

text \<open>
  Reading an escaped character back, the inverse that shows escapes cannot be confused.
\<close>

definition hex_value :: "char \<Rightarrow> nat" where
  "hex_value c = (if is_digit c then byte_of c - 48 else byte_of c - 87)"

definition unescape_char :: "byte_string \<Rightarrow> char \<times> byte_string" where
  "unescape_char s =
     (if hd s \<noteq> CHR 0x5C then (hd s, tl s)
      else if s ! 1 = CHR ''b'' then (CHR 0x08, drop 2 s)
      else if s ! 1 = CHR ''f'' then (CHR 0x0C, drop 2 s)
      else if s ! 1 = CHR ''n'' then (CHR 0x0A, drop 2 s)
      else if s ! 1 = CHR ''r'' then (CHR 0x0D, drop 2 s)
      else if s ! 1 = CHR ''t'' then (CHR 0x09, drop 2 s)
      else if s ! 1 = CHR ''u'' then
        (char_of (16 * hex_value (s ! 4) + hex_value (s ! 5)), drop 6 s)
      else (s ! 1, drop 2 s))"

lemma hex_value_hex_digit: "hex_value (hex_digit n) = n mod 16"
proof -
  have n: "n AND 0x0F = n mod 16"
    using take_bit_eq_mask [of 4 n] by (simp add: take_bit_eq_mod mask_eq_exp_minus_1)
  have "list_all (\<lambda>m. hex_value (''0123456789abcdef'' ! m) = m) [0..<16]"
    by code_simp
  then show ?thesis
    unfolding hex_digit_def n by (simp add: list_all_iff)
qed

lemma unescape_char_simps:
  "c \<noteq> CHR 0x5C \<Longrightarrow> unescape_char (c # r) = (c, r)"
  "unescape_char (CHR 0x5C # CHR 0x22 # r) = (CHR 0x22, r)"
  "unescape_char (CHR 0x5C # CHR 0x5C # r) = (CHR 0x5C, r)"
  "unescape_char (CHR 0x5C # CHR ''b'' # r) = (CHR 0x08, r)"
  "unescape_char (CHR 0x5C # CHR ''f'' # r) = (CHR 0x0C, r)"
  "unescape_char (CHR 0x5C # CHR ''n'' # r) = (CHR 0x0A, r)"
  "unescape_char (CHR 0x5C # CHR ''r'' # r) = (CHR 0x0D, r)"
  "unescape_char (CHR 0x5C # CHR ''t'' # r) = (CHR 0x09, r)"
  "unescape_char (CHR 0x5C # CHR ''u'' # a # b # x # y # r) =
     (char_of (16 * hex_value x + hex_value y), r)"
  by (simp_all add: unescape_char_def)

lemma unescape_escape_char: "unescape_char (escape_char c @ r) = (c, r)"
  by (simp add: escape_char_def append_escaped_char_def append_control_escape_def
      unescape_char_simps hex_value_hex_digit drop_bit_eq_div)

lemma escape_char_nonempty: "escape_char c \<noteq> []"
  by (simp add: escape_char_def append_escaped_char_def append_control_escape_def)

lemma escape_char_hd: "hd (escape_char c) \<noteq> CHR 0x22"
  by (simp add: escape_char_def append_escaped_char_def append_control_escape_def)

lemma escape_prefix_free:
  "escape s @ CHR 0x22 # r = escape t @ CHR 0x22 # r' \<Longrightarrow> s = t \<and> r = r'"
proof (induction s arbitrary: t)
  case Nil
  then show ?case
    using escape_char_hd [of "hd t"] escape_char_nonempty [of "hd t"]
    by (cases t) (auto simp: escape_def hd_append dest!: arg_cong [of _ _ hd])
next
  case (Cons c s)
  show ?case
  proof (cases t)
    case Nil
    then show ?thesis
      using Cons.prems escape_char_hd [of c] escape_char_nonempty [of c]
      by (auto simp: escape_def hd_append dest!: arg_cong [of _ _ hd])
  next
    case (Cons d t')
    have "escape_char c @ escape s @ CHR 0x22 # r = escape_char d @ escape t' @ CHR 0x22 # r'"
      using Cons.prems Cons by (simp add: escape_def)
    from arg_cong [OF this, of unescape_char]
    have "c = d" "escape s @ CHR 0x22 # r = escape t' @ CHR 0x22 # r'"
      by (simp_all add: unescape_escape_char)
    then show ?thesis
      using Cons.IH [of t'] Cons by simp
  qed
qed

definition int_char :: "char \<Rightarrow> bool" where
  "int_char c \<longleftrightarrow> is_digit c \<or> c = CHR ''-''"

definition delimited :: "byte_string \<Rightarrow> bool" where
  "delimited r \<longleftrightarrow> r = [] \<or> \<not> int_char (hd r)"

lemma show_int_chars: "list_all int_char (show_int i)" "show_int i \<noteq> []"
  using show_nat_digits [of "nat \<bar>i\<bar>"] show_nat_nonempty
  by (auto simp: show_int_def int_char_def list_all_iff)

lemma show_int_prefix_free:
  assumes "show_int i @ r = show_int j @ r'" "delimited r" "delimited r'"
  shows "i = j \<and> r = r'"
proof -
  have tw: "takeWhile int_char (show_int k @ q) = show_int k" if "delimited q" for k q
    using that show_int_chars(1) [of k]
    by (cases q) (auto simp: delimited_def list_all_iff)
  have "show_int i = show_int j"
    using tw [OF assms(2), of i] tw [OF assms(3), of j] assms(1) by simp
  then show ?thesis
    using assms(1) show_int_inject by auto
qed

section \<open>The printer on sorted trees\<close>

text \<open>
  \<open>canonical_form\<close> sorts the members of every object; \<open>print_value\<close> writes a tree as it stands. On
  the trees the strict serializer accepts, its output is the print of the canonical form.
\<close>

primrec canonical_form :: "json \<Rightarrow> json" where
  "canonical_form JNull = JNull"
| "canonical_form (JBool b) = JBool b"
| "canonical_form (JInt i) = JInt i"
| "canonical_form (JDouble d) = JDouble d"
| "canonical_form (JString s) = JString s"
| "canonical_form (JArray vs) = JArray (map canonical_form vs)"
| "canonical_form (JObject ms) = JObject (sort_key fst (map (map_prod id canonical_form) ms))"
| "canonical_form (JRawNumber t) = JRawNumber t"

fun print_value :: "json \<Rightarrow> byte_string"
  and print_items :: "json list \<Rightarrow> byte_string"
  and print_members :: "json_object \<Rightarrow> byte_string"
where
  "print_value JNull = ''null''"
| "print_value (JBool b) = (if b then ''true'' else ''false'')"
| "print_value (JInt i) = show_int i"
| "print_value (JDouble d) = []"
| "print_value (JString s) = CHR 0x22 # escape s @ [CHR 0x22]"
| "print_value (JArray []) = ''[]''"
| "print_value (JArray (v # vs)) = ''['' @ print_value v @ print_items vs"
| "print_value (JObject []) = ''{}''"
| "print_value (JObject ((k, v) # ms)) =
     ''{'' @ CHR 0x22 # escape k @ [CHR 0x22] @ '':'' @ print_value v @ print_members ms"
| "print_value (JRawNumber t) = []"
| "print_items [] = '']''"
| "print_items (v # vs) = '','' @ print_value v @ print_items vs"
| "print_members [] = ''}''"
| "print_members ((k, v) # ms) =
     '','' @ CHR 0x22 # escape k @ [CHR 0x22] @ '':'' @ print_value v @ print_members ms"

text \<open>The trees the strict serializer accepts.\<close>

fun canonical_ok :: "json \<Rightarrow> bool" where
  "canonical_ok (JDouble d) = False"
| "canonical_ok (JRawNumber t) = False"
| "canonical_ok (JString s) = utf8_is_valid s"
| "canonical_ok (JArray vs) = (\<forall>v \<in> set vs. canonical_ok v)"
| "canonical_ok (JObject ms) =
     (distinct (map fst ms) \<and> (\<forall>(k, v) \<in> set ms. utf8_is_valid k \<and> canonical_ok v))"
| "canonical_ok _ = True"

section \<open>Prefix freedom\<close>

lemma print_value_hd:
  "canonical_ok v \<Longrightarrow> print_value v \<noteq> [] \<and> hd (print_value v) \<noteq> CHR '']''"
proof (cases v)
  case (JInt i)
  then show ?thesis
    using show_int_chars [of i]
    by (cases "show_int i") (auto simp: int_char_def is_digit_byte)
next
  case (JArray vs)
  then show ?thesis by (cases vs) auto
next
  case (JObject ms)
  then show ?thesis by (cases ms rule: list.exhaust) auto
qed auto

lemma delimited_print_items: "delimited (print_items vs @ r)"
  by (cases vs) (auto simp: delimited_def int_char_def is_digit_byte)

lemma delimited_print_members: "delimited (print_members ms @ r)"
  by (cases ms rule: list.exhaust) (auto simp: delimited_def int_char_def is_digit_byte)

definition prefix_free :: "json \<Rightarrow> bool" where
  "prefix_free v \<longleftrightarrow> (\<forall>w r r'. canonical_ok w \<longrightarrow> print_value v @ r = print_value w @ r' \<longrightarrow>
      delimited r \<longrightarrow> delimited r' \<longrightarrow> v = w \<and> r = r')"

lemma prefix_freeD:
  "\<lbrakk>prefix_free v; canonical_ok w; print_value v @ r = print_value w @ r'; delimited r; delimited r'\<rbrakk>
    \<Longrightarrow> v = w \<and> r = r'"
  unfolding prefix_free_def by blast

lemma print_items_prefix_free:
  assumes "\<forall>v \<in> set vs. prefix_free v" "\<forall>v \<in> set ws. canonical_ok v"
    "print_items vs @ r = print_items ws @ r'"
  shows "vs = ws \<and> r = r'"
  using assms
proof (induction vs arbitrary: ws)
  case Nil
  then show ?case by (cases ws) auto
next
  case (Cons v vs)
  then obtain w ws' where ws: "ws = w # ws'"
    by (cases ws) auto
  have "print_value v @ print_items vs @ r = print_value w @ print_items ws' @ r'"
    using Cons.prems(3) ws by simp
  then have "v = w \<and> print_items vs @ r = print_items ws' @ r'"
    using Cons.prems(1,2) ws delimited_print_items by (auto dest: prefix_freeD)
  then show ?case
    using Cons.IH [of ws'] Cons.prems(1,2) ws by simp
qed

lemma print_members_prefix_free:
  assumes "\<forall>(k, v) \<in> set ms. prefix_free v" "\<forall>(k, v) \<in> set ns. canonical_ok v"
    "print_members ms @ r = print_members ns @ r'"
  shows "ms = ns \<and> r = r'"
  using assms
proof (induction ms arbitrary: ns)
  case Nil
  then show ?case by (cases ns rule: list.exhaust) auto
next
  case (Cons m ms)
  obtain k v where m: "m = (k, v)"
    by (cases m)
  obtain l w ns' where ns: "ns = (l, w) # ns'"
    using Cons.prems(3) m by (cases ns rule: list.exhaust) auto
  have "escape k @ CHR 0x22 # CHR '':'' # print_value v @ print_members ms @ r =
        escape l @ CHR 0x22 # CHR '':'' # print_value w @ print_members ns' @ r'"
    using Cons.prems(3) ns m by simp
  then have "k = l" and "print_value v @ print_members ms @ r = print_value w @ print_members ns' @ r'"
    by (auto dest!: escape_prefix_free)
  moreover from this have "v = w \<and> print_members ms @ r = print_members ns' @ r'"
    using Cons.prems(1,2) ns m delimited_print_members by (auto dest: prefix_freeD)
  ultimately show ?case
    using Cons.IH [of ns'] Cons.prems(1,2) ns m by simp
qed

lemma print_value_first:
  assumes "canonical_ok w"
  shows "int_char (hd (print_value w)) \<longleftrightarrow> (\<exists>j. w = JInt j)"
    and "hd (print_value w) = CHR ''['' \<longleftrightarrow> (\<exists>ws. w = JArray ws)"
    and "hd (print_value w) = CHR ''{'' \<longleftrightarrow> (\<exists>ns. w = JObject ns)"
    and "hd (print_value w) = CHR 0x22 \<longleftrightarrow> (\<exists>t. w = JString t)"
    and "hd (print_value w) = CHR ''n'' \<longleftrightarrow> w = JNull"
    and "hd (print_value w) = CHR ''t'' \<longleftrightarrow> w = JBool True"
    and "hd (print_value w) = CHR ''f'' \<longleftrightarrow> w = JBool False"
proof -
  have i: "int_char (hd (show_int i))" for i
    using show_int_chars [of i] by (cases "show_int i") auto
  have "\<forall>c \<in> set ''[{ntf''. \<not> int_char c" "\<not> int_char (CHR 0x22)"
    by (simp_all add: int_char_def is_digit_byte)
  then have j: "hd (show_int i) \<noteq> CHR ''[''" "hd (show_int i) \<noteq> CHR ''{''"
    "hd (show_int i) \<noteq> CHR 0x22" "hd (show_int i) \<noteq> CHR ''n''" "hd (show_int i) \<noteq> CHR ''t''"
    "hd (show_int i) \<noteq> CHR ''f''" for i
    using i [of i] by auto
  show "int_char (hd (print_value w)) \<longleftrightarrow> (\<exists>j. w = JInt j)"
    using assms i by (cases w rule: print_value.cases) (simp_all add: int_char_def is_digit_byte)
  show "hd (print_value w) = CHR ''['' \<longleftrightarrow> (\<exists>ws. w = JArray ws)"
    "hd (print_value w) = CHR ''{'' \<longleftrightarrow> (\<exists>ns. w = JObject ns)"
    "hd (print_value w) = CHR 0x22 \<longleftrightarrow> (\<exists>t. w = JString t)"
    "hd (print_value w) = CHR ''n'' \<longleftrightarrow> w = JNull"
    "hd (print_value w) = CHR ''t'' \<longleftrightarrow> w = JBool True"
    "hd (print_value w) = CHR ''f'' \<longleftrightarrow> w = JBool False"
    using assms j by (cases w rule: print_value.cases; simp)+
qed

lemma prefix_freeI:
  assumes "print_value v \<noteq> []"
    and "\<And>w r r'. \<lbrakk>canonical_ok w; print_value v @ r = print_value w @ r'; delimited r; delimited r';
          hd (print_value w) = hd (print_value v)\<rbrakk> \<Longrightarrow> v = w \<and> r = r'"
  shows "prefix_free v"
  unfolding prefix_free_def
proof (intro allI impI)
  fix w r r'
  assume w: "canonical_ok w" "print_value v @ r = print_value w @ r'" "delimited r" "delimited r'"
  moreover have "hd (print_value w) = hd (print_value v)"
    using arg_cong [OF w(2), of hd] assms(1) print_value_hd [OF w(1)] by (simp add: hd_append)
  ultimately show "v = w \<and> r = r'"
    by (rule assms(2))
qed

lemma print_array_prefix_free:
  assumes "\<forall>v \<in> set vs. canonical_ok v \<and> prefix_free v"
  shows "prefix_free (JArray vs)"
proof (rule prefix_freeI)
  fix w r r'
  assume w: "canonical_ok w" "print_value (JArray vs) @ r = print_value w @ r'"
    "hd (print_value w) = hd (print_value (JArray vs))"
  have "hd (print_value (JArray vs)) = CHR ''[''"
    by (cases vs) simp_all
  then obtain ws where ws: "w = JArray ws"
    using w print_value_first(2) [of w] by auto
  show "JArray vs = w \<and> r = r'"
  proof (cases "vs = [] \<or> ws = []")
    case True
    then show ?thesis
      using w(1,2) ws assms print_value_hd [of "hd vs"] print_value_hd [of "hd ws"]
      by (cases vs; cases ws) (auto simp: hd_append dest!: arg_cong [of _ _ hd])
  next
    case False
    then obtain v vs' u us where v: "vs = v # vs'" "ws = u # us"
      by (meson list.exhaust)
    then have "print_value v @ print_items vs' @ r = print_value u @ print_items us @ r'"
      using w(2) ws by simp
    then have "v = u \<and> print_items vs' @ r = print_items us @ r'"
      using assms w(1) ws v delimited_print_items by (intro prefix_freeD) simp_all
    then show ?thesis
      using print_items_prefix_free [of vs' us r r'] assms w(1) ws v by simp
  qed
qed (cases vs, simp_all)

lemma print_object_prefix_free:
  assumes "\<forall>(k, v) \<in> set ms. prefix_free v"
  shows "prefix_free (JObject ms)"
proof (rule prefix_freeI)
  fix w r r'
  assume w: "canonical_ok w" "print_value (JObject ms) @ r = print_value w @ r'"
    "hd (print_value w) = hd (print_value (JObject ms))"
  have "hd (print_value (JObject ms)) = CHR ''{''"
    by (cases ms rule: list.exhaust) (auto simp: split_paired_all)
  then obtain ns where ns: "w = JObject ns"
    using w print_value_first(3) [of w] by auto
  show "JObject ms = w \<and> r = r'"
  proof (cases "ms = [] \<or> ns = []")
    case True
    then show ?thesis
      using w(2) ns by (cases ms; cases ns) auto
  next
    case False
    then obtain k v ms' l u ns' where v: "ms = (k, v) # ms'" "ns = (l, u) # ns'"
      by (metis list.exhaust prod.exhaust)
    then have "escape k @ CHR 0x22 # CHR '':'' # print_value v @ print_members ms' @ r =
        escape l @ CHR 0x22 # CHR '':'' # print_value u @ print_members ns' @ r'"
      using w(2) ns by simp
    then have k: "k = l"
      and "print_value v @ print_members ms' @ r = print_value u @ print_members ns' @ r'"
      by (auto dest!: escape_prefix_free)
    then have "v = u \<and> print_members ms' @ r = print_members ns' @ r'"
      using assms w(1) ns v delimited_print_members by (intro prefix_freeD) simp_all
    moreover have "\<forall>(k, v) \<in> set ns'. canonical_ok v"
      using w(1) ns v by auto
    ultimately show ?thesis
      using print_members_prefix_free [of ms' ns' r r'] assms ns v k by simp
  qed
qed (cases ms rule: list.exhaust, auto)

lemma print_value_prefix_free: "canonical_ok v \<Longrightarrow> prefix_free v"
proof (induction v)
  case (JInt i)
  show ?case
  proof (rule prefix_freeI)
    fix w r r'
    assume w: "canonical_ok w" "print_value (JInt i) @ r = print_value w @ r'" "delimited r"
      "delimited r'" "hd (print_value w) = hd (print_value (JInt i))"
    then obtain j where "w = JInt j"
      using print_value_first(1) [of w] print_value_first(1) [of "JInt i"] by auto
    then show "JInt i = w \<and> r = r'"
      using w show_int_prefix_free by auto
  qed (simp add: show_int_chars)
next
  case (JString s)
  show ?case
  proof (rule prefix_freeI)
    fix w r r'
    assume w: "canonical_ok w" "print_value (JString s) @ r = print_value w @ r'"
      "hd (print_value w) = hd (print_value (JString s))"
    then obtain t where "w = JString t"
      using print_value_first(4) [of w] by auto
    then show "JString s = w \<and> r = r'"
      using w(2) escape_prefix_free [of s r t r'] by auto
  qed simp
next
  case (JArray vs)
  then show ?case by (auto intro: print_array_prefix_free)
next
  case (JObject ms)
  then show ?case by (force intro!: print_object_prefix_free)
next
  case JNull
  show ?case
  proof (rule prefix_freeI)
    fix w r r'
    assume w: "canonical_ok w" "print_value JNull @ r = print_value w @ r'"
      "hd (print_value w) = hd (print_value JNull)"
    then show "JNull = w \<and> r = r'"
      using print_value_first(5) [of w] by auto
  qed simp
next
  case (JBool b)
  show ?case
  proof (rule prefix_freeI)
    fix w r r'
    assume w: "canonical_ok w" "print_value (JBool b) @ r = print_value w @ r'"
      "hd (print_value w) = hd (print_value (JBool b))"
    then show "JBool b = w \<and> r = r'"
      using print_value_first(6,7) [of w] by (cases b) auto
  qed simp
qed auto

lemma insort_key_map_prod:
  "insort_key fst (map_prod id f x) (map (map_prod id f) ys) = map (map_prod id f) (insort_key fst x ys)"
  by (induction ys) auto

lemma sort_key_map_prod:
  "sort_key fst (map (map_prod id f) xs) = map (map_prod id f) (sort_key fst xs)"
  by (induction xs) (simp_all add: insort_key_map_prod [unfolded id_def])

lemma distinct_map_fst_sort_key: "distinct (map fst (sort_key f xs)) \<longleftrightarrow> distinct (map fst xs)"
  by (rule mset_eq_imp_distinct_iff) simp

lemma has_duplicate_keys_from_iff:
  "has_duplicate_keys_from seen ms \<longleftrightarrow> \<not> distinct (map fst ms) \<or> set (map fst ms) \<inter> seen \<noteq> {}"
  by (induction seen ms rule: has_duplicate_keys_from.induct) auto

lemma object_has_duplicate_keys_iff [json_simps]:
  "object_has_duplicate_keys ms \<longleftrightarrow> \<not> distinct (map fst ms)"
  by (simp add: object_has_duplicate_keys_def has_duplicate_keys_from_iff)

lemma append_items_print:
  "append_items out False (map print_value vs) @ '']'' = out @ print_items vs"
  by (induction vs arbitrary: out) auto

lemma append_members_print:
  "append_members out False (map (map_prod id print_value) ms) @ ''}'' = out @ print_members ms"
  by (induction ms arbitrary: out) (auto simp: json_simps)

lemma print_array: 
  "print_value (JArray vs) = append_items ''['' True (map print_value vs) @ '']''"
  by (cases vs) (simp_all add: append_items_print)

lemma print_object: 
  "print_value (JObject ms) = append_members ''{'' True (map (map_prod id print_value) ms) @ ''}''"
  by (cases ms rule: list.exhaust) (auto simp: append_members_print json_simps)

section \<open>The strict serializer prints the canonical form\<close>

lemma serialize_strict_ok:
  "canonical_ok v \<Longrightarrow> serialize_value lib True v = Inr (print_value (canonical_form v))"
  "(\<forall>v \<in> set vs. canonical_ok v) \<Longrightarrow>
     serialize_items lib True vs = Inr (map (print_value \<circ> canonical_form) vs)"
  "(\<forall>(k, v) \<in> set ms. utf8_is_valid k \<and> canonical_ok v) \<Longrightarrow>
     serialize_members lib True ms = Inr (map (map_prod id (print_value \<circ> canonical_form)) ms)"
proof (induction lib True v and lib True vs and lib True ms
    rule: serialize_value_serialize_items_serialize_members.induct)
  case (7 lib vs)
  then show ?case
    by (simp add: print_array)
next
  case (8 lib ms)
  have "sort_key fst (map (map_prod id (print_value \<circ> canonical_form)) ms) =
        map (map_prod id print_value) (sort_key fst (map (map_prod id canonical_form) ms))"
  proof -
    have "map (map_prod id (print_value \<circ> canonical_form)) ms =
          map (map_prod id print_value) (map (map_prod id canonical_form) ms)"
      by auto
    then show ?thesis
      by (simp only: sort_key_map_prod)
  qed
  then show ?case
    using 8 by (simp add: print_object object_has_duplicate_keys_iff)
qed (auto simp: string_is_valid_for_json_def append_escaped_string_eq)

lemma serialize_strict_fails:
  "\<not> canonical_ok v \<Longrightarrow> \<exists>e. serialize_value lib True v = Inl e"
  "\<not> (\<forall>v \<in> set vs. canonical_ok v) \<Longrightarrow> \<exists>e. serialize_items lib True vs = Inl e"
  "\<not> (\<forall>(k, v) \<in> set ms. utf8_is_valid k \<and> canonical_ok v) \<Longrightarrow>
     \<exists>e. serialize_members lib True ms = Inl e"
proof (induction lib True v and lib True vs and lib True ms
    rule: serialize_value_serialize_items_serialize_members.induct)
  case (7 lib vs)
  then show ?case by auto
next
  case (8 lib ms)
  then show ?case by (auto simp: object_has_duplicate_keys_iff)
next
  case (10 lib v vs)
  then show ?case by (cases "serialize_value lib True v") (auto split: sum.splits, blast)
next
  case (12 lib k v ms)
  then show ?case by (auto simp: string_is_valid_for_json_def split: sum.splits) blast+
qed (auto simp: string_is_valid_for_json_def)

lemma serialize_strict_iff:
  "serialize_canonical_strict v = Inr s \<longleftrightarrow> canonical_ok v \<and> s = print_value (canonical_form v)"
  using serialize_strict_ok(1) [of v no_c_library] serialize_strict_fails(1) [of v no_c_library]
  by (cases "canonical_ok v") (auto simp: serialize_canonical_strict_def)

lemma canonical_ok_canonical_form: "canonical_ok v \<Longrightarrow> canonical_ok (canonical_form v)"
proof (induction v)
  case (JObject ms)
  have "distinct (map fst (sort_key fst (map (map_prod id canonical_form) ms)))"
    using JObject.prems by (simp add: distinct_map_fst_sort_key)
  then show ?case
    using JObject by force
qed auto

lemma print_value_inject:
  assumes "canonical_ok x" "canonical_ok y" "print_value x = print_value y"
  shows "x = y"
  using prefix_freeD [OF print_value_prefix_free [OF assms(1)] assms(2), of "[]" "[]"] assms(3)
  by (simp add: delimited_def)

lemma serialize_strict_inject:
  "serialize_canonical_strict v = Inr s \<Longrightarrow> serialize_canonical_strict w = Inr s \<Longrightarrow>
     canonical_form v = canonical_form w"
  using print_value_inject canonical_ok_canonical_form by (auto simp: serialize_strict_iff)

section \<open>Integer tokens\<close>

definition plain_digits :: "byte_string \<Rightarrow> bool" where
  "plain_digits ds \<longleftrightarrow> ds \<noteq> [] \<and> hd ds \<noteq> CHR ''0'' \<and> list_all is_digit ds"

lemma one_to_nine: "CHR ''1'' \<le> c \<and> c \<le> CHR ''9'' \<longleftrightarrow> is_digit c \<and> c \<noteq> CHR ''0''"
  by (auto simp: char_le_byte is_digit_byte char_eq_byte)

lemma canonical_token_cases:
  "is_canonical_int64_token t \<longleftrightarrow>
     t = ''0'' \<or> plain_digits t \<or> (\<exists>ds. t = CHR ''-'' # ds \<and> plain_digits ds)"
proof (cases t)
  case (Cons c rest)
  have minus: "\<not> is_digit (CHR ''-'')"
    by (simp add: is_digit_byte)
  have zero: "is_digit (CHR ''0'')"
    by (simp add: is_digit_byte)
  show ?thesis
  proof (cases "c = CHR ''-''")
    case True
    then show ?thesis
      using Cons minus
      by (cases rest) (auto simp: is_canonical_int64_token_def plain_digits_def one_to_nine)
  next
    case False
    then show ?thesis
      using Cons zero by (auto simp: is_canonical_int64_token_def plain_digits_def one_to_nine)
  qed
qed (simp add: is_canonical_int64_token_def plain_digits_def)

lemma plain_digits_show_nat: "plain_digits ds \<longleftrightarrow> (\<exists>n > 0. ds = show_nat n)"
proof
  assume ds: "plain_digits ds"
  then have eq: "show_nat (digits_value ds) = ds"
    by (simp add: show_nat_digits_value plain_digits_def list_all_iff)
  moreover have "digits_value ds \<noteq> 0"
    using eq ds show_nat_0 by (metis list.sel(1) plain_digits_def)
  ultimately show "\<exists>n > 0. ds = show_nat n"
    by (metis gr0I)
qed (auto simp: plain_digits_def list_all_iff show_nat_hd_not_zero show_nat_digits)

lemma canonical_token_show_int:
  "is_canonical_int64_token t \<longleftrightarrow> (\<exists>i. t = show_int i)"
proof
  assume "is_canonical_int64_token t"
  then consider "t = ''0''" | n where "t = show_nat n"
    | n where "n > 0" "t = CHR ''-'' # show_nat n"
    by (auto simp: canonical_token_cases plain_digits_show_nat)
  then show "\<exists>i. t = show_int i"
  proof cases
    case 1
    then have "t = show_int 0" by (simp add: show_int_def show_nat_0)
    then show ?thesis ..
  next
    case 2
    then have "t = show_int (int n)" by (simp add: show_int_def)
    then show ?thesis ..
  next
    case 3
    then have "t = show_int (- int n)" by (simp add: show_int_def)
    then show ?thesis ..
  qed
next
  assume "\<exists>i. t = show_int i"
  then obtain i where i: "t = show_int i" ..
  then show "is_canonical_int64_token t"
    by (cases "i = 0"; cases "0 < i")
      (auto simp: canonical_token_cases plain_digits_show_nat show_int_def show_nat_0)
qed

lemma from_chars_show_int:
  "from_chars_int64 (show_int i) =
     (if i < - (2 ^ 63) \<or> 2 ^ 63 \<le> i then (Errc_result_out_of_range, length (show_int i), 0)
      else (Errc_ok, length (show_int i), i))"
proof -
  have tw: "takeWhile is_digit (show_nat n) = show_nat n" for n
    using show_nat_digits by simp
  have hd: "hd (show_nat n) \<noteq> CHR ''-''" for n
    using show_nat_digits [of n] show_nat_nonempty [of n] by (cases "show_nat n") (auto simp: is_digit_byte)
  show ?thesis
    by (cases "i < 0") (simp_all add: from_chars_int64_def show_int_def tw hd Let_def)
qed

lemma show_int_no_float_chars: "c \<in> set (show_int i) \<Longrightarrow> c \<noteq> CHR ''.'' \<and> c \<noteq> CHR ''e'' \<and> c \<noteq> CHR ''E''"
  using show_nat_digits [of "nat i"] show_nat_digits [of "nat (- i)"]
  by (auto simp: show_int_def is_digit_byte split: if_splits)

lemma raw_number_as_int64_iff:
  "raw_number_as_int64 t = Inr v \<longleftrightarrow>
     (\<exists>i. v = JInt i \<and> t = show_int i \<and> \<bar>i\<bar> \<le> 9007199254740991)"
proof (cases "is_canonical_int64_token t")
  case True
  then obtain i where i: "t = show_int i"
    by (auto simp: canonical_token_show_int)
  then show ?thesis
    using True show_int_no_float_chars [of _ i]
    by (auto simp: raw_number_as_int64_def from_chars_show_int max_safe_integer_def min_safe_integer_def)
next
  case False
  then show ?thesis
    by (auto simp: raw_number_as_int64_def canonical_token_show_int)
qed

lemma map_sum_Inr: "map_sum f g s = Inr y \<longleftrightarrow> (\<exists>x. s = Inr x \<and> y = g x)"
  by (cases s) auto

section \<open>Parsed trees are within every limit\<close>

text \<open>
  What a parsed tree satisfies: at most \<open>n\<close> levels, at most 65536 members per object, no repeated
  key and integers that a double represents exactly.
\<close>

fun within_limits :: "nat \<Rightarrow> json \<Rightarrow> bool" where
  "within_limits n (JInt i) = (\<bar>i\<bar> \<le> 9007199254740991)"
| "within_limits 0 (JArray vs) = (vs = [])"
| "within_limits (Suc n) (JArray vs) = (\<forall>v \<in> set vs. within_limits n v)"
| "within_limits 0 (JObject ms) = (ms = [])"
| "within_limits (Suc n) (JObject ms) =
     (length ms \<le> max_object_members \<and> distinct (map fst ms) \<and>
      (\<forall>(k, v) \<in> set ms. within_limits n v))"
| "within_limits n _ = True"

lemma within_limits_array:
  assumes "\<forall>w \<in> set ws. d + 1 \<le> max_depth \<and> within_limits (max_depth - (d + 1)) w"
  shows "within_limits (max_depth - d) (JArray ws)"
proof (cases "max_depth - d")
  case 0
  then have "ws = []"
    using assms by (cases ws) auto
  then show ?thesis
    using 0 by simp
next
  case (Suc n)
  then have "max_depth - (d + 1) = n"
    by simp
  then show ?thesis
    using assms Suc by simp
qed

lemma within_limits_object:
  assumes "\<forall>(k, w) \<in> set ws. d + 1 \<le> max_depth \<and> within_limits (max_depth - (d + 1)) w"
    and "length ws \<le> max_object_members" "distinct (map fst ws)"
  shows "within_limits (max_depth - d) (JObject ws)"
proof (cases "max_depth - d")
  case 0
  then have "ws = []"
    using assms by (cases ws rule: list.exhaust) auto
  then show ?thesis
    using 0 by simp
next
  case (Suc n)
  then have "max_depth - (d + 1) = n"
    by simp
  then show ?thesis
    using assms Suc by auto
qed

lemma yyjson_integer_safe:
  "yyjson_integer_in_canonical_range (Yy_uint u) \<Longrightarrow> \<bar>yyjson_number_as_int64 (Yy_uint u)\<bar> \<le> 9007199254740991"
  using signed_take_bit_int_eq_self [of 63 "uint u"] uint_ge_0 [of u] by (simp add: sint_uint)

lemma convert_leaf:
  assumes "d \<le> max_depth"
  shows "convert_yyjson_value pn d Yy_null = Inr JNull"
    and "convert_yyjson_value pn d (Yy_bool b) = Inr (JBool b)"
    and "convert_yyjson_value pn d (Yy_str s) = Inr (JString s)"
    and "convert_yyjson_value pn d (Yy_real x) = Inr (JDouble x)"
    and "convert_yyjson_value pn d (Yy_sint i) =
      (if yyjson_integer_in_canonical_range (Yy_sint i) then Inr (JInt i) else Inl Integer_out_of_range)"
    and "convert_yyjson_value pn d Yy_unknown = Inl Unexpected_token"
  using assms
  by (simp_all add: convert_yyjson_value.simps [of pn d Yy_null]
      convert_yyjson_value.simps [of pn d "Yy_bool b"] convert_yyjson_value.simps [of pn d "Yy_str s"]
      convert_yyjson_value.simps [of pn d "Yy_real x"] convert_yyjson_value.simps [of pn d "Yy_sint i"]
      convert_yyjson_value.simps [of pn d Yy_unknown])

lemma convert_within_limits:
  "convert_yyjson_value pn d y = Inr v \<Longrightarrow> d \<le> max_depth \<and> within_limits (max_depth - d) v"
  "convert_items pn d acc ys = Inr vs \<Longrightarrow>
     \<exists>ws. vs = acc @ ws \<and> length ws = length ys \<and>
       (\<forall>w \<in> set ws. d + 1 \<le> max_depth \<and> within_limits (max_depth - (d + 1)) w)"
  "convert_members pn d seen acc2 ms = Inr os \<Longrightarrow>
     \<exists>ws. os = acc2 @ ws \<and> map fst ws = map fst ms \<and> distinct (map fst ms) \<and>
       set (map fst ms) \<inter> seen = {} \<and>
       (\<forall>(k, w) \<in> set ws. d + 1 \<le> max_depth \<and> within_limits (max_depth - (d + 1)) w)"
proof (induction pn d y and pn d acc ys and pn d seen acc2 ms arbitrary: v and vs and os
    rule: convert_yyjson_value_convert_items_convert_members.induct)
  case (1 pn d y)
  then have d: "d \<le> max_depth"
    by (auto simp: convert_yyjson_value.simps [of pn d y] split: if_splits)
  show ?case
  proof (cases y)
    case (Yy_raw raw)
    then show ?thesis
      using 1(3) d by (auto simp: convert_yyjson_value.simps [of pn d "Yy_raw raw"] raw_number_as_int64_iff
          split: sum.splits if_splits)
  next
    case (Yy_uint u)
    then show ?thesis
      using 1(3) d yyjson_integer_safe [of u]
      by (auto simp: convert_yyjson_value.simps [of pn d "Yy_uint u"] split: if_splits)
  next
    case (Yy_arr ys)
    then obtain ws where "v = JArray ws" "convert_items pn d [] ys = Inr ws"
      using 1(3) d by (auto simp: convert_yyjson_value.simps [of pn d "Yy_arr ys"] map_sum_Inr)
    then show ?thesis
      using 1(1) [of ys ws] Yy_arr d by (auto intro: within_limits_array)
  next
    case (Yy_obj ms)
    then obtain os where "v = JObject os" "convert_members pn d {} [] ms = Inr os"
      and "length ms \<le> max_object_members"
      using 1(3) d by (auto simp: convert_yyjson_value.simps [of pn d "Yy_obj ms"] map_sum_Inr split: if_splits)
    then show ?thesis
      using 1(2) [of ms os] Yy_obj d
      by (metis append_Nil length_map not_le within_limits_object)
  qed (use 1(3) d in \<open>auto simp: convert_leaf split: if_splits\<close>)
next
  case (3 pn d acc y ys)
  then show ?case
    by (auto split: sum.splits) (metis length_Cons set_ConsD)
next
  case (5 pn d seen acc k y ms)
  from 5(3) obtain x where x: "k \<notin> seen" "convert_yyjson_value pn (d + 1) y = Inr x"
    "convert_members pn d (insert k seen) (acc @ [(k, x)]) ms = Inr os"
    by (auto split: if_splits sum.splits)
  obtain ws where "os = (acc @ [(k, x)]) @ ws" "map fst ws = map fst ms" "distinct (map fst ms)"
    "set (map fst ms) \<inter> insert k seen = {}"
    "\<forall>(k, w) \<in> set ws. d + 1 \<le> max_depth \<and> within_limits (max_depth - (d + 1)) w"
    using 5(2) [OF x] by blast
  then show ?case
    using 5(1) [OF x(1,2)] x(1) by (intro exI [of _ "(k, x) # ws"]) auto
qed auto

text \<open>
  What yyjson documents of a read with \<open>YYJSON_READ_NUMBER_AS_RAW\<close>: strings are valid UTF-8 (the
  reader validates them by default) and every number is a raw node.
\<close>

fun raw_number_document :: "yyjson_value \<Rightarrow> bool" where
  "raw_number_document (Yy_uint u) = False"
| "raw_number_document (Yy_sint i) = False"
| "raw_number_document (Yy_real d) = False"
| "raw_number_document (Yy_str s) = utf8_is_valid s"
| "raw_number_document (Yy_arr ys) = (\<forall>y \<in> set ys. raw_number_document y)"
| "raw_number_document (Yy_obj ms) = (\<forall>(k, y) \<in> set ms. utf8_is_valid k \<and> raw_number_document y)"
| "raw_number_document _ = True"

lemma convert_canonical_ok:
  "convert_yyjson_value False d y = Inr v \<Longrightarrow> raw_number_document y \<Longrightarrow> canonical_ok v"
  "convert_items False d acc ys = Inr vs \<Longrightarrow> \<forall>y \<in> set ys. raw_number_document y \<Longrightarrow>
     \<forall>v \<in> set acc. canonical_ok v \<Longrightarrow> \<forall>v \<in> set vs. canonical_ok v"
  "convert_members False d seen acc2 ms = Inr os \<Longrightarrow>
     \<forall>(k, y) \<in> set ms. utf8_is_valid k \<and> raw_number_document y \<Longrightarrow>
     \<forall>(k, v) \<in> set acc2. utf8_is_valid k \<and> canonical_ok v \<Longrightarrow>
     \<forall>(k, v) \<in> set os. utf8_is_valid k \<and> canonical_ok v"
proof (induction False d y and False d acc ys and False d seen acc2 ms arbitrary: v and vs and os
    rule: convert_yyjson_value_convert_items_convert_members.induct)
  case (1 d y)
  then have d: "d \<le> max_depth"
    by (auto simp: convert_yyjson_value.simps [of False d y] split: if_splits)
  show ?case
  proof (cases y)
    case (Yy_raw raw)
    then show ?thesis
      using 1(3) d by (auto simp: convert_yyjson_value.simps [of False d "Yy_raw raw"]
          raw_number_as_int64_iff split: sum.splits)
  next
    case (Yy_arr ys)
    then obtain ws where "v = JArray ws" "convert_items False d [] ys = Inr ws"
      using 1(3) d by (auto simp: convert_yyjson_value.simps [of False d "Yy_arr ys"] map_sum_Inr)
    then show ?thesis
      using 1(1) [of ys ws] 1(4) Yy_arr d by simp
  next
    case (Yy_obj ms)
    then obtain os where os: "v = JObject os" "convert_members False d {} [] ms = Inr os"
      "length ms \<le> max_object_members"
      using 1(3) d by (auto simp: convert_yyjson_value.simps [of False d "Yy_obj ms"] map_sum_Inr
          split: if_splits)
    have "distinct (map fst os)"
      using convert_within_limits(3) [OF os(2)] by force
    then show ?thesis
      using 1(2) [of ms os] 1(4) os Yy_obj d by simp
  next
    case (Yy_real x)
    then show ?thesis using 1(4) by simp
  next
    case (Yy_uint x)
    then show ?thesis using 1(4) by simp
  next
    case (Yy_sint x)
    then show ?thesis using 1(4) by simp
  qed (use 1(3,4) d in \<open>auto simp: convert_leaf\<close>)
next
  case (3 d acc y ys)
  from 3(3) obtain x where x: "convert_yyjson_value False (d + 1) y = Inr x"
    "convert_items False d (acc @ [x]) ys = Inr vs"
    by (auto split: sum.splits)
  have "canonical_ok x"
    using 3(1) [OF x(1)] 3(4) by simp
  then show ?case
    using 3(4,5) by (intro 3(2) [OF x]) simp_all
next
  case (5 d seen acc k y ms)
  from 5(3) obtain x where x: "k \<notin> seen" "convert_yyjson_value False (d + 1) y = Inr x"
    "convert_members False d (insert k seen) (acc @ [(k, x)]) ms = Inr os"
    by (auto split: if_splits sum.splits)
  have "canonical_ok x"
    using 5(1) [OF x(1,2)] 5(4) by simp
  then show ?case
    using 5(4,5) by (intro 5(2) [OF x]) simp_all
qed simp_all

section \<open>Properties\<close>

text \<open>
  C14: the validator accepts a byte string exactly when it is the UTF-8 encoding of a sequence of
  Unicode scalar values: overlong forms, surrogates, values beyond U+10FFFF, stray continuation bytes
  and truncated sequences are all rejected and nothing else is.
\<close>

theorem utf8_is_valid_iff:
  "utf8_is_valid s \<longleftrightarrow> (\<exists>cps. list_all scalar_value cps \<and> s = concat (map utf8_encode cps))"
proof
  show "utf8_is_valid s \<Longrightarrow> \<exists>cps. list_all scalar_value cps \<and> s = concat (map utf8_encode cps)"
  proof (induction "length s" arbitrary: s rule: less_induct)
    case less
    show ?case
    proof (cases s)
      case Nil
      then show ?thesis by (intro exI [of _ "[]"]) simp
    next
      case (Cons c s')
      then obtain cp rest where r: "scalar_value cp" "s = utf8_encode cp @ rest" "utf8_is_valid rest"
        using utf8_valid_split less.prems by blast
      then have "length rest < length s"
        by (simp add: utf8_encode_def)
      then obtain cps where "list_all scalar_value cps" "rest = concat (map utf8_encode cps)"
        using less.hyps r(3) by blast
      then show ?thesis
        using r by (intro exI [of _ "cp # cps"]) simp
    qed
  qed
next
  assume "\<exists>cps. list_all scalar_value cps \<and> s = concat (map utf8_encode cps)"
  then obtain cps where "list_all scalar_value cps" "s = concat (map utf8_encode cps)"
    by blast
  then show "utf8_is_valid s"
    by (induction cps arbitrary: s) (auto simp: utf8_encode_valid)
qed

text \<open>
  C4: strict serialization succeeds exactly on the float-free trees with valid strings and no repeated
  key, whatever their integers (the range of canonical JSON is checked when a document is parsed, not when a
  value is serialized), and two values are serialized to the same bytes exactly when they are equal after
  sorting the members of every object. The bytes that are hashed and signed therefore determine the value up
  to member order, and member order never changes them.
\<close>

theorem strict_serialization_canonical:
  "(serialize_canonical_strict v = Inr s \<and> serialize_canonical_strict w = Inr s) \<longleftrightarrow>
   (canonical_ok v \<and> canonical_ok w \<and> canonical_form v = canonical_form w \<and>
    s = print_value (canonical_form v))"
  using print_value_inject canonical_ok_canonical_form by (auto simp: serialize_strict_iff)

text \<open>
  C16: an integer token is read exactly when it is what strict serialization prints for an integer between
  -(2^53 - 1) and 2^53 - 1. The serializer also prints integers outside that range; their tokens are not read
  back. No token outside the canonical
  grammar (leading zeros, a plus sign, \<open>-0\<close>, a fraction or an exponent) is accepted.
\<close>

theorem integer_token_roundtrip:
  "raw_number_as_int64 t = Inr v \<longleftrightarrow>
     (\<exists>i. v = JInt i \<and> \<bar>i\<bar> \<le> max_safe_integer) \<and> serialize_canonical_strict v = Inr t"
  by (auto simp: raw_number_as_int64_iff serialize_strict_iff max_safe_integer_def)

text \<open>
  C15: a document accepted by \<open>parse_lossless\<close> is at most 64 levels deep, has objects of at most
  65536 members with no repeated key and only safe integers, and the strict serializer accepts it:
  every parsed event can be hashed and signed. The reader is yyjson's, with what it documents of a read
  with raw numbers as hypothesis.
\<close>

theorem parse_lossless_signable:
  assumes reader: "\<And>s n y. utf8_is_valid s \<Longrightarrow> read_raw s = Inr (n, y) \<Longrightarrow> raw_number_document y"
    and parsed: "parse_lossless read_raw input = Inr v"
  shows "within_limits max_depth v \<and> (\<exists>bytes. serialize_canonical_strict v = Inr bytes)"
proof -
  obtain n y where y: "utf8_is_valid input" "read_raw input = Inr (n, y)"
    "convert_yyjson_value False 0 y = Inr v"
    using parsed by (auto simp: parse_lossless_def parse_with_raw_numbers_def
        split: if_splits sum.splits)
  have "within_limits max_depth v"
    using convert_within_limits(1) [OF y(3)] by simp
  moreover have "canonical_ok v"
    using convert_canonical_ok(1) [OF y(3)] reader [OF y(1,2)] by simp
  ultimately show ?thesis
    by (simp add: serialize_strict_iff)
qed

definition sample_reader :: yyjson_reader where
  "sample_reader s =
     (if s = ''[1,null]'' then Inr (8, Yy_arr [Yy_raw ''1'', Yy_null]) else Inl Read_unexpected_character)"

theorem parse_lossless_signable_witness:
  "parse_lossless sample_reader ''[1,null]'' = Inr (JArray [JInt 1, JNull]) \<and>
   within_limits max_depth (JArray [JInt 1, JNull]) \<and>
   (\<exists>bytes. serialize_canonical_strict (JArray [JInt 1, JNull]) = Inr bytes)"
proof -
  have p: "parse_lossless sample_reader ''[1,null]'' = Inr (JArray [JInt 1, JNull])"
    by code_simp
  have r: "\<And>s n y. utf8_is_valid s \<Longrightarrow> sample_reader s = Inr (n, y) \<Longrightarrow> raw_number_document y"
    by (auto simp: sample_reader_def split: if_splits)
  show ?thesis
    using parse_lossless_signable [OF r p] p by simp
qed

end
