(* ===== verification/RoomVersions.thy ===== *)
theory RoomVersions
  imports CanonicalJson
begin

text \<open>
  The room version table, \<open>src/src/rooms/RoomVersionPolicy.cpp\<close>: which rules each supported room
  version uses. Every component that is version dependent takes one of these records.
\<close>

datatype redaction_rules = Redaction_room_v1_v7 | Redaction_room_v8_v10 | Redaction_room_v11_plus

datatype auth_rules = Auth_room_v1 | Auth_room_v6_plus | Auth_room_v12

datatype state_resolution_algorithm = State_v2 | State_v2_1

datatype event_format = Event_room_v3_plus

datatype event_id_format = Reference_hash

record room_version_policy =
  policy_id :: byte_string
  policy_event_format :: event_format
  redaction_rules_of :: redaction_rules
  auth_rules_of :: auth_rules
  state_resolution_of :: state_resolution_algorithm
  policy_event_id_format :: event_id_format
  stable :: bool
  create_event_is_room_id :: bool
  privilege_room_creators :: bool
  power_levels_require_integers :: bool
  power_levels_accept_floats :: bool
  knock_join_rule :: bool
  restricted_join_rule :: bool
  knock_restricted_join_rule :: bool
  redaction_keeps_aliases :: bool
  redaction_keeps_join_authorisation :: bool
  ignores_key_validity :: bool
  event_id_url_safe_base64 :: bool

text \<open>The member defaults of the struct.\<close>

definition default_policy :: "byte_string \<Rightarrow> room_version_policy" where
  "default_policy i =
     \<lparr>policy_id = i, policy_event_format = Event_room_v3_plus,
      redaction_rules_of = Redaction_room_v11_plus, auth_rules_of = Auth_room_v6_plus,
      state_resolution_of = State_v2, policy_event_id_format = Reference_hash, stable = False,
      create_event_is_room_id = False, privilege_room_creators = False,
      power_levels_require_integers = False, power_levels_accept_floats = False,
      knock_join_rule = False, restricted_join_rule = False, knock_restricted_join_rule = False,
      redaction_keeps_aliases = False, redaction_keeps_join_authorisation = False,
      ignores_key_validity = False, event_id_url_safe_base64 = True\<rparr>"

definition policies :: "room_version_policy list" where
  "policies =
     [(default_policy ''3'')
        \<lparr>redaction_rules_of := Redaction_room_v1_v7, auth_rules_of := Auth_room_v1, stable := True,
         power_levels_accept_floats := True, redaction_keeps_aliases := True,
         ignores_key_validity := True, event_id_url_safe_base64 := False\<rparr>,
      (default_policy ''4'')
        \<lparr>redaction_rules_of := Redaction_room_v1_v7, auth_rules_of := Auth_room_v1, stable := True,
         power_levels_accept_floats := True, redaction_keeps_aliases := True,
         ignores_key_validity := True\<rparr>,
      (default_policy ''5'')
        \<lparr>redaction_rules_of := Redaction_room_v1_v7, auth_rules_of := Auth_room_v1, stable := True,
         power_levels_accept_floats := True, redaction_keeps_aliases := True\<rparr>,
      (default_policy ''6'')\<lparr>redaction_rules_of := Redaction_room_v1_v7, stable := True\<rparr>,
      (default_policy ''7'')
        \<lparr>redaction_rules_of := Redaction_room_v1_v7, stable := True, knock_join_rule := True\<rparr>,
      (default_policy ''8'')
        \<lparr>redaction_rules_of := Redaction_room_v8_v10, stable := True, knock_join_rule := True,
         restricted_join_rule := True\<rparr>,
      (default_policy ''9'')
        \<lparr>redaction_rules_of := Redaction_room_v8_v10, stable := True, knock_join_rule := True,
         restricted_join_rule := True, redaction_keeps_join_authorisation := True\<rparr>,
      (default_policy ''10'')
        \<lparr>redaction_rules_of := Redaction_room_v8_v10, stable := True,
         power_levels_require_integers := True, knock_join_rule := True,
         restricted_join_rule := True, knock_restricted_join_rule := True,
         redaction_keeps_join_authorisation := True\<rparr>,
      (default_policy ''11'')
        \<lparr>redaction_rules_of := Redaction_room_v11_plus, stable := True,
         power_levels_require_integers := True, knock_join_rule := True,
         restricted_join_rule := True, knock_restricted_join_rule := True,
         redaction_keeps_join_authorisation := True\<rparr>,
      (default_policy ''12'')
        \<lparr>redaction_rules_of := Redaction_room_v11_plus, auth_rules_of := Auth_room_v12,
         state_resolution_of := State_v2_1, stable := True, create_event_is_room_id := True,
         privilege_room_creators := True, power_levels_require_integers := True,
         knock_join_rule := True, restricted_join_rule := True, knock_restricted_join_rule := True,
         redaction_keeps_join_authorisation := True\<rparr>]"

definition known_room_versions :: "room_version_policy list" where
  "known_room_versions = policies"

definition find_room_version_policy :: "byte_string \<Rightarrow> room_version_policy option" where
  "find_room_version_policy i = find (\<lambda>policy. policy_id policy = i) policies"

definition room_version_is_supported :: "byte_string \<Rightarrow> bool" where
  "room_version_is_supported i \<longleftrightarrow> find_room_version_policy i \<noteq> None"

text \<open>The table is consistent: what one flag promises another relies on.\<close>

definition policy_consistent :: "room_version_policy \<Rightarrow> bool" where
  "policy_consistent p \<longleftrightarrow>
     \<not> (power_levels_require_integers p \<and> power_levels_accept_floats p) \<and>
     (knock_restricted_join_rule p \<longrightarrow> restricted_join_rule p \<and> knock_join_rule p) \<and>
     (restricted_join_rule p \<longrightarrow> redaction_rules_of p \<noteq> Redaction_room_v1_v7) \<and>
     (create_event_is_room_id p \<longleftrightarrow> privilege_room_creators p) \<and>
     (state_resolution_of p = State_v2_1 \<longleftrightarrow> auth_rules_of p = Auth_room_v12) \<and>
     (redaction_rules_of p = Redaction_room_v11_plus \<longrightarrow> redaction_keeps_join_authorisation p)"

lemma find_room_version_policy_Some:
  "find_room_version_policy i = Some p \<Longrightarrow> p \<in> set policies \<and> policy_id p = i"
  by (auto simp: find_room_version_policy_def find_Some_iff)

lemma policies_consistent: "p \<in> set policies \<Longrightarrow> policy_consistent p"
proof -
  have "list_all policy_consistent policies"
    by code_simp
  then show "p \<in> set policies \<Longrightarrow> policy_consistent p"
    by (simp add: list_all_iff)
qed

lemma policies_distinct: "distinct (map policy_id policies)"
  by code_simp

lemma find_distinct_key:
  "distinct (map f xs) \<Longrightarrow> x \<in> set xs \<Longrightarrow> find (\<lambda>y. f y = f x) xs = Some x"
  by (induction xs) auto

lemma find_policy_of_member: "p \<in> set policies \<Longrightarrow> find_room_version_policy (policy_id p) = Some p"
  by (simp add: find_room_version_policy_def find_distinct_key policies_distinct)

end
