(* ===== verification/Redaction.thy ===== *)
theory Redaction
  imports RoomVersions
begin

text \<open>
  Event redaction, \<open>src/src/events/redaction.cpp\<close>: the keys each room version keeps at the top level
  and inside \<open>content\<close>. The redacted form is what the reference hash and the signatures cover, so two
  servers must agree on it byte for byte.
\<close>

section \<open>Member lookup\<close>

text \<open>
  Every file of \<open>src/src/events\<close> has its own copy of this helper; they are one definition here.
\<close>

definition object_member :: "json_object \<Rightarrow> byte_string \<Rightarrow> json option" where
  "object_member object key = map_of object key"

definition string_member :: "json_object \<Rightarrow> byte_string \<Rightarrow> byte_string option" where
  "string_member object key =
     (case object_member object key of Some (JString s) \<Rightarrow> Some s | _ \<Rightarrow> None)"

section \<open>The redaction algorithm\<close>

definition base_key_is_allowed :: "byte_string \<Rightarrow> bool" where
  "base_key_is_allowed key \<longleftrightarrow>
     key = ''event_id'' \<or> key = ''type'' \<or> key = ''room_id'' \<or> key = ''sender'' \<or> key = ''state_key'' \<or>
     key = ''content'' \<or> key = ''hashes'' \<or> key = ''signatures'' \<or> key = ''depth'' \<or>
     key = ''prev_events'' \<or> key = ''auth_events'' \<or> key = ''origin_server_ts''"

definition key_is_allowed :: "byte_string \<Rightarrow> room_version_policy \<Rightarrow> bool" where
  "key_is_allowed key policy =
     (if redaction_rules_of policy = Redaction_room_v1_v7 \<or>
         redaction_rules_of policy = Redaction_room_v8_v10
      then base_key_is_allowed key \<or> key = ''origin'' \<or> key = ''prev_state'' \<or> key = ''membership''
      else base_key_is_allowed key)"

definition content_key_allowed :: "byte_string \<Rightarrow> byte_string \<Rightarrow> room_version_policy \<Rightarrow> bool" where
  "content_key_allowed event_type key policy =
     (if event_type = ''m.room.member'' then
        key = ''membership'' \<or>
        (redaction_keeps_join_authorisation policy \<and> key = ''join_authorised_via_users_server'') \<or>
        (redaction_rules_of policy = Redaction_room_v11_plus \<and> key = ''third_party_invite'')
      else if event_type = ''m.room.create'' then
        redaction_rules_of policy = Redaction_room_v11_plus \<or> key = ''creator''
      else if event_type = ''m.room.join_rules'' then
        (let allow_preserved = (redaction_rules_of policy = Redaction_room_v8_v10 \<or>
               redaction_rules_of policy = Redaction_room_v11_plus)
         in key = ''join_rule'' \<or> (allow_preserved \<and> key = ''allow''))
      else if event_type = ''m.room.power_levels'' then
        key = ''ban'' \<or> key = ''events'' \<or> key = ''events_default'' \<or> key = ''kick'' \<or>
        key = ''redact'' \<or> key = ''state_default'' \<or> key = ''users'' \<or> key = ''users_default'' \<or>
        (redaction_rules_of policy = Redaction_room_v11_plus \<and> key = ''invite'')
      else if event_type = ''m.room.history_visibility'' then key = ''history_visibility''
      else if event_type = ''m.room.aliases'' then redaction_keeps_aliases policy \<and> key = ''aliases''
      else if event_type = ''m.room.redaction'' then
        redaction_rules_of policy = Redaction_room_v11_plus \<and> key = ''redacts''
      else False)"

definition redact_third_party_invite :: "json \<Rightarrow> json" where
  "redact_third_party_invite value =
     (case value of
        JObject object \<Rightarrow>
          (case object_member object ''signed'' of
             Some signed_value \<Rightarrow> JObject [(''signed'', signed_value)]
           | None \<Rightarrow> JObject [])
      | _ \<Rightarrow> JObject [])"

text \<open>The loop over the content members, one call of \<open>push_back\<close> per kept key.\<close>

fun redact_content_members ::
    "byte_string \<Rightarrow> room_version_policy \<Rightarrow> json_object \<Rightarrow> json_object" where
  "redact_content_members event_type policy [] = []"
| "redact_content_members event_type policy ((k, v) # ms) =
     (if content_key_allowed event_type k policy then
        (if k = ''third_party_invite'' then [(k, redact_third_party_invite v)] else [(k, v)])
      else []) @ redact_content_members event_type policy ms"

definition redact_content :: "json \<Rightarrow> byte_string \<Rightarrow> room_version_policy \<Rightarrow> json" where
  "redact_content content event_type policy =
     (case content of
        JObject object \<Rightarrow> JObject (redact_content_members event_type policy object)
      | _ \<Rightarrow> JObject [])"

fun redact_members ::
    "byte_string option \<Rightarrow> bool \<Rightarrow> room_version_policy \<Rightarrow> json_object \<Rightarrow> json_object" where
  "redact_members event_type omits_room_id policy [] = []"
| "redact_members event_type omits_room_id policy ((k, v) # ms) =
     (if k = ''room_id'' \<and> omits_room_id then []
      else if key_is_allowed k policy then
        (case event_type of
           Some t \<Rightarrow> if k = ''content'' then [(k, redact_content v t policy)] else [(k, v)]
         | None \<Rightarrow> [(k, v)])
      else []) @ redact_members event_type omits_room_id policy ms"

definition redact_event :: "json \<Rightarrow> room_version_policy \<Rightarrow> byte_string + json" where
  "redact_event event policy =
     (case event of
        JObject object \<Rightarrow>
          (let event_type = string_member object ''type'';
               create_event_omits_room_id =
                 (create_event_is_room_id policy \<and> event_type = Some ''m.room.create'')
           in Inr (JObject (redact_members event_type create_event_omits_room_id policy object)))
      | _ \<Rightarrow> Inl ''event must be an object'')"

section \<open>Facts\<close>

lemma object_member_simps [simp]:
  "object_member [] key = None"
  "object_member ((k, v) # ms) key = (if k = key then Some v else object_member ms key)"
  by (simp_all add: object_member_def)

lemma object_member_append:
  "object_member (xs @ ys) key = (case object_member xs key of None \<Rightarrow> object_member ys key | r \<Rightarrow> r)"
  by (simp add: object_member_def map_add_def split: option.splits)

lemma object_member_filter:
  "object_member (filter (\<lambda>(k, v). P k) ms) key = (if P key then object_member ms key else None)"
  by (induction ms) auto


lemma object_member_in_set: "object_member ms key = Some v \<Longrightarrow> (key, v) \<in> set ms"
  by (simp add: object_member_def map_of_SomeD)

lemma redact_third_party_invite_idem [simp]:
  "redact_third_party_invite (redact_third_party_invite v) = redact_third_party_invite v"
  by (simp add: redact_third_party_invite_def split: json.splits option.splits)

lemma redact_content_members_idem [simp]:
  "redact_content_members t p (redact_content_members t p ms) = redact_content_members t p ms"
  by (induction t p ms rule: redact_content_members.induct) auto

lemma redact_content_idem [simp]:
  "redact_content (redact_content c t p) t p = redact_content c t p"
  by (simp add: redact_content_def split: json.splits)

lemma redact_members_idem [simp]:
  "redact_members t o' p (redact_members t o' p ms) = redact_members t o' p ms"
  by (induction t o' p ms rule: redact_members.induct) (auto split: option.splits)

lemma redact_members_lookup_kept:
  assumes "key_is_allowed key p" "key \<noteq> ''content''" "key \<noteq> ''room_id'' \<or> \<not> o'"
  shows "object_member (redact_members t o' p ms) key = object_member ms key"
  using assms by (induction t o' p ms rule: redact_members.induct) (auto split: option.splits)



lemma redact_content_members_keys:
  "k \<in> fst ` set (redact_content_members t p ms) \<Longrightarrow>
     k \<in> fst ` set ms \<and> content_key_allowed t k p"
  by (induction t p ms rule: redact_content_members.induct) (auto split: if_splits)

lemma type_is_allowed [simp]: "key_is_allowed ''type'' p"
  by (simp add: key_is_allowed_def base_key_is_allowed_def)

lemma redact_event_type:
  "string_member (redact_members t o' p ms) ''type'' = string_member ms ''type''"
  by (simp add: string_member_def redact_members_lookup_kept)



section \<open>What the room versions prescribe\<close>
















section \<open>Properties\<close>

text \<open>
  C17: redacting is idempotent: a redacted event redacts to itself, whatever the event and the room
  version, so a server that redacts an event another server already redacted hashes the same bytes.
\<close>

theorem redact_event_idempotent:
  assumes "redact_event event policy = Inr redacted"
  shows "redact_event redacted policy = Inr redacted"
  using assms
  by (auto simp: redact_event_def Let_def redact_event_type split: json.splits)

theorem redact_event_idempotent_witness:
  "redact_event (JObject [(''type'', JString ''m.room.name''), (''content'', JObject [(''name'', JNull)])])
     (default_policy ''11'') =
     Inr (JObject [(''type'', JString ''m.room.name''), (''content'', JObject [])]) \<and>
   redact_event (JObject [(''type'', JString ''m.room.name''), (''content'', JObject [])])
     (default_policy ''11'') =
     Inr (JObject [(''type'', JString ''m.room.name''), (''content'', JObject [])])"
proof -
  have "redact_event (JObject [(''type'', JString ''m.room.name''), (''content'', JObject [(''name'', JNull)])])
     (default_policy ''11'') =
     Inr (JObject [(''type'', JString ''m.room.name''), (''content'', JObject [])])"
    by code_simp
  from redact_event_idempotent [OF this] this show ?thesis
    by simp
qed



text \<open>
  A create event keeps all of its content from room version 11 on, except that a key named
  \<open>third_party_invite\<close> loses everything but \<open>signed\<close>: the test on the key does not look at the event
  type.
\<close>

lemma redact_create_reduces_third_party_invite:
  "redact_content (JObject [(''third_party_invite'', JObject [(''x'', JNull)])]) ''m.room.create''
     (default_policy ''11'') = JObject [(''third_party_invite'', JObject [])]"
  by code_simp

end
