(* ===== verification/Crypto.thy ===== *)
theory Crypto
  imports Redaction
begin

text \<open>
  The signing service, \<open>src/src/crypto/\<close> (\<open>ed25519.cpp\<close>, \<open>signing_service.cpp\<close> and the Ed25519
  providers) with the key store of \<open>src/src/homeserver/RuntimeSigningKeyStore.cpp\<close>. libsodium is a
  third-party library: its functions are the fields of \<open>sodium\<close>, an argument of every definition that
  calls it, and \<open>sodium_correct\<close> collects what its documentation promises.
\<close>

section \<open>libsodium\<close>

text \<open>
  A failing call (a non-zero return) is \<open>None\<close>. \<open>bin2base64 url_safe\<close> is the unpadded encoding, in the
  standard or the URL-safe alphabet; \<open>base642bin\<close> decodes the standard alphabet. Encoding gives at most
  two characters per byte (four for three bytes, see \<open>sodium_base64_ENCODED_LEN\<close>). \<open>is_key_pair\<close> holds of
  a public and a secret key that \<open>crypto_sign_keypair\<close> generates together; only for those is a signature
  promised to verify.
\<close>

record sodium =
  sodium_init_ok :: bool
  hash_sha256 :: "byte_string \<Rightarrow> byte_string option"
  bin2base64 :: "bool \<Rightarrow> byte_string \<Rightarrow> byte_string"
  base642bin :: "byte_string \<Rightarrow> byte_string option"
  sign_detached :: "byte_string \<Rightarrow> byte_string \<Rightarrow> byte_string option"
  verify_detached :: "byte_string \<Rightarrow> byte_string \<Rightarrow> byte_string \<Rightarrow> bool"
  is_key_pair :: "byte_string \<Rightarrow> byte_string \<Rightarrow> bool"

definition base64_char :: "char \<Rightarrow> bool" where
  "base64_char c \<longleftrightarrow>
     is_digit c \<or> is_upper_ascii c \<or> is_lower_ascii c \<or> c = CHR ''+'' \<or> c = CHR ''/'' \<or> c = CHR ''-'' \<or>
     c = CHR ''_''"

definition sodium_correct :: "sodium \<Rightarrow> bool" where
  "sodium_correct na \<longleftrightarrow>
     sodium_init_ok na \<and>
     (\<forall>b. base642bin na (bin2base64 na False b) = Some b) \<and>
     (\<forall>u b. list_all base64_char (bin2base64 na u b)) \<and>
     (\<forall>u b. bin2base64 na u b = [] \<longleftrightarrow> b = []) \<and>
     (\<forall>u b. length (bin2base64 na u b) \<le> 2 * length b) \<and>
     (\<forall>sk m s. sign_detached na sk m = Some s \<longrightarrow> length s = 64) \<and>
     (\<forall>pk sk m s. is_key_pair na pk sk \<longrightarrow> sign_detached na sk m = Some s \<longrightarrow> verify_detached na pk m s)"

section \<open>Ed25519\<close>

definition ed25519_public_key_shape_is_valid :: "byte_string \<Rightarrow> bool" where
  "ed25519_public_key_shape_is_valid public_key \<longleftrightarrow> length public_key = 32"

definition ed25519_signature_shape_is_valid :: "byte_string \<Rightarrow> bool" where
  "ed25519_signature_shape_is_valid signature \<longleftrightarrow> length signature = 64"

definition is_printable_without_space :: "char \<Rightarrow> bool" where
  "is_printable_without_space c \<longleftrightarrow> 0x20 < (byte_of c :: nat) \<and> byte_of c < (0x7F :: nat)"

definition ed25519_key_id_is_valid :: "byte_string \<Rightarrow> bool" where
  "ed25519_key_id_is_valid key_id \<longleftrightarrow>
     length ''ed25519:'' < length key_id \<and> length key_id \<le> 255 \<and> starts_with key_id ''ed25519:'' \<and>
     list_all is_printable_without_space (drop (length ''ed25519:'') key_id)"

text \<open>A verification result: whether it is valid, and the error text.\<close>

type_synonym verification = "bool \<times> byte_string"

definition ed25519_verify ::
    "sodium \<Rightarrow> byte_string \<Rightarrow> byte_string \<Rightarrow> byte_string \<Rightarrow> verification" where
  "ed25519_verify na public_key message signature =
     (if \<not> ed25519_public_key_shape_is_valid public_key \<or> \<not> ed25519_signature_shape_is_valid signature
      then (False, ''invalid Ed25519 material'')
      else let ok = verify_detached na public_key message signature
           in (ok, if ok then [] else ''signature verification failed''))"

definition ed25519_secret_key_bytes :: nat where
  "ed25519_secret_key_bytes = 64"

section \<open>Providers\<close>

text \<open>The interface \<open>Ed25519Provider\<close> and its three implementations.\<close>

record ed25519_provider =
  provider_sign :: "byte_string \<Rightarrow> byte_string \<Rightarrow> byte_string + byte_string"
  provider_verify :: "byte_string \<Rightarrow> byte_string \<Rightarrow> byte_string \<Rightarrow> verification"

definition runtime_ed25519_provider :: "sodium \<Rightarrow> byte_string \<Rightarrow> ed25519_provider" where
  "runtime_ed25519_provider na secret =
     (let secret_key = (if length secret = ed25519_secret_key_bytes then secret else []) in
      \<lparr>provider_sign = (\<lambda>_ message.
         if length secret_key \<noteq> ed25519_secret_key_bytes
         then Inl ''signing key is not a valid Ed25519 secret key''
         else case sign_detached na secret_key message of
           None \<Rightarrow> Inl ''Ed25519 signing failed''
         | Some signature \<Rightarrow> Inr signature),
       provider_verify = ed25519_verify na\<rparr>)"

definition runtime_multi_key_provider ::
    "sodium \<Rightarrow> (byte_string \<rightharpoonup> byte_string) \<Rightarrow> ed25519_provider" where
  "runtime_multi_key_provider na secrets =
     \<lparr>provider_sign = (\<lambda>key_id message.
        case secrets key_id of
          None \<Rightarrow> Inl (''signing key not held: '' @ key_id)
        | Some secret \<Rightarrow>
            if length secret \<noteq> ed25519_secret_key_bytes
            then Inl (''signing key not held: '' @ key_id)
            else (case sign_detached na secret message of
              None \<Rightarrow> Inl ''Ed25519 signing failed''
            | Some signature \<Rightarrow> Inr signature)),
      provider_verify = ed25519_verify na\<rparr>"

text \<open>The constructor: a later entry for a key id replaces an earlier one.\<close>

definition multi_key_secrets :: "(byte_string \<times> byte_string) list \<Rightarrow> (byte_string \<rightharpoonup> byte_string)" where
  "multi_key_secrets keys = foldl (\<lambda>m (k, s). m(k \<mapsto> s)) Map.empty keys"

definition refusing_provider :: ed25519_provider where
  "refusing_provider =
     \<lparr>provider_sign = (\<lambda>_ _. Inl ''signing is not permitted in this process: the federation worker holds no signing capability''),
      provider_verify = (\<lambda>_ _ _. (False, ''verification is not permitted in this process: the federation worker holds no signing capability''))\<rparr>"

section \<open>Keys and base64\<close>

record signing_key_record =
  key_server_name :: byte_string
  key_key_id :: byte_string
  key_public_key :: byte_string
  key_active :: bool

definition signing_key_record_is_usable :: "signing_key_record \<Rightarrow> bool" where
  "signing_key_record_is_usable key \<longleftrightarrow>
     key_active key \<and> key_server_name key \<noteq> [] \<and> ed25519_key_id_is_valid (key_key_id key) \<and>
     ed25519_public_key_shape_is_valid (key_public_key key)"

definition matrix_base64_from_bytes :: "sodium \<Rightarrow> byte_string \<Rightarrow> byte_string" where
  "matrix_base64_from_bytes na bytes =
     (if bytes = [] \<or> \<not> sodium_init_ok na then [] else bin2base64 na False bytes)"

definition matrix_bytes_from_base64 :: "sodium \<Rightarrow> byte_string \<Rightarrow> byte_string" where
  "matrix_bytes_from_base64 na encoded =
     (if encoded = [] \<or> \<not> sodium_init_ok na then []
      else case base642bin na encoded of None \<Rightarrow> [] | Some decoded \<Rightarrow> decoded)"

text \<open>The stored keys of \<open>RuntimeSigningKeyStore\<close>.\<close>

record persistent_signing_key =
  stored_server_name :: byte_string
  stored_key_id :: byte_string
  stored_public_key :: byte_string

fun collect_active_keys ::
    "sodium \<Rightarrow> byte_string \<Rightarrow> persistent_signing_key list \<Rightarrow> signing_key_record list" where
  "collect_active_keys na server_name [] = []"
| "collect_active_keys na server_name (key # keys) =
     (if stored_server_name key \<noteq> server_name \<or> stored_key_id key = ''ed25519:auto'' \<or>
         stored_public_key key = []
      then collect_active_keys na server_name keys
      else
        let public_key = matrix_bytes_from_base64 na (stored_public_key key) in
        if public_key = [] then collect_active_keys na server_name keys
        else
          let record = \<lparr>key_server_name = stored_server_name key, key_key_id = stored_key_id key,
                        key_public_key = public_key, key_active = True\<rparr> in
          if \<not> signing_key_record_is_usable record then collect_active_keys na server_name keys
          else record # collect_active_keys na server_name keys)"

definition active_keys_for_server ::
    "sodium \<Rightarrow> byte_string \<Rightarrow> persistent_signing_key list \<Rightarrow> byte_string \<Rightarrow> signing_key_record list" where
  "active_keys_for_server na own_name keys server_name =
     (if server_name \<noteq> own_name then [] else collect_active_keys na own_name keys)"

section \<open>Signing for a server\<close>

text \<open>
  The loop over the usable keys. Its last argument is the error of the last key that failed, empty at
  the start; the result is the server name, the key id and the signature.
\<close>

fun sign_with_keys ::
    "ed25519_provider \<Rightarrow> byte_string \<Rightarrow> byte_string \<Rightarrow> signing_key_record list \<Rightarrow> byte_string
      \<Rightarrow> byte_string + (byte_string \<times> byte_string \<times> byte_string)" where
  "sign_with_keys provider server_name message [] last_error =
     Inl (if last_error = [] then ''no usable active signing key'' else last_error)"
| "sign_with_keys provider server_name message (key # keys) last_error =
     (if \<not> signing_key_record_is_usable key \<or> key_server_name key \<noteq> server_name
      then sign_with_keys provider server_name message keys last_error
      else case provider_sign provider (key_key_id key) message of
        Inl e \<Rightarrow> sign_with_keys provider server_name message keys e
      | Inr signature \<Rightarrow>
          if \<not> ed25519_signature_shape_is_valid signature
          then sign_with_keys provider server_name message keys
                 ''provider returned invalid Ed25519 signature shape''
          else Inr (key_server_name key, key_key_id key, signature))"

definition sign_for_server ::
    "(byte_string \<Rightarrow> signing_key_record list) \<Rightarrow> ed25519_provider \<Rightarrow> byte_string \<Rightarrow> byte_string
      \<Rightarrow> byte_string + (byte_string \<times> byte_string \<times> byte_string)" where
  "sign_for_server key_store provider server_name message =
     (if server_name = [] then Inl ''server name is empty''
      else let keys = key_store server_name in
        if keys = [] then Inl ''no active signing key''
        else sign_with_keys provider server_name message keys [])"

section \<open>Facts\<close>

lemma sodium_correctD:
  assumes "sodium_correct na"
  shows "sodium_init_ok na" and "base642bin na (bin2base64 na False b) = Some b"
    and "list_all base64_char (bin2base64 na u b)"
    and "bin2base64 na u b = [] \<longleftrightarrow> b = []"
    and "length (bin2base64 na u b) \<le> 2 * length b"
    and "sign_detached na sk m = Some s \<Longrightarrow> length s = 64"
    and "is_key_pair na pk sk \<Longrightarrow> sign_detached na sk m = Some s \<Longrightarrow> verify_detached na pk m s"
  using assms unfolding sodium_correct_def by blast+

lemma base64_roundtrip:
  assumes "sodium_correct na" "bytes \<noteq> []"
  shows "matrix_bytes_from_base64 na (matrix_base64_from_bytes na bytes) = bytes"
  using assms by (simp add: matrix_bytes_from_base64_def matrix_base64_from_bytes_def sodium_correctD(1,2,4))

lemma collect_active_keys_usable:
  "key \<in> set (collect_active_keys na server_name keys) \<Longrightarrow>
     signing_key_record_is_usable key \<and> key_server_name key = server_name"
  by (induction na server_name keys rule: collect_active_keys.induct)
    (auto simp: Let_def split: if_splits)

lemma collect_active_keys_stored:
  "key \<in> set (collect_active_keys na server_name keys) \<Longrightarrow>
     \<exists>k \<in> set keys. stored_key_id k = key_key_id key \<and>
       matrix_bytes_from_base64 na (stored_public_key k) = key_public_key key"
  by (induction na server_name keys rule: collect_active_keys.induct)
    (auto simp: Let_def split: if_splits)

lemma sign_with_keys_Inr:
  "sign_with_keys provider server_name message keys e = Inr (name, key_id, signature) \<Longrightarrow>
     \<exists>key \<in> set keys. signing_key_record_is_usable key \<and> key_server_name key = server_name \<and>
       name = server_name \<and> key_id = key_key_id key \<and>
       provider_sign provider key_id message = Inr signature \<and>
       ed25519_signature_shape_is_valid signature"
  by (induction provider server_name message keys e rule: sign_with_keys.induct)
    (auto split: if_splits sum.splits)

lemma sign_for_server_Inr:
  "sign_for_server key_store provider server_name message = Inr (name, key_id, signature) \<Longrightarrow>
     \<exists>key \<in> set (key_store server_name). signing_key_record_is_usable key \<and>
       key_server_name key = server_name \<and> name = server_name \<and> key_id = key_key_id key \<and>
       provider_sign provider key_id message = Inr signature \<and>
       ed25519_signature_shape_is_valid signature"
  by (auto simp: sign_for_server_def Let_def dest!: sign_with_keys_Inr split: if_splits)

end
