(* ===== verification/Events.thy ===== *)
theory Events
  imports Crypto
begin

text \<open>
  The event layer under \<open>src/src/events/\<close>: the bounded envelope parser (\<open>event.cpp\<close>), content and
  reference hashes and event ids (\<open>event_id.cpp\<close>), removal of \<open>unsigned\<close> (\<open>unsigned_data.cpp\<close>) and
  event signatures (\<open>event_signer.cpp\<close>). The diagnostic log lines are left out.
\<close>

section \<open>Limits\<close>

definition max_signatures_per_server :: nat where
  "max_signatures_per_server = 100"

definition max_servers_with_signatures :: nat where
  "max_servers_with_signatures = 50"

definition max_signatures_per_event :: nat where
  "max_signatures_per_event = 5000"

definition max_id_length_bytes :: nat where
  "max_id_length_bytes = 255"

definition max_state_key_length_bytes :: nat where
  "max_state_key_length_bytes = 255"

section \<open>The event envelope\<close>

record event_signature =
  sig_server_name :: byte_string
  sig_key_id :: byte_string
  sig_signature :: byte_string

record event_envelope =
  env_json :: json
  env_room_id :: byte_string
  env_event_type :: byte_string
  env_sender :: byte_string
  env_state_key :: byte_string
  env_origin_server_ts :: int
  env_signatures :: "event_signature list"

definition integer_member :: "json_object \<Rightarrow> byte_string \<Rightarrow> int option" where
  "integer_member object key =
     (case object_member object key of Some (JInt i) \<Rightarrow> Some i | _ \<Rightarrow> None)"

definition object_member_as_object :: "json_object \<Rightarrow> byte_string \<Rightarrow> json_object option" where
  "object_member_as_object object key =
     (case object_member object key of Some (JObject ms) \<Rightarrow> Some ms | _ \<Rightarrow> None)"

definition contains_no_control_or_space :: "byte_string \<Rightarrow> bool" where
  "contains_no_control_or_space value =
     list_all (\<lambda>c. \<not> (byte_of c \<le> (0x20::nat) \<or> byte_of c = (0x7F::nat))) value"

text \<open>The two loops of \<open>parse_event_signatures\<close>; \<open>None\<close> is the resource limit.\<close>

fun parse_server_signatures ::
    "byte_string \<Rightarrow> json_object \<Rightarrow> event_signature list \<Rightarrow> event_signature list option" where
  "parse_server_signatures server [] parsed = Some parsed"
| "parse_server_signatures server ((key, JString signature) # rest) parsed =
     (let parsed' = parsed @
        [\<lparr>sig_server_name = server, sig_key_id = key, sig_signature = signature\<rparr>] in
      if max_signatures_per_event < length parsed' then None
      else parse_server_signatures server rest parsed')"
| "parse_server_signatures server ((key, _) # rest) parsed =
     parse_server_signatures server rest parsed"

fun parse_signature_servers ::
    "json_object \<Rightarrow> event_signature list \<Rightarrow> event_signature list option" where
  "parse_signature_servers [] parsed = Some parsed"
| "parse_signature_servers ((server, JObject server_signatures) # rest) parsed =
     (if max_signatures_per_server < length server_signatures then None
      else case parse_server_signatures server server_signatures parsed of
        None \<Rightarrow> None
      | Some parsed' \<Rightarrow> parse_signature_servers rest parsed')"
| "parse_signature_servers ((server, _) # rest) parsed = parse_signature_servers rest parsed"

definition parse_event_signatures :: "json_object \<Rightarrow> event_signature list option" where
  "parse_event_signatures object =
     (case object_member_as_object object ''signatures'' of
        None \<Rightarrow> Some []
      | Some signatures \<Rightarrow>
          if max_servers_with_signatures < length signatures then None
          else parse_signature_servers signatures [])"

definition matrix_id_is_valid :: "byte_string \<Rightarrow> char \<Rightarrow> bool" where
  "matrix_id_is_valid i sigil =
     (let requires_colon = (sigil \<noteq> CHR ''!'') in
      3 \<le> length i \<and> length i \<le> max_id_length_bytes \<and> hd i = sigil \<and>
      (\<not> requires_colon \<or> find_char (CHR '':'') i \<noteq> None) \<and> contains_no_control_or_space i)"

definition event_type_is_valid :: "byte_string \<Rightarrow> bool" where
  "event_type_is_valid t \<longleftrightarrow> t \<noteq> [] \<and> length t \<le> 255 \<and> contains_no_control_or_space t"

definition state_key_contains_nul :: "byte_string \<Rightarrow> bool" where
  "state_key_contains_nul state_key \<longleftrightarrow> find_char (CHR 0x00) state_key \<noteq> None"

definition parse_event_envelope :: "json \<Rightarrow> byte_string + event_envelope" where
  "parse_event_envelope json =
     (case json of
        JObject object \<Rightarrow>
          (case (string_member object ''type'', string_member object ''sender'',
                 integer_member object ''origin_server_ts'') of
             (Some type, Some sender, Some origin_server_ts) \<Rightarrow>
               (let room_id = string_member object ''room_id'';
                    is_create_event = (type = ''m.room.create'')
                in if \<not> is_create_event \<and> room_id = None then Inl ''event missing required fields''
                   else if (case room_id of None \<Rightarrow> False | Some r \<Rightarrow> \<not> matrix_id_is_valid r (CHR ''!''))
                   then Inl ''invalid room_id''
                   else if \<not> matrix_id_is_valid sender (CHR ''@'') then Inl ''invalid sender''
                   else if \<not> event_type_is_valid type then Inl ''invalid event type''
                   else if origin_server_ts < 0 then Inl ''invalid origin_server_ts''
                   else case parse_event_signatures object of
                     None \<Rightarrow> Inl ''event signatures exceed resource limits''
                   | Some signatures \<Rightarrow>
                       (let event = \<lparr>env_json = json,
                              env_room_id = (case room_id of None \<Rightarrow> [] | Some r \<Rightarrow> r),
                              env_event_type = type, env_sender = sender, env_state_key = [],
                              env_origin_server_ts = origin_server_ts, env_signatures = signatures\<rparr>
                        in case string_member object ''state_key'' of
                             None \<Rightarrow> Inr event
                           | Some state_key \<Rightarrow>
                               if state_key_contains_nul state_key then Inl ''state_key contains NUL''
                               else if max_state_key_length_bytes < length state_key
                               then Inl ''state_key exceeds 255 bytes''
                               else Inr (event\<lparr>env_state_key := state_key\<rparr>)))
           | _ \<Rightarrow> Inl ''event missing required fields'')
      | _ \<Rightarrow> Inl ''event must be an object'')"

section \<open>Hashes and event ids\<close>

definition sha256_base64 :: "sodium \<Rightarrow> byte_string \<Rightarrow> bool \<Rightarrow> byte_string + byte_string" where
  "sha256_base64 na input url_safe =
     (if \<not> sodium_init_ok na then Inl ''libsodium initialization failed''
      else case hash_sha256 na input of
        None \<Rightarrow> Inl ''sha256 failed''
      | Some digest \<Rightarrow> Inr (bin2base64 na url_safe digest))"

definition clone_without_fields :: "json_object \<Rightarrow> byte_string list \<Rightarrow> json_object" where
  "clone_without_fields object names = filter (\<lambda>(k, v). \<not> (\<exists>field \<in> set names. k = field)) object"

definition serialize_object_without ::
    "json \<Rightarrow> byte_string list \<Rightarrow> canonical_json_error + byte_string" where
  "serialize_object_without event names =
     (case event of
        JObject object \<Rightarrow> serialize_canonical_strict (JObject (clone_without_fields object names))
      | _ \<Rightarrow> Inl Bad_string)"

definition event_id_char :: "char \<Rightarrow> bool" where
  "event_id_char c \<longleftrightarrow>
     is_upper_ascii c \<or> is_lower_ascii c \<or> is_digit c \<or> c = CHR ''_'' \<or> c = CHR ''-'' \<or> c = CHR '':'' \<or>
     c = CHR ''.''"

definition event_id_is_valid :: "byte_string \<Rightarrow> bool" where
  "event_id_is_valid event_id \<longleftrightarrow>
     \<not> (length event_id < 3 \<or> hd event_id \<noteq> CHR ''$'') \<and> list_all event_id_char (tl event_id)"

definition event_id_is_acceptable_in_receipt :: "byte_string \<Rightarrow> bool" where
  "event_id_is_acceptable_in_receipt event_id =
     (if max_id_length_bytes < length event_id then False
      else event_id_is_valid event_id \<or>
        (3 \<le> length event_id \<and> hd event_id = CHR ''$'' \<and>
         list_all (\<lambda>c. is_upper_ascii c \<or> is_lower_ascii c \<or> is_digit c \<or> c = CHR ''+'' \<or> c = CHR ''/'')
           (tl event_id)))"

definition make_content_hash :: "sodium \<Rightarrow> json \<Rightarrow> byte_string + byte_string" where
  "make_content_hash na event =
     (case serialize_object_without event [''unsigned'', ''signatures'', ''hashes''] of
        Inl e \<Rightarrow> Inl (canonical_json_error_name e)
      | Inr serialized \<Rightarrow> sha256_base64 na serialized False)"

definition encoded_reference_hash ::
    "sodium \<Rightarrow> json \<Rightarrow> room_version_policy \<Rightarrow> bool \<Rightarrow> byte_string + byte_string" where
  "encoded_reference_hash na event policy url_safe =
     (case redact_event event policy of
        Inl e \<Rightarrow> Inl e
      | Inr redacted \<Rightarrow>
          (case serialize_object_without redacted [''signatures'', ''unsigned''] of
             Inl e \<Rightarrow> Inl (canonical_json_error_name e)
           | Inr serialized \<Rightarrow> sha256_base64 na serialized url_safe))"

definition make_reference_hash ::
    "sodium \<Rightarrow> json \<Rightarrow> room_version_policy \<Rightarrow> byte_string + byte_string" where
  "make_reference_hash na event policy = encoded_reference_hash na event policy True"

definition make_reference_hash_event_id ::
    "sodium \<Rightarrow> json \<Rightarrow> room_version_policy \<Rightarrow> byte_string + byte_string" where
  "make_reference_hash_event_id na event policy =
     (case encoded_reference_hash na event policy (event_id_url_safe_base64 policy) of
        Inl e \<Rightarrow> Inl e
      | Inr hash \<Rightarrow> Inr (CHR ''$'' # hash))"

definition make_content_hash_id ::
    "sodium \<Rightarrow> json \<Rightarrow> room_version_policy \<Rightarrow> byte_string + byte_string" where
  "make_content_hash_id na event policy = make_reference_hash_event_id na event policy"

definition make_noncanonical_event_id_label ::
    "sodium \<Rightarrow> c_library \<Rightarrow> json \<Rightarrow> room_version_policy \<Rightarrow> byte_string + byte_string" where
  "make_noncanonical_event_id_label na lib event policy =
     (case redact_event event policy of
        Inl e \<Rightarrow> Inl e
      | Inr (JObject object) \<Rightarrow>
          (case serialize_canonical lib
                  (JObject (clone_without_fields object [''signatures'', ''unsigned''])) of
             Inl e \<Rightarrow> Inl (canonical_json_error_name e)
           | Inr serialized \<Rightarrow>
               (case sha256_base64 na serialized (event_id_url_safe_base64 policy) of
                  Inl e \<Rightarrow> Inl e
                | Inr hash \<Rightarrow> Inr (CHR ''$'' # hash)))
      | Inr _ \<Rightarrow> Inl ''event is not an object'')"

definition verify_pdu_content_hash :: "sodium \<Rightarrow> json \<Rightarrow> bool" where
  "verify_pdu_content_hash na event =
     (case event of
        JObject root \<Rightarrow>
          (case object_member root ''hashes'' of
             Some (JObject hashes_obj) \<Rightarrow>
               (case object_member hashes_obj ''sha256'' of
                  Some (JString claimed) \<Rightarrow>
                    if claimed = [] then False
                    else (case make_content_hash na event of
                       Inl _ \<Rightarrow> False
                     | Inr computed \<Rightarrow> if computed = [] then False else claimed = computed)
                | _ \<Rightarrow> False)
           | _ \<Rightarrow> False)
      | _ \<Rightarrow> False)"

section \<open>Unsigned data\<close>

definition without_unsigned :: "json \<Rightarrow> json" where
  "without_unsigned event =
     (case event of
        JObject object \<Rightarrow>
          if \<not> list_ex (\<lambda>(k, v). k = ''unsigned'') object then event
          else JObject (filter (\<lambda>(k, v). \<not> k = ''unsigned'') object)
      | _ \<Rightarrow> event)"

definition without_unsigned_json ::
    "yyjson_reader \<Rightarrow> c_library \<Rightarrow> byte_string \<Rightarrow> byte_string option" where
  "without_unsigned_json read_raw lib event_json =
     (if find_sub (CHR 0x22 # ''unsigned'' @ [CHR 0x22]) event_json = None then Some event_json
      else case parse_lossless read_raw event_json of
        Inr (JObject object) \<Rightarrow>
          if \<not> list_ex (\<lambda>(k, v). k = ''unsigned'') object then Some event_json
          else (case serialize_canonical lib (without_unsigned (JObject object)) of
            Inl _ \<Rightarrow> None
          | Inr serialized \<Rightarrow> Some serialized)
      | _ \<Rightarrow> None)"

section \<open>Event signatures\<close>

record signing_key_id =
  skid_server_name :: byte_string
  skid_key_id :: byte_string

definition clone_without_unsigned_and_signatures :: "json_object \<Rightarrow> json_object" where
  "clone_without_unsigned_and_signatures object =
     filter (\<lambda>(k, v). k \<noteq> ''unsigned'' \<and> k \<noteq> ''signatures'') object"

definition signature_is_valid_shape :: "sodium \<Rightarrow> byte_string \<Rightarrow> bool" where
  "signature_is_valid_shape na signature =
     (let decoded = matrix_bytes_from_base64 na signature in
      signature \<noteq> [] \<and> length signature \<le> 4096 \<and> contains_no_control_or_space signature \<and>
      ed25519_signature_shape_is_valid decoded)"

definition clone_signature_object :: "json option \<Rightarrow> json_object" where
  "clone_signature_object signatures_value =
     (case signatures_value of Some (JObject signatures) \<Rightarrow> signatures | _ \<Rightarrow> [])"

definition clone_server_signatures :: "json \<Rightarrow> json_object" where
  "clone_server_signatures server_value =
     (case server_value of JObject existing \<Rightarrow> existing | _ \<Rightarrow> [])"

fun upsert_server_signature :: "json_object \<Rightarrow> byte_string \<Rightarrow> byte_string \<Rightarrow> json_object" where
  "upsert_server_signature [] key_id signature = [(key_id, JString signature)]"
| "upsert_server_signature ((k, v) # ms) key_id signature =
     (if k = key_id then (k, JString signature) # ms
      else (k, v) # upsert_server_signature ms key_id signature)"

fun upsert_signature :: "json_object \<Rightarrow> signing_key_id \<Rightarrow> byte_string \<Rightarrow> json_object" where
  "upsert_signature [] key_id signature =
     [(skid_server_name key_id, JObject [(skid_key_id key_id, JString signature)])]"
| "upsert_signature ((k, v) # ms) key_id signature =
     (if k = skid_server_name key_id then
        (k, JObject (upsert_server_signature (clone_server_signatures v) (skid_key_id key_id) signature))
        # ms
      else (k, v) # upsert_signature ms key_id signature)"

definition signing_key_id_is_valid :: "signing_key_id \<Rightarrow> bool" where
  "signing_key_id_is_valid key_id \<longleftrightarrow>
     skid_server_name key_id \<noteq> [] \<and> contains_no_control_or_space (skid_server_name key_id) \<and>
     ed25519_key_id_is_valid (skid_key_id key_id)"

text \<open>\<open>make_event_signing_payload\<close>, without and with a room version.\<close>

definition make_event_signing_payload_raw :: "json \<Rightarrow> canonical_json_error + byte_string" where
  "make_event_signing_payload_raw event =
     (case event of
        JObject object \<Rightarrow>
          serialize_canonical_strict (JObject (clone_without_unsigned_and_signatures object))
      | _ \<Rightarrow> Inl Bad_string)"

definition make_event_signing_payload ::
    "json \<Rightarrow> room_version_policy \<Rightarrow> canonical_json_error + byte_string" where
  "make_event_signing_payload event policy =
     (case event of
        JObject object \<Rightarrow>
          (case redact_event event policy of
             Inr (JObject redacted_obj) \<Rightarrow>
               serialize_canonical_strict
                 (JObject (clone_without_unsigned_and_signatures redacted_obj))
           | _ \<Rightarrow> Inl Bad_string)
      | _ \<Rightarrow> Inl Bad_string)"

text \<open>The object \<open>attach_event_signature\<close> builds, and the function itself.\<close>

definition signed_object_of :: "json_object \<Rightarrow> signing_key_id \<Rightarrow> byte_string \<Rightarrow> json_object" where
  "signed_object_of object key_id signature =
     (let signatures_value = object_member object ''signatures'';
          signed_object = filter (\<lambda>(k, v). k \<noteq> ''signatures'') object;
          signatures = upsert_signature (clone_signature_object signatures_value) key_id signature
      in signed_object @ [(''signatures'', JObject signatures)])"

definition attach_event_signature ::
    "sodium \<Rightarrow> json \<Rightarrow> signing_key_id \<Rightarrow> byte_string \<Rightarrow> canonical_json_error + byte_string" where
  "attach_event_signature na event key_id signature =
     (if \<not> signing_key_id_is_valid key_id \<or> \<not> signature_is_valid_shape na signature then Inl Bad_string
      else case event of
        JObject object \<Rightarrow>
          serialize_canonical_strict (JObject (signed_object_of object key_id signature))
      | _ \<Rightarrow> Inl Bad_string)"

record signed_event_result =
  signed_json :: byte_string
  signed_server_name :: byte_string
  signed_key_id :: byte_string
  signed_signature :: byte_string
  signed_error :: byte_string

definition sign_event_for_server ::
    "sodium \<Rightarrow> json \<Rightarrow> room_version_policy \<Rightarrow> (byte_string \<Rightarrow> signing_key_record list)
      \<Rightarrow> ed25519_provider \<Rightarrow> byte_string \<Rightarrow> signed_event_result" where
  "sign_event_for_server na event policy key_store provider server_name =
     (case make_event_signing_payload event policy of
        Inl e \<Rightarrow> \<lparr>signed_json = [], signed_server_name = [], signed_key_id = [],
                  signed_signature = [], signed_error = canonical_json_error_name e\<rparr>
      | Inr payload \<Rightarrow>
          (case sign_for_server key_store provider server_name payload of
             Inl e \<Rightarrow> \<lparr>signed_json = [], signed_server_name = [], signed_key_id = [],
                       signed_signature = [], signed_error = e\<rparr>
           | Inr (name, key_id, signature) \<Rightarrow>
               (let encoded = matrix_base64_from_bytes na signature in
                if encoded = [] then
                  \<lparr>signed_json = [], signed_server_name = name, signed_key_id = key_id,
                   signed_signature = [], signed_error = ''signature base64 encoding failed''\<rparr>
                else case attach_event_signature na event
                            \<lparr>skid_server_name = name, skid_key_id = key_id\<rparr> encoded of
                  Inl e \<Rightarrow> \<lparr>signed_json = [], signed_server_name = name, signed_key_id = key_id,
                            signed_signature = encoded, signed_error = canonical_json_error_name e\<rparr>
                | Inr output \<Rightarrow> \<lparr>signed_json = output, signed_server_name = name,
                                  signed_key_id = key_id, signed_signature = encoded,
                                  signed_error = []\<rparr>)))"

definition verify_event_signature_presence ::
    "sodium \<Rightarrow> json \<Rightarrow> signing_key_id \<Rightarrow> verification" where
  "verify_event_signature_presence na event key_id =
     (if \<not> signing_key_id_is_valid key_id then (False, ''invalid signing key id'')
      else case event of
        JObject object \<Rightarrow>
          (case object_member object ''signatures'' of
             None \<Rightarrow> (False, ''missing signatures'')
           | Some (JObject signatures) \<Rightarrow>
               (case object_member signatures (skid_server_name key_id) of
                  None \<Rightarrow> (False, ''missing server signature'')
                | Some (JObject server_signatures) \<Rightarrow>
                    (case object_member server_signatures (skid_key_id key_id) of
                       None \<Rightarrow> (False, ''missing key signature'')
                     | Some (JString found_signature) \<Rightarrow>
                         if \<not> signature_is_valid_shape na found_signature
                         then (False, ''invalid signature'') else (True, [])
                     | Some _ \<Rightarrow> (False, ''invalid signature''))
                | Some _ \<Rightarrow> (False, ''server signatures must be an object''))
           | Some _ \<Rightarrow> (False, ''signatures must be an object''))
      | _ \<Rightarrow> (False, ''event must be an object''))"

text \<open>The encoded signature the second half of \<open>verify_event_signature\<close> looks up again.\<close>

definition event_signature_of :: "json \<Rightarrow> signing_key_id \<Rightarrow> byte_string option" where
  "event_signature_of event key_id =
     (case event of
        JObject object \<Rightarrow>
          (case object_member_as_object object ''signatures'' of
             None \<Rightarrow> None
           | Some signatures \<Rightarrow>
               (case object_member_as_object signatures (skid_server_name key_id) of
                  None \<Rightarrow> None
                | Some server_signatures \<Rightarrow> string_member server_signatures (skid_key_id key_id)))
      | _ \<Rightarrow> None)"

definition verify_event_signature ::
    "sodium \<Rightarrow> json \<Rightarrow> room_version_policy \<Rightarrow> signing_key_id \<Rightarrow> byte_string \<Rightarrow> ed25519_provider
      \<Rightarrow> verification" where
  "verify_event_signature na event policy key_id public_key provider =
     (let presence = verify_event_signature_presence na event key_id in
      if \<not> fst presence then presence
      else case event_signature_of event key_id of
        None \<Rightarrow> (False, ''missing key signature'')
      | Some encoded_signature \<Rightarrow>
          (let signature_bytes = matrix_bytes_from_base64 na encoded_signature in
           if \<not> ed25519_signature_shape_is_valid signature_bytes then (False, ''invalid signature'')
           else case make_event_signing_payload event policy of
             Inl e \<Rightarrow> (False, canonical_json_error_name e)
           | Inr payload \<Rightarrow>
               (let verified = provider_verify provider public_key payload signature_bytes in
                if \<not> fst verified then (False, snd verified) else (True, []))))"

section \<open>What signatures and unsigned data cannot change\<close>

lemma redact_members_append:
  "redact_members t o' p (xs @ ys) = redact_members t o' p xs @ redact_members t o' p ys"
  by (induction t o' p xs rule: redact_members.induct) simp_all

lemma filter_redact_members:
  "filter (\<lambda>(k, v). P k) (redact_members t o' p ms) = redact_members t o' p (filter (\<lambda>(k, v). P k) ms)"
  by (induction t o' p ms rule: redact_members.induct) (auto split: option.splits)

text \<open>The part of an event that its hashes and signatures cover.\<close>

definition covered :: "json_object \<Rightarrow> json_object" where
  "covered ms = filter (\<lambda>(k, v). k \<noteq> ''unsigned'' \<and> k \<noteq> ''signatures'') ms"

lemma covered_signed_object_of [simp]: "covered (signed_object_of ms key_id signature) = covered ms"
  by (auto simp: covered_def signed_object_of_def Let_def intro: filter_cong)

lemma covered_filter_unsigned [simp]: "covered (filter (\<lambda>(k, v). k \<noteq> ''unsigned'') ms) = covered ms"
  by (auto simp: covered_def intro: filter_cong)

lemma covered_type: "string_member (covered ms) ''type'' = string_member ms ''type''"
  by (simp add: string_member_def covered_def object_member_filter)

definition redacted_members :: "room_version_policy \<Rightarrow> json_object \<Rightarrow> json_object" where
  "redacted_members p ms =
     redact_members (string_member ms ''type'')
       (create_event_is_room_id p \<and> string_member ms ''type'' = Some ''m.room.create'') p ms"

lemma redact_event_object: "redact_event (JObject ms) p = Inr (JObject (redacted_members p ms))"
  by (simp add: redact_event_def Let_def redacted_members_def)

lemma covered_redacted: "covered (redacted_members p ms) = redacted_members p (covered ms)"
  unfolding redacted_members_def covered_type by (simp add: covered_def filter_redact_members)

lemma clone_without_eq_covered:
  "clone_without_fields ms [''signatures'', ''unsigned''] = covered ms"
  "clone_without_unsigned_and_signatures ms = covered ms"
  "clone_without_fields ms [''unsigned'', ''signatures'', ''hashes''] =
     filter (\<lambda>(k, v). k \<noteq> ''hashes'') (covered ms)"
  by (auto simp: clone_without_fields_def covered_def clone_without_unsigned_and_signatures_def
      intro: filter_cong)

lemma signing_payload_eq:
  "make_event_signing_payload (JObject ms) p =
     serialize_canonical_strict (JObject (redacted_members p (covered ms)))"
  by (simp add: make_event_signing_payload_def redact_event_object clone_without_eq_covered covered_redacted)

lemma content_hash_eq:
  "make_content_hash na (JObject ms) =
     (case serialize_canonical_strict (JObject (filter (\<lambda>(k, v). k \<noteq> ''hashes'') (covered ms))) of
        Inl e \<Rightarrow> Inl (canonical_json_error_name e)
      | Inr serialized \<Rightarrow> sha256_base64 na serialized False)"
  by (simp add: make_content_hash_def serialize_object_without_def clone_without_eq_covered)

lemma reference_hash_eq:
  "encoded_reference_hash na (JObject ms) p u =
     (case serialize_canonical_strict (JObject (redacted_members p (covered ms))) of
        Inl e \<Rightarrow> Inl (canonical_json_error_name e)
      | Inr serialized \<Rightarrow> sha256_base64 na serialized u)"
  by (simp add: encoded_reference_hash_def redact_event_object serialize_object_without_def
      clone_without_eq_covered covered_redacted)

lemma event_id_payload:
  "make_reference_hash_event_id na (JObject ms) p = Inr i \<longleftrightarrow>
     (\<exists>payload digest. make_event_signing_payload (JObject ms) p = Inr payload \<and> sodium_init_ok na \<and>
        hash_sha256 na payload = Some digest \<and>
        i = CHR ''$'' # bin2base64 na (event_id_url_safe_base64 p) digest)"
  by (auto simp: make_reference_hash_event_id_def reference_hash_eq signing_payload_eq sha256_base64_def
      split: sum.splits option.splits)

section \<open>Signing and verifying\<close>

lemma upsert_server_signature_lookup:
  "object_member (upsert_server_signature ms key_id s) k =
     (if k = key_id then Some (JString s) else object_member ms k)"
  by (induction ms key_id s rule: upsert_server_signature.induct) auto

lemma upsert_signature_lookup:
  "object_member (upsert_signature ms key_id s) server =
     (if server = skid_server_name key_id
      then Some (JObject (upsert_server_signature
        (case object_member ms server of None \<Rightarrow> [] | Some v \<Rightarrow> clone_server_signatures v)
        (skid_key_id key_id) s))
      else object_member ms server)"
  by (induction ms key_id s rule: upsert_signature.induct) auto

lemma signed_object_signatures:
  "object_member (signed_object_of ms key_id s) ''signatures'' =
     Some (JObject (upsert_signature (clone_signature_object (object_member ms ''signatures'')) key_id s))"
  by (simp add: signed_object_of_def Let_def object_member_append object_member_filter)

lemma signed_object_signature:
  "event_signature_of (JObject (signed_object_of ms key_id s)) key_id = Some s"
  by (simp add: event_signature_of_def object_member_as_object_def signed_object_signatures
      upsert_signature_lookup string_member_def upsert_server_signature_lookup)

lemma signed_object_presence:
  assumes "signing_key_id_is_valid key_id" "signature_is_valid_shape na s"
  shows "verify_event_signature_presence na (JObject (signed_object_of ms key_id s)) key_id = (True, [])"
  using assms
  by (simp add: verify_event_signature_presence_def signed_object_signatures upsert_signature_lookup
      upsert_server_signature_lookup)

lemma signed_object_verifies:
  assumes "signing_key_id_is_valid key_id" "signature_is_valid_shape na s"
    and "make_event_signing_payload (JObject ms) p = Inr payload"
    and "provider_verify provider public_key payload (matrix_bytes_from_base64 na s) = (True, e)"
  shows "verify_event_signature na (JObject (signed_object_of ms key_id s)) p key_id public_key provider =
    (True, [])"
proof -
  have "make_event_signing_payload (JObject (signed_object_of ms key_id s)) p = Inr payload"
    using assms(3) by (simp add: signing_payload_eq)
  moreover have "ed25519_signature_shape_is_valid (matrix_bytes_from_base64 na s)"
    using assms(2) by (simp add: signature_is_valid_shape_def Let_def)
  ultimately show ?thesis
    using assms(4)
    by (simp add: verify_event_signature_def Let_def signed_object_presence [OF assms(1,2)]
        signed_object_signature)
qed

lemma canonical_json_error_name_nonempty: "canonical_json_error_name e \<noteq> []"
  by (cases e) simp_all

lemma sign_with_keys_error:
  "sign_with_keys provider server_name message keys last_error \<noteq> Inl []"
  by (induction provider server_name message keys last_error rule: sign_with_keys.induct)
    (simp_all split: sum.splits)

lemma sign_for_server_error: "sign_for_server key_store provider server_name message \<noteq> Inl []"
  by (simp add: sign_for_server_def Let_def sign_with_keys_error)

lemma sign_event_for_server_ok:
  assumes "sign_event_for_server na event p key_store provider server_name = r" "signed_error r = []"
  obtains payload signature where "make_event_signing_payload event p = Inr payload"
    and "sign_for_server key_store provider server_name payload =
      Inr (signed_server_name r, signed_key_id r, signature)"
    and "signed_signature r = matrix_base64_from_bytes na signature"
    and "attach_event_signature na event
      \<lparr>skid_server_name = signed_server_name r, skid_key_id = signed_key_id r\<rparr> (signed_signature r) =
      Inr (signed_json r)"
proof (cases "make_event_signing_payload event p")
  case (Inl e)
  then show ?thesis
    using assms canonical_json_error_name_nonempty by (auto simp: sign_event_for_server_def)
next
  case (Inr payload)
  show ?thesis
  proof (cases "sign_for_server key_store provider server_name payload")
    case (Inl e)
    then show ?thesis
      using assms Inr sign_for_server_error [of key_store provider server_name payload]
      by (auto simp: sign_event_for_server_def)
  next
    case (Inr x)
    obtain name key_id signature where x: "x = (name, key_id, signature)"
      by (cases x)
    show ?thesis
    proof (rule that [of payload signature])
    qed (use assms Inr \<open>make_event_signing_payload event p = Inr payload\<close> x in
          \<open>auto simp: sign_event_for_server_def Let_def canonical_json_error_name_nonempty
            split: if_splits sum.splits\<close>)
  qed
qed

lemma base64_no_control: "list_all base64_char s \<Longrightarrow> contains_no_control_or_space s"
  by (auto simp: list_all_iff contains_no_control_or_space_def base64_char_def is_digit_byte
      is_upper_ascii_def is_lower_ascii_def char_range_def char_le_byte)

lemma encoded_signature_shape:
  assumes "sodium_correct na" "length signature = 64"
  shows "signature_is_valid_shape na (matrix_base64_from_bytes na signature)"
proof -
  have ne: "signature \<noteq> []"
    using assms(2) by auto
  then have "matrix_base64_from_bytes na signature = bin2base64 na False signature"
    using assms(1) by (simp add: matrix_base64_from_bytes_def sodium_correctD(1))
  then show ?thesis
    using assms ne sodium_correctD(5) [OF assms(1), of False signature]
      sodium_correctD(3) [OF assms(1), of False signature] base64_roundtrip [OF assms(1) ne]
    by (simp add: signature_is_valid_shape_def Let_def ed25519_signature_shape_is_valid_def
        base64_no_control sodium_correctD(4))
qed

lemma multi_key_sign:
  "provider_sign (runtime_multi_key_provider na secrets) key_id m = Inr s \<Longrightarrow>
     \<exists>secret. secrets key_id = Some secret \<and> sign_detached na secret m = Some s"
  by (auto simp: runtime_multi_key_provider_def split: option.splits if_splits)

section \<open>Bounded envelopes\<close>

lemma parse_server_signatures_bound:
  "parse_server_signatures server ms parsed = Some r \<Longrightarrow> length parsed \<le> max_signatures_per_event \<Longrightarrow>
     length r \<le> max_signatures_per_event"
  by (induction server ms parsed rule: parse_server_signatures.induct) (auto simp: Let_def split: if_splits)

lemma parse_signature_servers_bound:
  "parse_signature_servers ms parsed = Some r \<Longrightarrow> length parsed \<le> max_signatures_per_event \<Longrightarrow>
     length r \<le> max_signatures_per_event"
  by (induction ms parsed rule: parse_signature_servers.induct)
    (auto split: if_splits option.splits dest: parse_server_signatures_bound)

lemma parse_event_signatures_bound:
  "parse_event_signatures ms = Some r \<Longrightarrow> length r \<le> max_signatures_per_event"
  by (auto simp: parse_event_signatures_def split: option.splits if_splits
      dest: parse_signature_servers_bound)

section \<open>A concrete library\<close>

text \<open>A concrete library with the documented behaviour: two hexadecimal digits per byte.\<close>

fun hex_encode :: "byte_string \<Rightarrow> byte_string" where
  "hex_encode [] = []"
| "hex_encode (c # s) = hex_digit (byte_of c div 16) # hex_digit (byte_of c) # hex_encode s"

fun hex_decode :: "byte_string \<Rightarrow> byte_string" where
  "hex_decode (a # b # s) = char_of (16 * hex_value a + hex_value b) # hex_decode s"
| "hex_decode _ = []"

lemma hex_decode_encode: "hex_decode (hex_encode s) = s"
proof (induction s)
  case (Cons c s)
  have "byte_of c div 16 mod 16 = (byte_of c div 16 :: nat)"
    by (simp add: div_less_iff_less_mult)
  then show ?case
    using Cons by (simp add: hex_value_hex_digit)
qed simp

lemma hex_digit_base64: "base64_char (hex_digit n)"
proof -
  have n: "n AND 0x0F = n mod 16"
    using take_bit_eq_mask [of 4 n] by (simp add: take_bit_eq_mod mask_eq_exp_minus_1)
  have "list_all (\<lambda>m. base64_char (''0123456789abcdef'' ! m)) [0..<16]"
    by code_simp
  then show ?thesis
    unfolding hex_digit_def n by (simp add: list_all_iff)
qed

lemma hex_encode_base64: "list_all base64_char (hex_encode s)"
  by (induction s) (simp_all add: hex_digit_base64)

lemma hex_encode_length: "length (hex_encode s) = 2 * length s"
  by (induction s) simp_all

lemma hex_encode_Nil_iff: "hex_encode s = [] \<longleftrightarrow> s = []"
  by (cases s) simp_all

definition hex_sodium :: sodium where
  "hex_sodium =
     \<lparr>sodium_init_ok = True, hash_sha256 = (\<lambda>s. Some s), bin2base64 = (\<lambda>_ b. hex_encode b),
      base642bin = (\<lambda>s. Some (hex_decode s)),
      sign_detached = (\<lambda>sk m. Some (replicate 64 (CHR ''s''))),
      verify_detached = (\<lambda>pk m s. s = replicate 64 (CHR ''s'')),
      is_key_pair = (\<lambda>pk sk. pk = take 32 sk)\<rparr>"

lemma hex_sodium_correct: "sodium_correct hex_sodium"
  by (simp add: sodium_correct_def hex_sodium_def hex_decode_encode hex_encode_base64 hex_encode_length
      hex_encode_Nil_iff)

lemma hex_encode_inject: "hex_encode x = hex_encode y \<longleftrightarrow> x = y"
  by (metis hex_decode_encode)
lemma utf8_ascii: "list_all (\<lambda>c. byte_of c \<le> (0x7F::nat)) s \<Longrightarrow> utf8_is_valid s"
  by (induction s) simp_all

lemma base64_char_ascii: "base64_char c \<Longrightarrow> byte_of c \<le> (0x7F::nat)"
  by (auto simp: base64_char_def is_digit_byte is_upper_ascii_def is_lower_ascii_def char_range_def
      char_le_byte)

lemma utf8_base64: "list_all base64_char s \<Longrightarrow> utf8_is_valid s"
  using base64_char_ascii by (auto intro!: utf8_ascii simp: list_all_iff)

definition sample_secret :: byte_string where
  "sample_secret = replicate 64 (CHR ''k'')"

definition sample_secrets :: "byte_string \<rightharpoonup> byte_string" where
  "sample_secrets = [''ed25519:1'' \<mapsto> sample_secret]"

definition sample_keys :: "persistent_signing_key list" where
  "sample_keys = [\<lparr>stored_server_name = ''a.org'', stored_key_id = ''ed25519:1'',
     stored_public_key = hex_encode (replicate 32 (CHR ''k''))\<rparr>]"

definition sample_signed :: signed_event_result where
  "sample_signed = sign_event_for_server hex_sodium (JObject []) (default_policy ''11'')
     (active_keys_for_server hex_sodium ''a.org'' sample_keys)
     (runtime_multi_key_provider hex_sodium sample_secrets) ''a.org''"

lemma hex_sodium_decode: "s \<noteq> [] \<Longrightarrow> matrix_bytes_from_base64 hex_sodium (hex_encode s) = s"
  by (simp add: matrix_bytes_from_base64_def hex_sodium_def hex_encode_Nil_iff hex_decode_encode)

lemma sample_key_id_valid: "ed25519_key_id_is_valid ''ed25519:1''"
  by code_simp

lemma sample_payload: "make_event_signing_payload (JObject []) (default_policy ''11'') = Inr ''{}''"
  by code_simp

lemma sample_signature:
  "sign_for_server (active_keys_for_server hex_sodium ''a.org'' sample_keys)
     (runtime_multi_key_provider hex_sodium sample_secrets) ''a.org'' m =
   Inr (''a.org'', ''ed25519:1'', replicate 64 (CHR ''s''))"
  by (simp add: sign_for_server_def active_keys_for_server_def sample_keys_def hex_sodium_decode
      hex_encode_Nil_iff signing_key_record_is_usable_def sample_key_id_valid
      ed25519_public_key_shape_is_valid_def runtime_multi_key_provider_def sample_secret_def
      ed25519_secret_key_bytes_def sample_secrets_def)
     (simp add: hex_sodium_def ed25519_signature_shape_is_valid_def)

lemma sample_encoded:
  "matrix_base64_from_bytes hex_sodium (replicate 64 (CHR ''s'')) = hex_encode (replicate 64 (CHR ''s''))"
  by (simp add: matrix_base64_from_bytes_def hex_sodium_def)

lemma sample_attach:
  "\<exists>out. attach_event_signature hex_sodium (JObject [])
     \<lparr>skid_server_name = ''a.org'', skid_key_id = ''ed25519:1''\<rparr> (hex_encode (replicate 64 (CHR ''s''))) = Inr out"
proof -
  have "signature_is_valid_shape hex_sodium (hex_encode (replicate 64 (CHR ''s'')))"
    using encoded_signature_shape [OF hex_sodium_correct, of "replicate 64 (CHR ''s'')"] sample_encoded by simp
  moreover have "signing_key_id_is_valid \<lparr>skid_server_name = ''a.org'', skid_key_id = ''ed25519:1''\<rparr>"
    by code_simp
  moreover have "canonical_ok (JObject (signed_object_of []
      \<lparr>skid_server_name = ''a.org'', skid_key_id = ''ed25519:1''\<rparr> (hex_encode (replicate 64 (CHR ''s'')))))"
    by (simp add: signed_object_of_def clone_signature_object_def utf8_base64 hex_encode_base64)
  ultimately show ?thesis
    by (simp add: attach_event_signature_def serialize_strict_iff)
qed

section \<open>Properties\<close>

text \<open>
  C12: neither adding a signature to an event nor removing its \<open>unsigned\<close> data changes its content hash,
  its reference hash, its event id or the bytes other servers sign: a server may countersign a received
  event, and strip its unsigned data, without changing its identity.
\<close>

theorem event_identity_stable:
  "let event = JObject ms; countersigned = JObject (signed_object_of ms key_id s);
       stripped = without_unsigned (JObject ms) in
    make_content_hash na countersigned = make_content_hash na event \<and>
    make_reference_hash na countersigned p = make_reference_hash na event p \<and>
    make_reference_hash_event_id na countersigned p = make_reference_hash_event_id na event p \<and>
    make_event_signing_payload countersigned p = make_event_signing_payload event p \<and>
    make_content_hash na stripped = make_content_hash na event \<and>
    make_reference_hash na stripped p = make_reference_hash na event p \<and>
    make_reference_hash_event_id na stripped p = make_reference_hash_event_id na event p \<and>
    make_event_signing_payload stripped p = make_event_signing_payload event p"
proof -
  have "\<exists>ms'. without_unsigned (JObject ms) = JObject ms' \<and> covered ms' = covered ms"
    by (simp add: without_unsigned_def)
  then obtain ms' where "without_unsigned (JObject ms) = JObject ms'" "covered ms' = covered ms"
    by blast
  then show ?thesis
    by (simp add: Let_def make_reference_hash_def make_reference_hash_event_id_def content_hash_eq
        reference_hash_eq signing_payload_eq)
qed

text \<open>
  C11: an event this server signs with one of its stored keys verifies on any server that has the
  matching public key, against the event with the signature attached, whose canonical JSON is the bytes
  returned. libsodium is a parameter with its documented behaviour as hypothesis, and the stored public keys
  and the held secrets are key pairs.
\<close>

theorem sign_then_verify:
  assumes na: "sodium_correct na"
    and signed: "sign_event_for_server na (JObject ms) p (active_keys_for_server na name stored)
      (runtime_multi_key_provider na secrets) name = r" "signed_error r = []"
    and keys: "\<forall>k \<in> set stored. \<forall>secret. secrets (stored_key_id k) = Some secret \<longrightarrow>
      is_key_pair na (matrix_bytes_from_base64 na (stored_public_key k)) secret"
  shows "\<exists>event k. k \<in> set stored \<and> stored_key_id k = signed_key_id r \<and>
    serialize_canonical_strict event = Inr (signed_json r) \<and>
    verify_event_signature na event p
      \<lparr>skid_server_name = signed_server_name r, skid_key_id = signed_key_id r\<rparr>
      (matrix_bytes_from_base64 na (stored_public_key k)) (runtime_multi_key_provider na secrets) =
      (True, [])"
proof -
  let ?provider = "runtime_multi_key_provider na secrets"
  let ?id = "\<lparr>skid_server_name = signed_server_name r, skid_key_id = signed_key_id r\<rparr>"
  obtain payload signature where payload: "make_event_signing_payload (JObject ms) p = Inr payload"
    and sign: "sign_for_server (active_keys_for_server na name stored) ?provider name payload =
      Inr (signed_server_name r, signed_key_id r, signature)"
    and encoded: "signed_signature r = matrix_base64_from_bytes na signature"
    and attach: "attach_event_signature na (JObject ms) ?id (signed_signature r) = Inr (signed_json r)"
    using sign_event_for_server_ok [OF signed] by metis
  obtain key where key: "key \<in> set (active_keys_for_server na name stored name)"
    "signing_key_record_is_usable key" "signed_key_id r = key_key_id key"
    "provider_sign ?provider (signed_key_id r) payload = Inr signature"
    using sign_for_server_Inr [OF sign] by auto
  obtain k where k: "k \<in> set stored" "stored_key_id k = key_key_id key"
    "matrix_bytes_from_base64 na (stored_public_key k) = key_public_key key"
    using key(1) collect_active_keys_stored by (force simp: active_keys_for_server_def split: if_splits)
  obtain secret where secret: "secrets (signed_key_id r) = Some secret"
    "sign_detached na secret payload = Some signature"
    using multi_key_sign [OF key(4)] by blast
  have pk: "is_key_pair na (matrix_bytes_from_base64 na (stored_public_key k)) secret"
    using keys k(1,2) key(3) secret(1) by simp
  have len: "length signature = 64"
    using sodium_correctD(6) [OF na secret(2)] .
  then have "signature \<noteq> []"
    by auto
  then have decoded: "matrix_bytes_from_base64 na (signed_signature r) = signature"
    using base64_roundtrip [OF na] encoded by simp
  have "provider_verify ?provider (matrix_bytes_from_base64 na (stored_public_key k)) payload
      (matrix_bytes_from_base64 na (signed_signature r)) = (True, [])"
    using key(2) k(3) len sodium_correctD(7) [OF na pk secret(2)]
    by (simp add: decoded runtime_multi_key_provider_def ed25519_verify_def Let_def
        signing_key_record_is_usable_def ed25519_signature_shape_is_valid_def)
  moreover have "signing_key_id_is_valid ?id" "signature_is_valid_shape na (signed_signature r)"
    and "serialize_canonical_strict (JObject (signed_object_of ms ?id (signed_signature r))) =
      Inr (signed_json r)"
    using attach by (auto simp: attach_event_signature_def split: if_splits)
  ultimately show ?thesis
    using signed_object_verifies [OF _ _ payload] k(1,2) key(3) by metis
qed

theorem sign_then_verify_witness:
  "signed_error sample_signed = [] \<and> signed_key_id sample_signed = ''ed25519:1'' \<and>
   (\<exists>event k. k \<in> set sample_keys \<and> stored_key_id k = signed_key_id sample_signed \<and>
     serialize_canonical_strict event = Inr (signed_json sample_signed) \<and>
     verify_event_signature hex_sodium event (default_policy ''11'')
       \<lparr>skid_server_name = signed_server_name sample_signed, skid_key_id = signed_key_id sample_signed\<rparr>
       (matrix_bytes_from_base64 hex_sodium (stored_public_key k))
       (runtime_multi_key_provider hex_sodium sample_secrets) = (True, []))"
proof -
  have e: "signed_error sample_signed = []" "signed_key_id sample_signed = ''ed25519:1''"
    using sample_attach
    by (auto simp: sample_signed_def sign_event_for_server_def sample_payload sample_signature
        sample_encoded hex_encode_Nil_iff Let_def)
  have k: "\<forall>k \<in> set sample_keys. \<forall>secret.
      sample_secrets (stored_key_id k) = Some secret \<longrightarrow>
      is_key_pair hex_sodium (matrix_bytes_from_base64 hex_sodium (stored_public_key k)) secret"
    by (simp add: sample_keys_def sample_secrets_def sample_secret_def hex_sodium_decode) (simp add: hex_sodium_def)
  show ?thesis
    using sign_then_verify [OF hex_sodium_correct sample_signed_def [symmetric] e(1) k] e by blast
qed

text \<open>
  C3: an event id binds the event. If two events have the same id in a room version, and the hash and
  the encoding do not collide on their two payloads, then their redacted forms without \<open>signatures\<close> and
  \<open>unsigned\<close> are equal up to member order.
\<close>

theorem event_id_binds_event:
  assumes "make_reference_hash_event_id na (JObject ms) p = Inr i"
    and "make_reference_hash_event_id na (JObject ms') p = Inr i"
    and no_collision: "\<And>x y dx dy. \<lbrakk>make_event_signing_payload (JObject ms) p = Inr x;
      make_event_signing_payload (JObject ms') p = Inr y; hash_sha256 na x = Some dx;
      hash_sha256 na y = Some dy;
      bin2base64 na (event_id_url_safe_base64 p) dx = bin2base64 na (event_id_url_safe_base64 p) dy\<rbrakk> \<Longrightarrow> x = y"
  shows "\<exists>rs rs'. redact_event (JObject ms) p = Inr (JObject rs) \<and>
    redact_event (JObject ms') p = Inr (JObject rs') \<and>
    canonical_form (JObject (clone_without_unsigned_and_signatures rs)) =
    canonical_form (JObject (clone_without_unsigned_and_signatures rs'))"
proof -
  obtain x dx where x: "make_event_signing_payload (JObject ms) p = Inr x" "hash_sha256 na x = Some dx"
    "i = CHR ''$'' # bin2base64 na (event_id_url_safe_base64 p) dx"
    using assms(1) unfolding event_id_payload by blast
  obtain y dy where y: "make_event_signing_payload (JObject ms') p = Inr y" "hash_sha256 na y = Some dy"
    "i = CHR ''$'' # bin2base64 na (event_id_url_safe_base64 p) dy"
    using assms(2) unfolding event_id_payload by blast
  have "x = y"
    using no_collision [OF x(1) y(1) x(2) y(2)] x(3) y(3) by simp
  then have "canonical_form (JObject (redacted_members p (covered ms))) =
      canonical_form (JObject (redacted_members p (covered ms')))"
    using x(1) y(1) serialize_strict_inject unfolding signing_payload_eq by blast
  then show ?thesis
    by (simp add: redact_event_object clone_without_eq_covered covered_redacted)
qed

theorem event_id_binds_event_witness:
  "make_reference_hash_event_id hex_sodium (JObject [(''type'', JString ''m'')]) (default_policy ''11'') =
     make_reference_hash_event_id hex_sodium (JObject [(''type'', JString ''m''), (''unsigned'', JNull)])
       (default_policy ''11'') \<and>
   (\<exists>rs rs'. redact_event (JObject [(''type'', JString ''m'')]) (default_policy ''11'') = Inr (JObject rs) \<and>
     redact_event (JObject [(''type'', JString ''m''), (''unsigned'', JNull)]) (default_policy ''11'') =
       Inr (JObject rs') \<and>
     canonical_form (JObject (clone_without_unsigned_and_signatures rs)) =
     canonical_form (JObject (clone_without_unsigned_and_signatures rs')))"
proof -
  let ?i = "CHR ''$'' # hex_encode (CHR ''{'' # CHR 0x22 # ''type'' @ [CHR 0x22, CHR '':'', CHR 0x22, CHR ''m'', CHR 0x22, CHR ''}''])"
  have a: "make_reference_hash_event_id hex_sodium (JObject [(''type'', JString ''m'')]) (default_policy ''11'') = Inr ?i"
    by code_simp
  have b: "make_reference_hash_event_id hex_sodium (JObject [(''type'', JString ''m''), (''unsigned'', JNull)])
       (default_policy ''11'') = Inr ?i"
    by code_simp
  have inj: "x = y" if "hash_sha256 hex_sodium x = Some dx" "hash_sha256 hex_sodium y = Some dy"
    "bin2base64 hex_sodium u dx = bin2base64 hex_sodium u dy" for x y dx dy u
    using that by (simp add: hex_sodium_def hex_encode_inject)
  show ?thesis
    using event_id_binds_event [OF a b inj] a b by auto
qed

text \<open>
  C13: an accepted envelope is bounded: its room id, sender, type and state key are within 255 bytes
  with the right sigil and no control characters, its timestamp is not negative and it carries at most
  5000 signatures.
\<close>

theorem parse_event_envelope_bounds:
  assumes "parse_event_envelope json = Inr event"
  shows "env_json event = json \<and> matrix_id_is_valid (env_sender event) (CHR ''@'') \<and>
    event_type_is_valid (env_event_type event) \<and> 0 \<le> env_origin_server_ts event \<and>
    (matrix_id_is_valid (env_room_id event) (CHR ''!'') \<or>
     env_room_id event = [] \<and> env_event_type event = ''m.room.create'') \<and>
    length (env_state_key event) \<le> 255 \<and> CHR 0x00 \<notin> set (env_state_key event) \<and>
    length (env_signatures event) \<le> 5000"
proof -
  have nul: "\<not> state_key_contains_nul s \<Longrightarrow> CHR 0x00 \<notin> set s" for s
    by (simp add: state_key_contains_nul_def find_char_None)
  obtain ms where ms: "json = JObject ms"
    using assms by (cases json) (simp_all add: parse_event_envelope_def)
  obtain t where t: "string_member ms ''type'' = Some t"
    using assms ms by (cases "string_member ms ''type''") (simp_all add: parse_event_envelope_def)
  obtain sender where sender: "string_member ms ''sender'' = Some sender"
    using assms ms t by (cases "string_member ms ''sender''") (simp_all add: parse_event_envelope_def)
  obtain ts where ts: "integer_member ms ''origin_server_ts'' = Some ts"
    using assms ms t sender
    by (cases "integer_member ms ''origin_server_ts''") (simp_all add: parse_event_envelope_def)
  obtain sigs where sigs: "parse_event_signatures ms = Some sigs"
    using assms ms t sender ts
    by (cases "parse_event_signatures ms") (simp_all add: parse_event_envelope_def Let_def split: if_splits)
  have "length sigs \<le> 5000"
    using parse_event_signatures_bound [OF sigs] by (simp add: max_signatures_per_event_def)
  then show ?thesis
    using assms ms t sender ts sigs
    by (cases "string_member ms ''room_id''"; cases "string_member ms ''state_key''")
      (auto simp: parse_event_envelope_def Let_def max_state_key_length_bytes_def nul split: if_splits)
qed

theorem parse_event_envelope_bounds_witness:
  "parse_event_envelope (JObject [(''type'', JString ''m.room.create''), (''sender'', JString ''@a:b''),
      (''origin_server_ts'', JInt 5)]) =
     Inr \<lparr>env_json = JObject [(''type'', JString ''m.room.create''), (''sender'', JString ''@a:b''),
           (''origin_server_ts'', JInt 5)], env_room_id = [], env_event_type = ''m.room.create'',
         env_sender = ''@a:b'', env_state_key = [], env_origin_server_ts = 5, env_signatures = []\<rparr> \<and>
   matrix_id_is_valid ''@a:b'' (CHR ''@'')"
proof -
  have p: "parse_event_envelope (JObject [(''type'', JString ''m.room.create''), (''sender'', JString ''@a:b''),
      (''origin_server_ts'', JInt 5)]) =
     Inr \<lparr>env_json = JObject [(''type'', JString ''m.room.create''), (''sender'', JString ''@a:b''),
           (''origin_server_ts'', JInt 5)], env_room_id = [], env_event_type = ''m.room.create'',
         env_sender = ''@a:b'', env_state_key = [], env_origin_server_ts = 5, env_signatures = []\<rparr>"
    by code_simp
  show ?thesis
    using parse_event_envelope_bounds [OF p] p by simp
qed

end
