(* ===== verification/Authorization.thy ===== *)
theory Authorization
  imports Events
begin

text \<open>
  The event authorization rules, \<open>src/src/events/authorization.cpp\<close>: the decision
  \<open>authorize_event_against_auth_events\<close> takes for an event, a room version and the auth events its
  sender's power and membership are read from. The rules the source numbers are kept apart as one
  definition each, in the order the function runs them; every early return is a branch. The logging in
  \<open>make_denied\<close> is left out.
\<close>

section \<open>Decisions and the auth event map\<close>

record event_authorization_decision =
  allowed :: bool
  rule_hook :: byte_string
  rule_step :: byte_string
  reason :: byte_string

text \<open>An absent auth event is the null value, as in the struct's defaults.\<close>

record auth_event_map =
  auth_create :: json
  auth_create_event_id :: byte_string
  auth_power_levels :: json
  auth_join_rules :: json
  auth_sender_member :: json
  auth_target_member :: json
  auth_authorising_user_member :: json
  auth_third_party_invite :: json

definition empty_auth_event_map :: auth_event_map where
  "empty_auth_event_map =
     \<lparr>auth_create = JNull, auth_create_event_id = [], auth_power_levels = JNull, auth_join_rules = JNull,
      auth_sender_member = JNull, auth_target_member = JNull, auth_authorising_user_member = JNull,
      auth_third_party_invite = JNull\<rparr>"

datatype membership_state =
  Membership_leave | Membership_invite | Membership_join | Membership_ban | Membership_knock
  | Membership_restricted

datatype power_level_encoding_t =
  Pl_integers | Pl_integers_or_strings | Pl_integers_strings_or_floats

definition make_denied :: "byte_string \<Rightarrow> byte_string \<Rightarrow> event_authorization_decision" where
  "make_denied step why = \<lparr>allowed = False, rule_hook = [], rule_step = step, reason = why\<rparr>"

definition make_allowed :: "byte_string \<Rightarrow> event_authorization_decision" where
  "make_allowed step = \<lparr>allowed = True, rule_hook = [], rule_step = step, reason = []\<rparr>"

section \<open>Reading events\<close>

definition value_is_object :: "json \<Rightarrow> json_object option" where
  "value_is_object value = (case value of JObject ms \<Rightarrow> Some ms | _ \<Rightarrow> None)"

definition value_has_content :: "json \<Rightarrow> bool" where
  "value_has_content value \<longleftrightarrow> value \<noteq> JNull"

text \<open>The first member named \<open>server_name\<close> decides.\<close>

fun server_signature_present :: "byte_string \<Rightarrow> json_object \<Rightarrow> bool" where
  "server_signature_present server_name [] = False"
| "server_signature_present server_name ((k, v) # rest) =
     (if k = server_name then
        (case v of
           JObject server_signatures \<Rightarrow>
             list_ex (\<lambda>(key, value). case value of JString s \<Rightarrow> s \<noteq> [] | _ \<Rightarrow> False) server_signatures
         | _ \<Rightarrow> False)
      else server_signature_present server_name rest)"

definition event_has_signature_from_server :: "json \<Rightarrow> byte_string \<Rightarrow> bool" where
  "event_has_signature_from_server event server_name =
     (case value_is_object event of
        None \<Rightarrow> False
      | Some obj \<Rightarrow>
          if server_name = [] then False
          else (case object_member obj ''signatures'' of
             Some (JObject signatures) \<Rightarrow> server_signature_present server_name signatures
           | _ \<Rightarrow> False))"

definition event_content :: "json \<Rightarrow> json_object option" where
  "event_content event =
     (case value_is_object event of
        None \<Rightarrow> None
      | Some obj \<Rightarrow> object_member_as_object obj ''content'')"

definition event_content_string :: "json \<Rightarrow> byte_string \<Rightarrow> byte_string option" where
  "event_content_string event key =
     (case event_content event of None \<Rightarrow> None | Some content \<Rightarrow> string_member content key)"

section \<open>Power levels\<close>

definition pl_whitespace :: "char \<Rightarrow> bool" where
  "pl_whitespace c \<longleftrightarrow>
     c = CHR 0x20 \<or> c = CHR 0x09 \<or> c = CHR 0x0A \<or> c = CHR 0x0D \<or> c = CHR 0x0C \<or> c = CHR 0x0B"

definition power_level_text :: "byte_string \<Rightarrow> int option" where
  "power_level_text text =
     (if text = [] then None
      else
        let trimmed = rev (dropWhile pl_whitespace (rev (dropWhile pl_whitespace text))) in
        if trimmed = [] then None
        else
          let plus = (hd trimmed = CHR ''+'');
              token = (if plus then tl trimmed else trimmed) in
          if plus \<and> (token = [] \<or> hd token < CHR ''0'' \<or> CHR ''9'' < hd token) then None
          else case from_chars_int64 token of (errc, consumed, parsed) \<Rightarrow>
            if errc \<noteq> Errc_ok \<or> consumed \<noteq> length token then None else Some parsed)"

definition power_level_value :: "json option \<Rightarrow> power_level_encoding_t \<Rightarrow> int option" where
  "power_level_value value encoding =
     (case value of
        None \<Rightarrow> None
      | Some (JInt i) \<Rightarrow> Some i
      | Some v \<Rightarrow>
          if encoding = Pl_integers then None
          else (case v of
             JDouble number \<Rightarrow>
               if encoding \<noteq> Pl_integers_strings_or_floats \<or> \<not> double_isfinite number then None
               else let truncated = double_trunc number in
                 if truncated < - (2 ^ 63) \<or> 2 ^ 63 \<le> truncated then None else Some truncated
           | JString text \<Rightarrow> power_level_text text
           | _ \<Rightarrow> None))"

definition power_level_member ::
    "json_object \<Rightarrow> byte_string \<Rightarrow> power_level_encoding_t \<Rightarrow> int option" where
  "power_level_member object key encoding = power_level_value (object_member object key) encoding"

definition extract_user_level_from_users ::
    "json_object \<Rightarrow> byte_string \<Rightarrow> power_level_encoding_t \<Rightarrow> int option" where
  "extract_user_level_from_users users_object user_id encoding =
     power_level_member users_object user_id encoding"

definition membership_at_least_one_of :: "membership_state \<Rightarrow> membership_state list \<Rightarrow> bool" where
  "membership_at_least_one_of current required = list_ex (\<lambda>m. current = m) required"

definition array_contains_string :: "json \<Rightarrow> byte_string \<Rightarrow> bool" where
  "array_contains_string value needle =
     (case value of
        JArray elements \<Rightarrow>
          list_ex (\<lambda>element. case element of JString text \<Rightarrow> text = needle | _ \<Rightarrow> False) elements
      | _ \<Rightarrow> False)"

definition power_level_encoding :: "room_version_policy \<Rightarrow> power_level_encoding_t" where
  "power_level_encoding policy =
     (if power_levels_require_integers policy then Pl_integers
      else if power_levels_accept_floats policy then Pl_integers_strings_or_floats
      else Pl_integers_or_strings)"

definition decode_power_level :: "json \<Rightarrow> power_level_encoding_t \<Rightarrow> int option" where
  "decode_power_level value encoding = power_level_value (Some value) encoding"

definition extract_power_level_key ::
    "json \<Rightarrow> byte_string \<Rightarrow> int \<Rightarrow> power_level_encoding_t \<Rightarrow> int" where
  "extract_power_level_key power_levels_event key default_value encoding =
     (case value_is_object power_levels_event of
        None \<Rightarrow> default_value
      | Some obj \<Rightarrow>
          (case object_member_as_object obj ''content'' of
             None \<Rightarrow> default_value
           | Some content \<Rightarrow>
               (case power_level_member content key encoding of
                  Some level \<Rightarrow> level
                | None \<Rightarrow> default_value)))"

definition extract_user_power_level :: "json \<Rightarrow> byte_string \<Rightarrow> power_level_encoding_t \<Rightarrow> int" where
  "extract_user_power_level power_levels_event user_id encoding =
     (case value_is_object power_levels_event of
        None \<Rightarrow> 0
      | Some obj \<Rightarrow>
          (case object_member_as_object obj ''content'' of
             None \<Rightarrow> 0
           | Some content \<Rightarrow>
               (let default_level =
                      extract_power_level_key power_levels_event ''users_default'' 0 encoding
                in case object_member_as_object content ''users'' of
                     None \<Rightarrow> default_level
                   | Some users \<Rightarrow>
                       (case extract_user_level_from_users users user_id encoding of
                          Some user_level \<Rightarrow> user_level
                        | None \<Rightarrow> default_level))))"

section \<open>Room creators\<close>

definition user_is_room_creator :: "json \<Rightarrow> byte_string \<Rightarrow> room_version_policy \<Rightarrow> bool" where
  "user_is_room_creator create_event user_id policy =
     (if \<not> privilege_room_creators policy then False
      else case value_is_object create_event of
        None \<Rightarrow> False
      | Some obj \<Rightarrow>
          if string_member obj ''sender'' = Some user_id then True
          else (case object_member_as_object obj ''content'' of
             None \<Rightarrow> False
           | Some content \<Rightarrow>
               (case object_member content ''additional_creators'' of
                  None \<Rightarrow> False
                | Some additional \<Rightarrow> array_contains_string additional user_id)))"

text \<open>\<open>std::numeric_limits<std::int64_t>::max()\<close>.\<close>

definition creator_power :: int where
  "creator_power = 2 ^ 63 - 1"

definition room_creator_user_id :: "json \<Rightarrow> room_version_policy \<Rightarrow> byte_string" where
  "room_creator_user_id create_event policy =
     (if redaction_rules_of policy \<noteq> Redaction_room_v11_plus then
        (case event_content_string create_event ''creator'' of None \<Rightarrow> [] | Some creator \<Rightarrow> creator)
      else case value_is_object create_event of
        None \<Rightarrow> []
      | Some obj \<Rightarrow> (case string_member obj ''sender'' of None \<Rightarrow> [] | Some sender \<Rightarrow> sender))"

definition sole_prev_event_is_create ::
    "json \<Rightarrow> auth_event_map \<Rightarrow> room_version_policy \<Rightarrow> bool" where
  "sole_prev_event_is_create event auth_events policy =
     (case value_is_object event of
        None \<Rightarrow> False
      | Some obj \<Rightarrow>
          (case object_member obj ''prev_events'' of
             Some (JArray [JString prev_event]) \<Rightarrow>
               if prev_event = [] then False
               else if create_event_is_room_id policy then
                 (case string_member obj ''room_id'' of
                    None \<Rightarrow> False
                  | Some room_id \<Rightarrow>
                      if length room_id < 2 \<or> hd room_id \<noteq> CHR ''!'' then False
                      else hd prev_event = CHR ''$'' \<and> tl prev_event = tl room_id)
               else
                 auth_create_event_id auth_events \<noteq> [] \<and>
                 prev_event = auth_create_event_id auth_events
           | _ \<Rightarrow> False))"

definition effective_sender_power ::
    "json \<Rightarrow> byte_string \<Rightarrow> json \<Rightarrow> room_version_policy \<Rightarrow> int" where
  "effective_sender_power power_levels sender create_event policy =
     (if user_is_room_creator create_event sender policy then creator_power
      else if value_has_content power_levels
      then extract_user_power_level power_levels sender (power_level_encoding policy)
      else let creator = room_creator_user_id create_event policy in
        if creator \<noteq> [] \<and> sender = creator then 100 else 0)"

section \<open>Third-party invites\<close>

definition collect_third_party_invite_public_keys :: "json \<Rightarrow> byte_string list" where
  "collect_third_party_invite_public_keys third_party_invite_event =
     (case event_content third_party_invite_event of
        None \<Rightarrow> []
      | Some content \<Rightarrow>
          (case string_member content ''public_key'' of None \<Rightarrow> [] | Some single_key \<Rightarrow> [single_key]) @
          (case object_member content ''public_keys'' of
             Some (JArray entries) \<Rightarrow>
               List.map_filter
                 (\<lambda>entry. case value_is_object entry of
                    None \<Rightarrow> None
                  | Some entry_obj \<Rightarrow> string_member entry_obj ''public_key'') entries
           | _ \<Rightarrow> []))"

definition signature_matches_key ::
    "sodium \<Rightarrow> byte_string \<Rightarrow> byte_string \<Rightarrow> byte_string \<Rightarrow> bool" where
  "signature_matches_key na payload signature public_key_b64 =
     (let public_key = matrix_bytes_from_base64 na public_key_b64 in
      ed25519_public_key_shape_is_valid public_key \<and> fst (ed25519_verify na public_key payload signature))"

definition third_party_invite_signature_is_valid :: "sodium \<Rightarrow> json_object \<Rightarrow> json \<Rightarrow> bool" where
  "third_party_invite_signature_is_valid na signed_obj third_party_invite_event =
     (case object_member signed_obj ''signatures'' of
        Some (JObject signatures) \<Rightarrow>
          (let candidate_keys = collect_third_party_invite_public_keys third_party_invite_event in
           if candidate_keys = [] then False
           else case make_event_signing_payload_raw (JObject signed_obj) of
             Inl _ \<Rightarrow> False
           | Inr payload \<Rightarrow>
               list_ex (\<lambda>(server, entry). case value_is_object entry of
                   None \<Rightarrow> False
                 | Some key_signatures \<Rightarrow>
                     list_ex (\<lambda>(key, value). case value of
                         JString signature_b64 \<Rightarrow>
                           (let signature = matrix_bytes_from_base64 na signature_b64 in
                            ed25519_signature_shape_is_valid signature \<and>
                            list_ex (signature_matches_key na payload signature) candidate_keys)
                       | _ \<Rightarrow> False) key_signatures) signatures)
      | _ \<Rightarrow> False)"

definition authorize_third_party_invite ::
    "sodium \<Rightarrow> json \<Rightarrow> byte_string \<Rightarrow> byte_string \<Rightarrow> membership_state \<Rightarrow> json
      \<Rightarrow> event_authorization_decision" where
  "authorize_third_party_invite na third_party_invite_content state_key sender
     target_current_membership third_party_invite_event =
     (if target_current_membership = Membership_ban
      then make_denied ''6'' ''banned user cannot accept a third-party invite''
      else case (case value_is_object third_party_invite_content of
                   None \<Rightarrow> None
                 | Some tpi_obj \<Rightarrow> object_member_as_object tpi_obj ''signed'') of
        None \<Rightarrow> make_denied ''6'' ''third_party_invite missing signed property''
      | Some signed_obj \<Rightarrow>
          (case (string_member signed_obj ''mxid'', string_member signed_obj ''token'') of
             (Some mxid, Some token) \<Rightarrow>
               if mxid \<noteq> state_key
               then make_denied ''6'' ''third_party_invite signed mxid does not match state_key''
               else (case value_is_object third_party_invite_event of
                  None \<Rightarrow> make_denied ''6'' ''no matching m.room.third_party_invite event for token''
                | Some tpi_event_obj \<Rightarrow>
                    if string_member tpi_event_obj ''state_key'' \<noteq> Some token
                    then make_denied ''6'' ''no matching m.room.third_party_invite event for token''
                    else if string_member tpi_event_obj ''sender'' \<noteq> Some sender
                    then make_denied ''6'' ''sender does not match m.room.third_party_invite sender''
                    else if \<not> third_party_invite_signature_is_valid na signed_obj third_party_invite_event
                    then make_denied ''6'' ''third_party_invite signature does not match any public key''
                    else make_allowed ''6'')
           | _ \<Rightarrow> make_denied ''6'' ''third_party_invite signed is missing mxid or token''))"

section \<open>Rule 9: power level content\<close>

definition scalar_power_level_keys :: "byte_string list" where
  "scalar_power_level_keys =
     [''users_default'', ''events_default'', ''state_default'', ''ban'', ''redact'', ''kick'', ''invite'']"

definition is_structurally_invalid :: "char \<Rightarrow> bool" where
  "is_structurally_invalid c \<longleftrightarrow> byte_of c \<le> (0x20::nat) \<or> byte_of c = (0x7F::nat)"

definition user_id_is_well_formed :: "byte_string \<Rightarrow> bool" where
  "user_id_is_well_formed user_id =
     (if length user_id < 3 \<or> 255 < length user_id \<or> hd user_id \<noteq> CHR ''@'' then False
      else case find_char (CHR '':'') user_id of
        None \<Rightarrow> False
      | Some separator \<Rightarrow>
          if length user_id \<le> separator + 1 then False
          else
            let localpart = take (separator - 1) (drop 1 user_id);
                server_name = drop (separator + 1) user_id in
            if list_ex is_structurally_invalid localpart \<or> list_ex is_structurally_invalid server_name
            then False
            else (case find_char (CHR '':'') server_name of
               None \<Rightarrow> server_name \<noteq> []
             | Some port_separator \<Rightarrow>
                 take port_separator server_name \<noteq> [] \<and>
                 find_char (CHR '':'') (drop (port_separator + 1) server_name) = None))"

definition bounded_power_level_maps :: "room_version_policy \<Rightarrow> byte_string list" where
  "bounded_power_level_maps policy =
     (if auth_rules_of policy = Auth_room_v1 then [''events''] else [''events'', ''notifications''])"

text \<open>A rejection reason is empty when the content is accepted.\<close>

fun scalar_keys_reason ::
    "power_level_encoding_t \<Rightarrow> json_object \<Rightarrow> byte_string list \<Rightarrow> byte_string" where
  "scalar_keys_reason encoding content [] = []"
| "scalar_keys_reason encoding content (key # keys) =
     (if object_member content key \<noteq> None \<and> power_level_value (object_member content key) encoding = None
      then key @ '' must be an integer''
      else scalar_keys_reason encoding content keys)"

fun bounded_maps_reason ::
    "power_level_encoding_t \<Rightarrow> json_object \<Rightarrow> byte_string list \<Rightarrow> byte_string" where
  "bounded_maps_reason encoding content [] = []"
| "bounded_maps_reason encoding content (key # keys) =
     (case object_member content key of
        None \<Rightarrow> bounded_maps_reason encoding content keys
      | Some (JObject entries) \<Rightarrow>
          if list_ex (\<lambda>(k, v). power_level_value (Some v) encoding = None) entries
          then key @ '' values must be integers''
          else bounded_maps_reason encoding content keys
      | Some _ \<Rightarrow> key @ '' must be an object'')"

fun users_reason :: "power_level_encoding_t \<Rightarrow> json_object \<Rightarrow> byte_string" where
  "users_reason encoding [] = []"
| "users_reason encoding ((k, v) # users) =
     (if \<not> user_id_is_well_formed k then ''users keys must be valid user IDs''
      else if power_level_value (Some v) encoding = None then ''users values must be integers''
      else users_reason encoding users)"

definition power_levels_content_rejection_reason ::
    "json_object \<Rightarrow> room_version_policy \<Rightarrow> byte_string" where
  "power_levels_content_rejection_reason content policy =
     (let encoding = power_level_encoding policy;
          r1 = scalar_keys_reason encoding content scalar_power_level_keys in
      if r1 \<noteq> [] then r1
      else
        let r2 = bounded_maps_reason encoding content (bounded_power_level_maps policy) in
        if r2 \<noteq> [] then r2
        else case object_member content ''users'' of
          None \<Rightarrow> []
        | Some (JObject users) \<Rightarrow> users_reason encoding users
        | Some _ \<Rightarrow> ''users must be an object'')"

definition power_levels_content_problem :: "json_object \<Rightarrow> room_version_policy \<Rightarrow> byte_string" where
  "power_levels_content_problem content policy = power_levels_content_rejection_reason content policy"

text \<open>The pieces of the messages that hold an apostrophe, byte 0x27.\<close>

definition apostrophe_s :: byte_string where
  "apostrophe_s = [CHR 0x27, CHR ''s'']"

definition entry_text :: "byte_string \<Rightarrow> byte_string" where
  "entry_text key = '' entry '' @ [CHR 0x27] @ key @ [CHR 0x27]"

definition level_exceeds :: "int option \<Rightarrow> int \<Rightarrow> bool" where
  "level_exceeds level limit = (case level of None \<Rightarrow> False | Some l \<Rightarrow> limit < l)"

fun scalar_change_reason ::
    "json_object \<Rightarrow> json_object \<Rightarrow> int \<Rightarrow> power_level_encoding_t \<Rightarrow> byte_string list \<Rightarrow> byte_string"
where
  "scalar_change_reason old_content new_content sender_power encoding [] = []"
| "scalar_change_reason old_content new_content sender_power encoding (key # keys) =
     (let old_level = power_level_member old_content key encoding;
          new_level = power_level_member new_content key encoding in
      if old_level = new_level
      then scalar_change_reason old_content new_content sender_power encoding keys
      else if level_exceeds old_level sender_power
      then ''cannot alter '' @ key @ '': its current value exceeds the sender'' @ apostrophe_s @ '' power level''
      else if level_exceeds new_level sender_power
      then ''cannot set '' @ key @ '' above the sender'' @ apostrophe_s @ '' own power level''
      else scalar_change_reason old_content new_content sender_power encoding keys)"

definition scalar_power_level_rejection_reason ::
    "json_object \<Rightarrow> json_object \<Rightarrow> int \<Rightarrow> power_level_encoding_t \<Rightarrow> byte_string" where
  "scalar_power_level_rejection_reason old_content new_content sender_power encoding =
     scalar_change_reason old_content new_content sender_power encoding scalar_power_level_keys"

text \<open>
  The two loops of \<open>power_level_map_rejection_reason\<close>: over the entries of the old map (rule 9.6) and
  of the new one (rule 9.7). \<open>other\<close> is the map on the other side, if there is one.
\<close>

definition other_level ::
    "json_object option \<Rightarrow> byte_string \<Rightarrow> power_level_encoding_t \<Rightarrow> int option" where
  "other_level other key encoding =
     (case other of None \<Rightarrow> None | Some m \<Rightarrow> power_level_member m key encoding)"

fun old_entries_reason ::
    "byte_string \<Rightarrow> json_object option \<Rightarrow> int \<Rightarrow> power_level_encoding_t \<Rightarrow> json_object \<Rightarrow> byte_string"
where
  "old_entries_reason map_key new_map sender_power encoding [] = []"
| "old_entries_reason map_key new_map sender_power encoding ((k, v) # entries) =
     (case power_level_value (Some v) encoding of
        None \<Rightarrow> old_entries_reason map_key new_map sender_power encoding entries
      | Some old_level \<Rightarrow>
          if other_level new_map k encoding \<noteq> Some old_level \<and> sender_power < old_level
          then map_key @ entry_text k @ '' currently exceeds the sender'' @ apostrophe_s @ '' power level''
          else old_entries_reason map_key new_map sender_power encoding entries)"

fun new_entries_reason ::
    "byte_string \<Rightarrow> json_object option \<Rightarrow> int \<Rightarrow> power_level_encoding_t \<Rightarrow> json_object \<Rightarrow> byte_string"
where
  "new_entries_reason map_key old_map sender_power encoding [] = []"
| "new_entries_reason map_key old_map sender_power encoding ((k, v) # entries) =
     (case power_level_value (Some v) encoding of
        None \<Rightarrow> new_entries_reason map_key old_map sender_power encoding entries
      | Some new_level \<Rightarrow>
          if other_level old_map k encoding \<noteq> Some new_level \<and> sender_power < new_level
          then map_key @ entry_text k @ '' exceeds the sender'' @ apostrophe_s @ '' power level''
          else new_entries_reason map_key old_map sender_power encoding entries)"

definition power_level_map_rejection_reason ::
    "json_object \<Rightarrow> json_object \<Rightarrow> byte_string \<Rightarrow> int \<Rightarrow> power_level_encoding_t \<Rightarrow> byte_string" where
  "power_level_map_rejection_reason old_content new_content map_key sender_power encoding =
     (let old_map = object_member_as_object old_content map_key;
          new_map = object_member_as_object new_content map_key;
          r1 = (case old_map of
                  None \<Rightarrow> []
                | Some entries \<Rightarrow> old_entries_reason map_key new_map sender_power encoding entries) in
      if r1 \<noteq> [] then r1
      else (case new_map of
              None \<Rightarrow> []
            | Some entries \<Rightarrow> new_entries_reason map_key old_map sender_power encoding entries))"

section \<open>Rule 1: create events\<close>

definition domain_of :: "byte_string \<Rightarrow> byte_string" where
  "domain_of matrix_id =
     (case find_char (CHR '':'') matrix_id of None \<Rightarrow> [] | Some colon \<Rightarrow> drop (colon + 1) matrix_id)"

fun additional_creators_reason :: "json list \<Rightarrow> byte_string" where
  "additional_creators_reason [] = []"
| "additional_creators_reason (entry # entries) =
     (case entry of
        JString user_id \<Rightarrow>
          if \<not> user_id_is_well_formed user_id
          then ''additional_creators must contain only valid user IDs''
          else additional_creators_reason entries
      | _ \<Rightarrow> ''additional_creators must contain only valid user IDs'')"

text \<open>
  The part of \<open>create_event_rejection_reason\<close> on the room id (rule 1.2) and the part on the content
  (rules 1.3 and 1.4).
\<close>

definition create_room_id_reason ::
    "byte_string option \<Rightarrow> byte_string option \<Rightarrow> room_version_policy \<Rightarrow> byte_string" where
  "create_room_id_reason room_id sender policy =
     (if create_event_is_room_id policy then
        (if room_id \<noteq> None then ''v12 create event must not carry a room_id'' else [])
      else case room_id of
        None \<Rightarrow> ''create event requires a room_id''
      | Some r \<Rightarrow>
          (case sender of
             None \<Rightarrow> ''create event room_id domain does not match the sender domain''
           | Some s \<Rightarrow>
               if domain_of r \<noteq> domain_of s
               then ''create event room_id domain does not match the sender domain'' else []))"

definition create_content_reason :: "json_object option \<Rightarrow> room_version_policy \<Rightarrow> byte_string" where
  "create_content_reason content policy =
     (let creator_field_required =
            (\<not> create_event_is_room_id policy \<and> redaction_rules_of policy \<noteq> Redaction_room_v11_plus) in
      case content of
        None \<Rightarrow> if creator_field_required then ''create event content requires a creator'' else []
      | Some content \<Rightarrow>
          if creator_field_required \<and> object_member content ''creator'' = None
          then ''create event content requires a creator''
          else if (case object_member content ''room_version'' of
                     None \<Rightarrow> False
                   | Some (JString room_version) \<Rightarrow> \<not> room_version_is_supported room_version
                   | Some _ \<Rightarrow> True)
          then ''create event declares an unrecognised room_version''
          else if create_event_is_room_id policy then
            (case object_member content ''additional_creators'' of
               None \<Rightarrow> []
             | Some (JArray entries) \<Rightarrow> additional_creators_reason entries
             | Some _ \<Rightarrow> ''additional_creators must be an array'')
          else [])"

definition create_event_rejection_reason :: "json_object \<Rightarrow> room_version_policy \<Rightarrow> byte_string" where
  "create_event_rejection_reason event policy =
     (if (case object_member event ''prev_events'' of
            Some (JArray entries) \<Rightarrow> entries \<noteq> []
          | _ \<Rightarrow> False)
      then ''create event must not have prev_events''
      else
        let r = create_room_id_reason (string_member event ''room_id'') (string_member event ''sender'')
                  policy in
        if r \<noteq> [] then r
        else create_content_reason (object_member_as_object event ''content'') policy)"

section \<open>Memberships and auth event selection\<close>

fun membership_name :: "membership_state \<Rightarrow> byte_string" where
  "membership_name Membership_leave = ''leave''"
| "membership_name Membership_invite = ''invite''"
| "membership_name Membership_join = ''join''"
| "membership_name Membership_ban = ''ban''"
| "membership_name Membership_knock = ''knock''"
| "membership_name Membership_restricted = ''restricted''"

definition parse_membership_state :: "byte_string \<Rightarrow> membership_state option" where
  "parse_membership_state membership =
     (if membership = ''join'' then Some Membership_join
      else if membership = ''invite'' then Some Membership_invite
      else if membership = ''leave'' then Some Membership_leave
      else if membership = ''ban'' then Some Membership_ban
      else if membership = ''knock'' then Some Membership_knock
      else None)"

definition required_state_event_power ::
    "json \<Rightarrow> byte_string \<Rightarrow> room_version_policy \<Rightarrow> int" where
  "required_state_event_power power_levels_event event_type policy =
     (if \<not> value_has_content power_levels_event then 50
      else
        let state_default = extract_power_level_key power_levels_event ''state_default'' 50
              (power_level_encoding policy) in
        case (case event_content power_levels_event of
                None \<Rightarrow> None
              | Some pl_content \<Rightarrow> object_member_as_object pl_content ''events'') of
          None \<Rightarrow> state_default
        | Some events \<Rightarrow>
            (case power_level_member events event_type (power_level_encoding policy) of
               Some level \<Rightarrow> level
             | None \<Rightarrow> state_default))"

definition extract_content_membership :: "json \<Rightarrow> byte_string" where
  "extract_content_membership event =
     (case event_content_string event ''membership'' of None \<Rightarrow> [] | Some membership \<Rightarrow> membership)"

definition join_authorising_user :: "json \<Rightarrow> byte_string" where
  "join_authorising_user event =
     (if extract_content_membership event \<noteq> ''join'' then []
      else case event_content_string event ''join_authorised_via_users_server'' of
        None \<Rightarrow> []
      | Some authorised \<Rightarrow> authorised)"

definition third_party_invite_token :: "json \<Rightarrow> byte_string" where
  "third_party_invite_token event =
     (case event_content event of
        None \<Rightarrow> []
      | Some content \<Rightarrow>
          (case object_member_as_object content ''third_party_invite'' of
             None \<Rightarrow> []
           | Some invite \<Rightarrow>
               (case object_member_as_object invite ''signed'' of
                  None \<Rightarrow> []
                | Some signed_obj \<Rightarrow>
                    (case string_member signed_obj ''token'' of None \<Rightarrow> [] | Some token \<Rightarrow> token))))"

definition permitted_auth_event_keys ::
    "json \<Rightarrow> room_version_policy \<Rightarrow> byte_string \<Rightarrow> byte_string \<Rightarrow> byte_string option \<Rightarrow> byte_string
      \<Rightarrow> (byte_string \<times> byte_string) list" where
  "permitted_auth_event_keys pdu policy event_type sender state_key token =
     (if event_type = ''m.room.create'' then []
      else
        (if \<not> create_event_is_room_id policy then [(''m.room.create'', [])] else []) @
        [(''m.room.power_levels'', []), (''m.room.member'', sender)] @
        (case (event_type = ''m.room.member'', state_key) of
           (True, Some target) \<Rightarrow>
             (let membership = extract_content_membership pdu in
              [(''m.room.member'', target)] @
              (if membership = ''join'' \<or> membership = ''invite'' \<or> membership = ''knock''
               then [(''m.room.join_rules'', [])] else []) @
              (if membership = ''invite'' \<and> token \<noteq> []
               then [(''m.room.third_party_invite'', token)] else []) @
              (if membership = ''join'' \<and> join_authorising_user pdu \<noteq> []
               then [(''m.room.member'', join_authorising_user pdu)] else []))
         | _ \<Rightarrow> []))"

text \<open>\<open>parse_membership_state(...).value_or(leave)\<close> of an auth event, leave when it is absent.\<close>

definition current_membership :: "json \<Rightarrow> membership_state" where
  "current_membership member =
     (if value_has_content member then
        (case parse_membership_state (extract_content_membership member) of
           None \<Rightarrow> Membership_leave
         | Some m \<Rightarrow> m)
      else Membership_leave)"

text \<open>A scalar level of the current power levels event, or the default with none.\<close>

definition power_or_default :: "auth_event_map \<Rightarrow> room_version_policy \<Rightarrow> byte_string \<Rightarrow> int \<Rightarrow> int" where
  "power_or_default auth_events policy key default_value =
     (if value_has_content (auth_power_levels auth_events)
      then extract_power_level_key (auth_power_levels auth_events) key default_value
             (power_level_encoding policy)
      else default_value)"

abbreviation power_of :: "auth_event_map \<Rightarrow> room_version_policy \<Rightarrow> byte_string \<Rightarrow> int" where
  "power_of auth_events policy user \<equiv>
     effective_sender_power (auth_power_levels auth_events) user (auth_create auth_events) policy"

definition effective_join_rule :: "auth_event_map \<Rightarrow> byte_string" where
  "effective_join_rule auth_events =
     (if value_has_content (auth_join_rules auth_events) then
        (case event_content_string (auth_join_rules auth_events) ''join_rule'' of
           None \<Rightarrow> ''invite''
         | Some rule \<Rightarrow> rule)
      else ''invite'')"

section \<open>Rules 4 to 9: membership events\<close>

definition authorize_restricted_join ::
    "json \<Rightarrow> room_version_policy \<Rightarrow> auth_event_map \<Rightarrow> membership_state \<Rightarrow> event_authorization_decision"
where
  "authorize_restricted_join event policy auth_events target_current_membership =
     (if membership_at_least_one_of target_current_membership [Membership_invite, Membership_join]
      then make_allowed ''5''
      else case event_content_string event ''join_authorised_via_users_server'' of
        None \<Rightarrow> make_denied ''5'' ''restricted join requires join_authorised_via_users_server''
      | Some authorising_user \<Rightarrow>
          if authorising_user = []
          then make_denied ''5'' ''restricted join requires join_authorised_via_users_server''
          else if \<not> event_has_signature_from_server event (domain_of authorising_user)
          then make_denied ''5''
                 (''restricted join event lacks a signature from the authorising user'' @ apostrophe_s @
                  '' server'')
          else (case value_is_object (auth_authorising_user_member auth_events) of
             None \<Rightarrow> make_denied ''5'' ''restricted join missing authorising user membership''
           | Some authorising_member_obj \<Rightarrow>
               if string_member authorising_member_obj ''state_key'' \<noteq> Some authorising_user
               then make_denied ''5'' ''restricted join authorising user does not match membership event''
               else if parse_membership_state
                    (extract_content_membership (auth_authorising_user_member auth_events)) \<noteq>
                    Some Membership_join
               then make_denied ''5'' ''restricted join authorising user is not joined''
               else if power_of auth_events policy authorising_user <
                    power_or_default auth_events policy ''invite'' 0
               then make_denied ''5'' ''restricted join authorising user lacks invite power''
               else make_allowed ''5''))"

definition authorize_join ::
    "json \<Rightarrow> room_version_policy \<Rightarrow> auth_event_map \<Rightarrow> membership_state \<Rightarrow> event_authorization_decision"
where
  "authorize_join event policy auth_events target_current_membership =
     (if target_current_membership = Membership_ban
      then make_denied ''5'' ''banned user cannot join''
      else
        let join_rule = effective_join_rule auth_events in
        if join_rule = ''public'' then make_allowed ''5''
        else if join_rule = ''invite'' then
          (if membership_at_least_one_of target_current_membership [Membership_invite, Membership_join]
           then make_allowed ''5''
           else make_denied ''5'' ''user was not invited to this invite-only room'')
        else if join_rule = ''knock'' \<and> knock_join_rule policy then
          (if membership_at_least_one_of target_current_membership [Membership_invite, Membership_join]
           then make_allowed ''5''
           else make_denied ''5'' ''user was not invited to a knock room'')
        else if (join_rule = ''restricted'' \<and> restricted_join_rule policy) \<or>
                (join_rule = ''knock_restricted'' \<and> knock_restricted_join_rule policy)
        then authorize_restricted_join event policy auth_events target_current_membership
        else make_denied ''5'' ''join rule not defined by this room version'')"

definition authorize_knock ::
    "room_version_policy \<Rightarrow> auth_event_map \<Rightarrow> bool \<Rightarrow> membership_state \<Rightarrow> event_authorization_decision"
where
  "authorize_knock policy auth_events target_is_sender target_current_membership =
     (if \<not> knock_join_rule policy
      then make_denied ''5'' ''knock membership not defined by this room version''
      else if \<not> target_is_sender then make_denied ''5'' ''cannot knock on behalf of another user''
      else if target_current_membership = Membership_ban
      then make_denied ''5'' ''banned user cannot knock''
      else if membership_at_least_one_of target_current_membership [Membership_join, Membership_invite]
      then make_denied ''5'' ''already joined or invited user cannot knock''
      else
        let rule = effective_join_rule auth_events in
        if rule = ''knock'' \<or> (rule = ''knock_restricted'' \<and> knock_restricted_join_rule policy)
        then make_allowed ''5''
        else make_denied ''5'' ''join_rule does not permit knocking'')"

definition authorize_invite ::
    "sodium \<Rightarrow> json_object \<Rightarrow> room_version_policy \<Rightarrow> auth_event_map \<Rightarrow> byte_string \<Rightarrow> byte_string
      \<Rightarrow> membership_state \<Rightarrow> membership_state \<Rightarrow> event_authorization_decision" where
  "authorize_invite na obj policy auth_events sender state_key sender_current_membership
     target_current_membership =
     (case (case object_member_as_object obj ''content'' of
              None \<Rightarrow> None
            | Some content_obj \<Rightarrow> object_member content_obj ''third_party_invite'') of
        Some third_party_invite_value \<Rightarrow>
          authorize_third_party_invite na third_party_invite_value state_key sender
            target_current_membership (auth_third_party_invite auth_events)
      | None \<Rightarrow>
          if target_current_membership = Membership_join
          then make_denied ''6'' ''cannot invite already-joined user''
          else if target_current_membership = Membership_ban
          then make_denied ''6'' ''cannot invite banned user''
          else if sender_current_membership \<noteq> Membership_join
          then make_denied ''6'' ''inviter must be joined''
          else if power_of auth_events policy sender < power_or_default auth_events policy ''invite'' 0
          then make_denied ''6'' ''insufficient power to invite''
          else make_allowed ''6'')"

definition authorize_leave ::
    "room_version_policy \<Rightarrow> auth_event_map \<Rightarrow> byte_string \<Rightarrow> byte_string \<Rightarrow> membership_state
      \<Rightarrow> membership_state \<Rightarrow> event_authorization_decision" where
  "authorize_leave policy auth_events sender state_key sender_current_membership
     target_current_membership =
     (if sender = state_key then
        (if membership_at_least_one_of target_current_membership
              [Membership_invite, Membership_join, Membership_knock]
         then make_allowed ''7''
         else make_denied ''7'' ''self-leave requires current membership of invite, join, or knock'')
      else if sender_current_membership \<noteq> Membership_join then make_denied ''7'' ''kicker must be joined''
      else
        let sender_power = power_of auth_events policy sender in
        if target_current_membership = Membership_ban \<and>
           sender_power < power_or_default auth_events policy ''ban'' 50
        then make_denied ''7'' ''insufficient power to unban''
        else
          let kick_power = power_or_default auth_events policy ''kick'' 50;
              target_power = power_of auth_events policy state_key in
          if kick_power \<le> sender_power \<and> target_power < sender_power then make_allowed ''7''
          else make_denied ''7'' ''insufficient power to kick or unban target'')"

definition authorize_ban ::
    "room_version_policy \<Rightarrow> auth_event_map \<Rightarrow> byte_string \<Rightarrow> byte_string \<Rightarrow> membership_state
      \<Rightarrow> event_authorization_decision" where
  "authorize_ban policy auth_events sender state_key sender_current_membership =
     (if sender_current_membership \<noteq> Membership_join then make_denied ''8'' ''banner must be joined''
      else
        let ban_power = power_or_default auth_events policy ''ban'' 50;
            sender_power = power_of auth_events policy sender;
            target_power = power_of auth_events policy state_key in
        if ban_power \<le> sender_power \<and> target_power < sender_power then make_allowed ''8''
        else make_denied ''8'' ''insufficient power to ban'')"

definition authorize_member ::
    "sodium \<Rightarrow> json \<Rightarrow> json_object \<Rightarrow> room_version_policy \<Rightarrow> auth_event_map \<Rightarrow> byte_string
      \<Rightarrow> event_authorization_decision" where
  "authorize_member na event obj policy auth_events sender =
     (case string_member obj ''state_key'' of
        None \<Rightarrow> make_denied ''4'' ''m.room.member requires a state_key''
      | Some state_key \<Rightarrow>
          if state_key = [] then make_denied ''4'' ''m.room.member requires a state_key''
          else (case parse_membership_state (extract_content_membership event) of
             None \<Rightarrow> make_denied ''4'' ''membership value is unrecognized''
           | Some requested \<Rightarrow>
               if requested = Membership_join \<and> sole_prev_event_is_create event auth_events policy \<and>
                  room_creator_user_id (auth_create auth_events) policy \<noteq> [] \<and>
                  state_key = room_creator_user_id (auth_create auth_events) policy
               then make_allowed ''5''
               else
                 (let target_is_sender = (sender = state_key);
                      sender_current_membership = current_membership (auth_sender_member auth_events);
                      target_current_membership =
                        (if target_is_sender \<and> value_has_content (auth_sender_member auth_events)
                         then current_membership (auth_sender_member auth_events)
                         else current_membership (auth_target_member auth_events))
                  in case requested of
                       Membership_join \<Rightarrow>
                         if \<not> target_is_sender
                         then make_denied ''5'' ''cannot force another user to join''
                         else authorize_join event policy auth_events target_current_membership
                     | Membership_knock \<Rightarrow>
                         authorize_knock policy auth_events target_is_sender target_current_membership
                     | Membership_invite \<Rightarrow>
                         authorize_invite na obj policy auth_events sender state_key
                           sender_current_membership target_current_membership
                     | Membership_leave \<Rightarrow>
                         authorize_leave policy auth_events sender state_key
                           sender_current_membership target_current_membership
                     | Membership_ban \<Rightarrow>
                         authorize_ban policy auth_events sender state_key sender_current_membership
                     | Membership_restricted \<Rightarrow>
                         make_denied ''4'' ''unsupported membership type'')))"

section \<open>Power levels events\<close>

definition required_power_levels_level :: "auth_event_map \<Rightarrow> room_version_policy \<Rightarrow> int" where
  "required_power_levels_level auth_events policy =
     (if \<not> value_has_content (auth_power_levels auth_events) then 50
      else
        let encoding = power_level_encoding policy;
            state_default =
              extract_power_level_key (auth_power_levels auth_events) ''state_default'' 50 encoding in
        case (case event_content (auth_power_levels auth_events) of
                None \<Rightarrow> None
              | Some pl_content \<Rightarrow> object_member_as_object pl_content ''events'') of
          None \<Rightarrow> state_default
        | Some events \<Rightarrow>
            (case power_level_member events ''m.room.power_levels'' encoding of
               Some level \<Rightarrow> level
             | None \<Rightarrow> state_default))"

text \<open>Rules 9.9 and 9.8: true when an entry of the new, respectively the old, users map is refused.\<close>

definition user_raised_too_far ::
    "json_object option \<Rightarrow> int \<Rightarrow> power_level_encoding_t \<Rightarrow> (byte_string \<times> json) \<Rightarrow> bool" where
  "user_raised_too_far old_users sender_power encoding entry =
     (case power_level_value (Some (snd entry)) encoding of
        None \<Rightarrow> False
      | Some new_level \<Rightarrow>
          other_level old_users (fst entry) encoding \<noteq> Some new_level \<and> sender_power < new_level)"

definition user_lowered_too_far ::
    "json_object \<Rightarrow> json_object option \<Rightarrow> byte_string \<Rightarrow> int \<Rightarrow> power_level_encoding_t
      \<Rightarrow> (byte_string \<times> json) \<Rightarrow> bool" where
  "user_lowered_too_far old_users new_users sender sender_power encoding entry =
     (if fst entry = sender then False
      else case extract_user_level_from_users old_users (fst entry) encoding of
        None \<Rightarrow> False
      | Some old_level \<Rightarrow>
          other_level new_users (fst entry) encoding \<noteq> Some old_level \<and> sender_power \<le> old_level)"

fun bounded_maps_change_reason ::
    "json_object \<Rightarrow> json_object \<Rightarrow> int \<Rightarrow> power_level_encoding_t \<Rightarrow> byte_string list \<Rightarrow> byte_string"
where
  "bounded_maps_change_reason old_content new_content sender_power encoding [] = []"
| "bounded_maps_change_reason old_content new_content sender_power encoding (key # keys) =
     (let r = power_level_map_rejection_reason old_content new_content key sender_power encoding in
      if r \<noteq> [] then r
      else bounded_maps_change_reason old_content new_content sender_power encoding keys)"

text \<open>The comparison with the previous power levels event (rules 9.5 to 9.9).\<close>

definition authorize_power_level_changes ::
    "room_version_policy \<Rightarrow> json \<Rightarrow> json_object \<Rightarrow> byte_string \<Rightarrow> int \<Rightarrow> event_authorization_decision"
where
  "authorize_power_level_changes policy old_event content_obj sender pl_sender_power =
     (let encoding = power_level_encoding policy;
          new_users = object_member_as_object content_obj ''users'';
          old_content = event_content old_event;
          old_users = (case old_content of None \<Rightarrow> None | Some c \<Rightarrow> object_member_as_object c ''users'');
          scalar = (case old_content of
                      None \<Rightarrow> []
                    | Some c \<Rightarrow>
                        scalar_power_level_rejection_reason c content_obj pl_sender_power encoding) in
      if scalar \<noteq> [] then make_denied ''11'' scalar
      else
        let bounded = (case old_content of
                    None \<Rightarrow> []
                  | Some c \<Rightarrow> bounded_maps_change_reason c content_obj pl_sender_power encoding
                              (bounded_power_level_maps policy)) in
        if bounded \<noteq> [] then make_denied ''11'' bounded
        else if (case new_users of
                   None \<Rightarrow> False
                 | Some users \<Rightarrow> list_ex (user_raised_too_far old_users pl_sender_power encoding) users)
        then make_denied ''11'' ''cannot elevate user above own power level''
        else if (case old_users of
                   None \<Rightarrow> False
                 | Some users \<Rightarrow>
                     list_ex (user_lowered_too_far users new_users sender pl_sender_power encoding) users)
        then make_denied ''11''
               ''cannot change or remove power level of user at or above own power level''
        else make_allowed ''11'')"

definition authorize_power_levels ::
    "json_object \<Rightarrow> room_version_policy \<Rightarrow> auth_event_map \<Rightarrow> byte_string \<Rightarrow> event_authorization_decision"
where
  "authorize_power_levels obj policy auth_events sender =
     (let pl_sender_power = power_of auth_events policy sender in
      if pl_sender_power < required_power_levels_level auth_events policy
      then make_denied ''11'' ''insufficient power to send power_levels event''
      else case object_member_as_object obj ''content'' of
        None \<Rightarrow> make_denied ''11'' ''m.room.power_levels requires a content object''
      | Some content_obj \<Rightarrow>
          (let problem = power_levels_content_rejection_reason content_obj policy in
           if problem \<noteq> [] then make_denied ''11'' problem
           else if privilege_room_creators policy \<and>
                (case object_member_as_object content_obj ''users'' of
                   None \<Rightarrow> False
                 | Some new_users \<Rightarrow>
                     list_ex (\<lambda>(k, v). user_is_room_creator (auth_create auth_events) k policy) new_users)
           then make_denied ''11'' ''creator cannot be specified in m.room.power_levels content.users''
           else if value_has_content (auth_power_levels auth_events)
           then authorize_power_level_changes policy (auth_power_levels auth_events) content_obj sender
                  pl_sender_power
           else make_allowed ''11''))"

section \<open>The whole decision\<close>

definition authorize_create ::
    "json_object \<Rightarrow> room_version_policy \<Rightarrow> auth_event_map \<Rightarrow> event_authorization_decision" where
  "authorize_create obj policy auth_events =
     (if value_has_content (auth_create auth_events)
      then make_denied ''1'' ''room already has a create event''
      else
        let r = create_event_rejection_reason obj policy in
        if r \<noteq> [] then make_denied ''1'' r else make_allowed ''1'')"

definition room_is_non_federated :: "json \<Rightarrow> bool" where
  "room_is_non_federated create_event =
     (case event_content create_event of
        None \<Rightarrow> False
      | Some content \<Rightarrow>
          (case object_member content ''m.federate'' of Some (JBool b) \<Rightarrow> \<not> b | _ \<Rightarrow> False))"

text \<open>Rule 3; \<open>None\<close> when it does not reject.\<close>

definition federation_rejection :: "json \<Rightarrow> byte_string \<Rightarrow> event_authorization_decision option" where
  "federation_rejection create_event sender =
     (if room_is_non_federated create_event then
        (case (case value_is_object create_event of
                 None \<Rightarrow> None
               | Some create_obj \<Rightarrow> string_member create_obj ''sender'') of
           None \<Rightarrow> Some (make_denied ''3'' ''create event has no identifiable creator'')
         | Some create_sender \<Rightarrow>
             if create_sender = []
             then Some (make_denied ''3'' ''create event has no identifiable creator'')
             else if domain_of sender \<noteq> domain_of create_sender
             then Some (make_denied ''3'' ''sender domain does not match creator domain'')
             else None)
      else None)"

definition authorize_aliases :: "json_object \<Rightarrow> byte_string \<Rightarrow> event_authorization_decision" where
  "authorize_aliases obj sender =
     (case string_member obj ''state_key'' of
        None \<Rightarrow> make_denied ''4'' ''m.room.aliases requires a state_key''
      | Some state_key \<Rightarrow>
          if state_key \<noteq> domain_of sender
          then make_denied ''4'' ''aliases state_key does not match sender domain''
          else make_allowed ''4'')"

definition required_message_power ::
    "auth_event_map \<Rightarrow> room_version_policy \<Rightarrow> byte_string \<Rightarrow> int" where
  "required_message_power auth_events policy event_type =
     (let events_default = power_or_default auth_events policy ''events_default'' 0 in
      if value_has_content (auth_power_levels auth_events) then
        (case event_content (auth_power_levels auth_events) of
           None \<Rightarrow> events_default
         | Some pl_content \<Rightarrow>
             (case object_member_as_object pl_content ''events'' of
                None \<Rightarrow> events_default
              | Some events \<Rightarrow>
                  (case power_level_member events event_type (power_level_encoding policy) of
                     Some level \<Rightarrow> level
                   | None \<Rightarrow> events_default)))
      else events_default)"

text \<open>Steps 10 to 14, for the events that are neither a create, an alias nor a member event.\<close>

definition authorize_other ::
    "json_object \<Rightarrow> room_version_policy \<Rightarrow> auth_event_map \<Rightarrow> byte_string \<Rightarrow> byte_string
      \<Rightarrow> event_authorization_decision" where
  "authorize_other obj policy auth_events event_type sender =
     (if current_membership (auth_sender_member auth_events) \<noteq> Membership_join
      then make_denied ''10'' ''sender is not joined to the room''
      else if event_type = ''m.room.third_party_invite'' then
        (if power_of auth_events policy sender < power_or_default auth_events policy ''invite'' 0
         then make_denied ''6'' ''insufficient power to create a third-party invite''
         else make_allowed ''6'')
      else
        let sender_power = power_of auth_events policy sender;
            state_key = string_member obj ''state_key'' in
        if (case state_key of
              None \<Rightarrow> False
            | Some k \<Rightarrow> starts_with k ''@'' \<and> k \<noteq> sender)
        then make_denied ''8'' ''state_key belongs to another user''
        else if event_type = ''m.room.power_levels''
        then authorize_power_levels obj policy auth_events sender
        else if state_key \<noteq> None then
          (if sender_power <
              required_state_event_power (auth_power_levels auth_events) event_type policy
           then make_denied ''13'' ''insufficient power for state event''
           else make_allowed ''13'')
        else if sender_power < required_message_power auth_events policy event_type
        then make_denied ''14'' ''insufficient power for message event''
        else make_allowed ''14'')"

definition authorize_event_against_auth_events ::
    "sodium \<Rightarrow> json \<Rightarrow> room_version_policy \<Rightarrow> auth_event_map \<Rightarrow> event_authorization_decision" where
  "authorize_event_against_auth_events na event policy auth_events =
     (case value_is_object event of
        None \<Rightarrow> make_denied ''0'' ''event must be an object''
      | Some obj \<Rightarrow>
          (case string_member obj ''type'' of
             None \<Rightarrow> make_denied ''0'' ''missing event type''
           | Some event_type \<Rightarrow>
               if event_type = [] then make_denied ''0'' ''missing event type''
               else (case string_member obj ''sender'' of
                  None \<Rightarrow> make_denied ''0'' ''missing sender''
                | Some sender \<Rightarrow>
                    if sender = [] then make_denied ''0'' ''missing sender''
                    else if event_type = ''m.room.create''
                    then authorize_create obj policy auth_events
                    else if \<not> value_has_content (auth_create auth_events)
                    then make_denied ''2'' ''room has no create event''
                    else (case federation_rejection (auth_create auth_events) sender of
                       Some d \<Rightarrow> d
                     | None \<Rightarrow>
                         if event_type = ''m.room.aliases'' \<and> auth_rules_of policy = Auth_room_v1
                         then authorize_aliases obj sender
                         else if event_type = ''m.room.member''
                         then authorize_member na event obj policy auth_events sender
                         else authorize_other obj policy auth_events event_type sender))))"

section \<open>Decisions\<close>

lemma decision_simps [simp]:
  "allowed (make_denied step why) = False" "allowed (make_allowed step) = True"
  by (simp_all add: make_denied_def make_allowed_def)

section \<open>Changes of power levels\<close>

lemma level_exceeds_simps [simp]:
  "level_exceeds None p = False" "level_exceeds (Some l) p \<longleftrightarrow> p < l"
  by (simp_all add: level_exceeds_def)

lemma power_level_value_None [simp]: "power_level_value None enc = None"
  by (simp add: power_level_value_def)

lemma power_level_member_in_set:
  "power_level_member m k enc = Some l \<Longrightarrow> \<exists>v. (k, v) \<in> set m \<and> power_level_value (Some v) enc = Some l"
  by (cases "object_member m k") (auto simp: power_level_member_def dest: object_member_in_set)

text \<open>What an accepted change of one level means: the levels agree, or both are within reach.\<close>

definition change_within :: "int \<Rightarrow> int option \<Rightarrow> int option \<Rightarrow> bool" where
  "change_within p old new \<longleftrightarrow> old = new \<or> \<not> level_exceeds old p \<and> \<not> level_exceeds new p"

lemma scalar_change_within:
  "scalar_change_reason old new p enc keys = [] \<Longrightarrow> key \<in> set keys \<Longrightarrow>
     change_within p (power_level_member old key enc) (power_level_member new key enc)"
  by (induction old new p enc keys rule: scalar_change_reason.induct)
    (auto simp: Let_def change_within_def split: if_splits)

lemma old_entries_within:
  "old_entries_reason mk new_map p enc entries = [] \<Longrightarrow> (k, v) \<in> set entries \<Longrightarrow>
     power_level_value (Some v) enc = Some l \<Longrightarrow> other_level new_map k enc = Some l \<or> l \<le> p"
  by (induction mk new_map p enc entries rule: old_entries_reason.induct)
    (auto simp: entry_text_def split: if_splits option.splits)

lemma new_entries_within:
  "new_entries_reason mk old_map p enc entries = [] \<Longrightarrow> (k, v) \<in> set entries \<Longrightarrow>
     power_level_value (Some v) enc = Some l \<Longrightarrow> other_level old_map k enc = Some l \<or> l \<le> p"
  by (induction mk old_map p enc entries rule: new_entries_reason.induct)
    (auto simp: entry_text_def split: if_splits option.splits)

lemma map_change_within:
  assumes "power_level_map_rejection_reason old new mk p enc = []"
  shows "change_within p (other_level (object_member_as_object old mk) k enc)
    (other_level (object_member_as_object new mk) k enc)"
proof -
  let ?o = "object_member_as_object old mk" and ?n = "object_member_as_object new mk"
  have o: "other_level ?n k enc = Some l \<or> l \<le> p" if "other_level ?o k enc = Some l" for l
  proof -
    from that obtain es v where "?o = Some es" "(k, v) \<in> set es" "power_level_value (Some v) enc = Some l"
      by (auto simp: other_level_def split: option.splits dest: power_level_member_in_set)
    then show ?thesis
      using assms old_entries_within [of mk ?n p enc es k v l]
      by (auto simp: power_level_map_rejection_reason_def Let_def split: if_splits)
  qed
  have n: "other_level ?o k enc = Some l \<or> l \<le> p" if "other_level ?n k enc = Some l" for l
  proof -
    from that obtain es v where "?n = Some es" "(k, v) \<in> set es" "power_level_value (Some v) enc = Some l"
      by (auto simp: other_level_def split: option.splits dest: power_level_member_in_set)
    then show ?thesis
      using assms new_entries_within [of mk ?o p enc es k v l]
      by (auto simp: power_level_map_rejection_reason_def Let_def split: if_splits)
  qed
  show ?thesis
    using o n unfolding change_within_def level_exceeds_def by (force split: option.splits)
qed

lemma bounded_maps_within:
  "bounded_maps_change_reason old new p enc keys = [] \<Longrightarrow> mk \<in> set keys \<Longrightarrow>
     power_level_map_rejection_reason old new mk p enc = []"
  by (induction old new p enc keys rule: bounded_maps_change_reason.induct)
    (auto simp: Let_def split: if_splits)

lemma users_raise_within:
  assumes "\<not> list_ex (user_raised_too_far old_users p enc) users" "power_level_member users u enc = Some l"
  shows "other_level old_users u enc = Some l \<or> l \<le> p"
proof -
  obtain v where "(u, v) \<in> set users" "power_level_value (Some v) enc = Some l"
    using power_level_member_in_set [OF assms(2)] by blast
  then show ?thesis
    using assms(1) by (force simp: list_ex_iff user_raised_too_far_def)
qed

lemma users_lower_within:
  assumes "\<not> list_ex (user_lowered_too_far users new_users sender p enc) users"
    "power_level_member users u enc = Some l" "u \<noteq> sender"
  shows "other_level new_users u enc = Some l \<or> l < p"
proof -
  obtain v where "(u, v) \<in> set users"
    using power_level_member_in_set [OF assms(2)] by blast
  then show ?thesis
    using assms by (force simp: list_ex_iff user_lowered_too_far_def extract_user_level_from_users_def)
qed

section \<open>The shape of an allowed event\<close>

lemma federation_rejection_denies: "federation_rejection create_event sender = Some d \<Longrightarrow> \<not> allowed d"
  by (auto simp: federation_rejection_def split: if_splits option.splits)

lemma value_is_object_simps [simp]:
  "value_is_object (JObject ms) = Some ms" "value_is_object JNull = None"
  "value_is_object v = Some ms \<longleftrightarrow> v = JObject ms"
  by (simp_all add: value_is_object_def split: json.splits)

text \<open>
  An event that is not a create event and was allowed went past the first three rules and was allowed
  by the rule of its type.
\<close>

lemma authorize_event_object:
  assumes "string_member obj ''type'' = Some t" "t \<noteq> []" "string_member obj ''sender'' = Some s" "s \<noteq> []"
  shows "authorize_event_against_auth_events na (JObject obj) p ae =
    (if t = ''m.room.create'' then authorize_create obj p ae
     else if \<not> value_has_content (auth_create ae) then make_denied ''2'' ''room has no create event''
     else case federation_rejection (auth_create ae) s of
       Some d \<Rightarrow> d
     | None \<Rightarrow>
         if t = ''m.room.aliases'' \<and> auth_rules_of p = Auth_room_v1 then authorize_aliases obj s
         else if t = ''m.room.member'' then authorize_member na (JObject obj) obj p ae s
         else authorize_other obj p ae t s)"
  using assms by (simp add: authorize_event_against_auth_events_def value_is_object_def)

lemma allowed_has_type_and_sender:
  assumes "allowed (authorize_event_against_auth_events na event p ae)"
  obtains obj t s where "event = JObject obj" "string_member obj ''type'' = Some t" "t \<noteq> []"
    "string_member obj ''sender'' = Some s" "s \<noteq> []"
proof (cases "value_is_object event")
  case None
  then show ?thesis
    using assms by (simp add: authorize_event_against_auth_events_def)
next
  case (Some obj)
  show ?thesis
  proof (cases "string_member obj ''type''")
    case None
    then show ?thesis
      using assms Some by (simp add: authorize_event_against_auth_events_def)
  next
    case t: (Some t)
    show ?thesis
    proof (cases "string_member obj ''sender''")
      case None
      then show ?thesis
        using assms Some t by (simp add: authorize_event_against_auth_events_def split: if_splits)
    next
      case s: (Some s)
      have "t \<noteq> [] \<and> s \<noteq> []"
        using assms Some t s
        by (intro conjI notI) (simp_all add: authorize_event_against_auth_events_def split: if_splits)
      then show ?thesis
        using that [of obj t s] Some t s by simp
    qed
  qed
qed

lemma allowed_nonempty:
  assumes "allowed (authorize_event_against_auth_events na (JObject obj) p ae)"
  shows "string_member obj ''type'' \<noteq> Some []" "string_member obj ''sender'' \<noteq> Some []"
  by (rule allowed_has_type_and_sender [OF assms], simp)+

lemma allowed_not_create:
  assumes "allowed (authorize_event_against_auth_events na (JObject obj) p ae)"
    "string_member obj ''type'' = Some t" "t \<noteq> ''m.room.create''" "string_member obj ''sender'' = Some s"
  shows "value_has_content (auth_create ae) \<and> federation_rejection (auth_create ae) s = None \<and> s \<noteq> []"
proof -
  have ts: "t \<noteq> []" "s \<noteq> []"
    using allowed_nonempty [OF assms(1)] assms(2,4) by simp_all
  note eq = authorize_event_object [OF assms(2) ts(1) assms(4) ts(2), of na p ae]
  have c: "value_has_content (auth_create ae)"
  proof (rule ccontr)
    assume "\<not> value_has_content (auth_create ae)"
    with assms(1,3) show False unfolding eq by simp
  qed
  have "federation_rejection (auth_create ae) s = None"
  proof (cases "federation_rejection (auth_create ae) s")
    case (Some d)
    then show ?thesis
      using assms(1,3) c federation_rejection_denies [OF Some] unfolding eq by simp
  qed simp
  with c ts(2) show ?thesis
    by simp
qed

lemma allowed_member:
  assumes "allowed (authorize_event_against_auth_events na (JObject obj) p ae)"
    "string_member obj ''type'' = Some ''m.room.member''" "string_member obj ''sender'' = Some s"
  shows "allowed (authorize_member na (JObject obj) obj p ae s)"
proof -
  have c: "value_has_content (auth_create ae)" "federation_rejection (auth_create ae) s = None" "s \<noteq> []"
    using allowed_not_create [OF assms(1,2) _ assms(3)] by simp_all
  then show ?thesis
    using assms(1) authorize_event_object [OF assms(2) _ assms(3), of na p ae] by simp
qed

lemma allowed_other:
  assumes "allowed (authorize_event_against_auth_events na (JObject obj) p ae)"
    "string_member obj ''type'' = Some t" "string_member obj ''sender'' = Some s"
    "t \<noteq> ''m.room.create''" "t \<noteq> ''m.room.member''" "t \<noteq> ''m.room.aliases'' \<or> auth_rules_of p \<noteq> Auth_room_v1"
  shows "allowed (authorize_other obj p ae t s)"
proof -
  have t: "t \<noteq> []"
    using allowed_nonempty(1) [OF assms(1)] assms(2) by simp
  have c: "value_has_content (auth_create ae)" "federation_rejection (auth_create ae) s = None" "s \<noteq> []"
    using allowed_not_create [OF assms(1,2,4,3)] by simp_all
  then show ?thesis
    using assms(1,4-6) unfolding authorize_event_object [OF assms(2) t assms(3) c(3), of na p ae]
    by (simp split: if_splits)
qed

lemma allowed_power_levels:
  assumes "allowed (authorize_event_against_auth_events na (JObject obj) p ae)"
    "string_member obj ''type'' = Some ''m.room.power_levels''" "string_member obj ''sender'' = Some s"
  shows "allowed (authorize_power_levels obj p ae s)"
proof -
  have "allowed (authorize_other obj p ae ''m.room.power_levels'' s)"
    using allowed_other [OF assms] by simp
  then show ?thesis
    by (simp add: authorize_other_def Let_def split: if_splits)
qed

lemma allowed_power_level_changes:
  assumes "allowed (authorize_power_levels obj p ae s)" "event_content (auth_power_levels ae) = Some oc"
  obtains nc where "object_member_as_object obj ''content'' = Some nc"
    "power_levels_content_rejection_reason nc p = []"
    "allowed (authorize_power_level_changes p (auth_power_levels ae) nc s (power_of ae p s))"
proof -
  have "value_has_content (auth_power_levels ae)"
    using assms(2) by (auto simp: event_content_def value_has_content_def)
  then show ?thesis
    using assms(1) that
    by (auto simp: authorize_power_levels_def Let_def split: if_splits option.splits)
qed

lemma power_level_changes_within:
  assumes "allowed (authorize_power_level_changes p old nc s P)" "event_content old = Some oc"
  shows "key \<in> set scalar_power_level_keys \<Longrightarrow>
      change_within P (power_level_member oc key (power_level_encoding p))
        (power_level_member nc key (power_level_encoding p))"
    and "mk \<in> set (bounded_power_level_maps p) \<Longrightarrow>
      change_within P (other_level (object_member_as_object oc mk) k (power_level_encoding p))
        (other_level (object_member_as_object nc mk) k (power_level_encoding p))"
    and "other_level (object_member_as_object nc ''users'') u (power_level_encoding p) = Some l \<Longrightarrow>
      other_level (object_member_as_object oc ''users'') u (power_level_encoding p) = Some l \<or> l \<le> P"
    and "other_level (object_member_as_object oc ''users'') u (power_level_encoding p) = Some l \<Longrightarrow>
      u \<noteq> s \<Longrightarrow>
      other_level (object_member_as_object nc ''users'') u (power_level_encoding p) = Some l \<or> l < P"
proof -
  let ?enc = "power_level_encoding p"
  let ?nu = "object_member_as_object nc ''users''" and ?ou = "object_member_as_object oc ''users''"
  have scalar: "scalar_power_level_rejection_reason oc nc P ?enc = []"
    and bounded: "bounded_maps_change_reason oc nc P ?enc (bounded_power_level_maps p) = []"
    and up: "\<And>users. ?nu = Some users \<Longrightarrow> \<not> list_ex (user_raised_too_far ?ou P ?enc) users"
    and down: "\<And>users. ?ou = Some users \<Longrightarrow> \<not> list_ex (user_lowered_too_far users ?nu s P ?enc) users"
    using assms by (simp_all add: authorize_power_level_changes_def Let_def split: if_splits)
  show "key \<in> set scalar_power_level_keys \<Longrightarrow>
      change_within P (power_level_member oc key ?enc) (power_level_member nc key ?enc)"
    using scalar_change_within scalar unfolding scalar_power_level_rejection_reason_def by blast
  show "mk \<in> set (bounded_power_level_maps p) \<Longrightarrow>
      change_within P (other_level (object_member_as_object oc mk) k ?enc)
        (other_level (object_member_as_object nc mk) k ?enc)"
    using map_change_within bounded_maps_within [OF bounded] by blast
  show "other_level ?ou u ?enc = Some l \<or> l \<le> P" if "other_level ?nu u ?enc = Some l"
  proof (cases ?nu)
    case (Some users)
    then show ?thesis
      using that users_raise_within [OF up [OF Some]] by (simp add: other_level_def)
  qed (use that in \<open>simp add: other_level_def\<close>)
  show "other_level ?nu u ?enc = Some l \<or> l < P" if "other_level ?ou u ?enc = Some l" "u \<noteq> s"
  proof (cases ?ou)
    case (Some users)
    then show ?thesis
      using that users_lower_within [OF down [OF Some]] by (simp add: other_level_def)
  qed (use that in \<open>simp add: other_level_def\<close>)
qed

lemma users_default_is_scalar: "''users_default'' \<in> set scalar_power_level_keys"
  by (simp add: scalar_power_level_keys_def)

lemma extract_user_power_level_eq:
  assumes "event_content pl = Some c"
  shows "extract_user_power_level pl u enc =
    (case other_level (object_member_as_object c ''users'') u enc of
       Some l \<Rightarrow> l
     | None \<Rightarrow> extract_power_level_key pl ''users_default'' 0 enc)"
  using assms
  by (auto simp: extract_user_power_level_def event_content_def other_level_def Let_def
      extract_user_level_from_users_def split: option.splits)

lemma extract_power_level_key_eq:
  assumes "event_content pl = Some c"
  shows "extract_power_level_key pl key d enc =
    (case power_level_member c key enc of Some l \<Rightarrow> l | None \<Rightarrow> d)"
  using assms by (auto simp: extract_power_level_key_def event_content_def split: option.splits)

section \<open>Membership changes\<close>

definition target_membership :: "auth_event_map \<Rightarrow> byte_string \<Rightarrow> byte_string \<Rightarrow> membership_state" where
  "target_membership ae sender target =
     (if sender = target \<and> value_has_content (auth_sender_member ae)
      then current_membership (auth_sender_member ae) else current_membership (auth_target_member ae))"

lemma extract_content_membership_eq:
  "extract_content_membership (JObject obj) = ''join'' \<Longrightarrow>
     parse_membership_state (extract_content_membership (JObject obj)) = Some Membership_join"
  "extract_content_membership (JObject obj) = ''leave'' \<Longrightarrow>
     parse_membership_state (extract_content_membership (JObject obj)) = Some Membership_leave"
  "extract_content_membership (JObject obj) = ''ban'' \<Longrightarrow>
     parse_membership_state (extract_content_membership (JObject obj)) = Some Membership_ban"
  by (simp_all add: parse_membership_state_def)

lemma authorize_member_nonempty_key:
  "allowed (authorize_member na event obj p ae s) \<Longrightarrow> string_member obj ''state_key'' = Some k \<Longrightarrow> k \<noteq> []"
  by (auto simp: authorize_member_def)

lemma authorize_member_join:
  assumes "allowed (authorize_member na event obj p ae s)" "string_member obj ''state_key'' = Some k"
    "parse_membership_state (extract_content_membership event) = Some Membership_join"
  shows "(sole_prev_event_is_create event ae p \<and> k = room_creator_user_id (auth_create ae) p) \<or>
    (k = s \<and> allowed (authorize_join event p ae (target_membership ae s k)))"
  using assms authorize_member_nonempty_key [OF assms(1,2)]
  by (simp add: authorize_member_def Let_def target_membership_def split: if_splits)

lemma authorize_member_leave:
  assumes "allowed (authorize_member na event obj p ae s)" "string_member obj ''state_key'' = Some k"
    "parse_membership_state (extract_content_membership event) = Some Membership_leave"
  shows "allowed (authorize_leave p ae s k (current_membership (auth_sender_member ae))
    (target_membership ae s k))"
  using assms authorize_member_nonempty_key [OF assms(1,2)]
  by (simp add: authorize_member_def Let_def target_membership_def split: if_splits)

lemma authorize_member_ban:
  assumes "allowed (authorize_member na event obj p ae s)" "string_member obj ''state_key'' = Some k"
    "parse_membership_state (extract_content_membership event) = Some Membership_ban"
  shows "allowed (authorize_ban p ae s k (current_membership (auth_sender_member ae)))"
  using assms authorize_member_nonempty_key [OF assms(1,2)]
  by (simp add: authorize_member_def Let_def split: if_splits)

lemma membership_at_least_one_of_iff [simp]: "membership_at_least_one_of m ms \<longleftrightarrow> m \<in> set ms"
  by (auto simp: membership_at_least_one_of_def list_ex_iff)

text \<open>What a restricted join needs from the user who authorises it.\<close>

definition vouched :: "json \<Rightarrow> room_version_policy \<Rightarrow> auth_event_map \<Rightarrow> byte_string \<Rightarrow> bool" where
  "vouched event p ae user \<longleftrightarrow>
     event_content_string event ''join_authorised_via_users_server'' = Some user \<and>
     event_has_signature_from_server event (domain_of user) \<and>
     (\<exists>member. auth_authorising_user_member ae = JObject member \<and>
        string_member member ''state_key'' = Some user \<and>
        extract_content_membership (JObject member) = ''join'') \<and>
     power_or_default ae p ''invite'' 0 \<le> effective_sender_power (auth_power_levels ae) user (auth_create ae) p"

lemma parse_membership_join: "parse_membership_state m = Some Membership_join \<longleftrightarrow> m = ''join''"
  by (simp add: parse_membership_state_def)

lemma authorize_restricted_join_allowed:
  assumes "allowed (authorize_restricted_join event p ae m)"
  shows "m = Membership_invite \<or> m = Membership_join \<or> (\<exists>user. vouched event p ae user)"
proof (cases "m = Membership_invite \<or> m = Membership_join")
  case False
  obtain user where user: "event_content_string event ''join_authorised_via_users_server'' = Some user"
    using assms False by (cases "event_content_string event ''join_authorised_via_users_server''")
      (simp_all add: authorize_restricted_join_def)
  obtain member where member: "auth_authorising_user_member ae = JObject member"
    using assms False user
    by (cases "value_is_object (auth_authorising_user_member ae)")
      (simp_all add: authorize_restricted_join_def split: if_splits)
  have "vouched event p ae user"
    using assms False user member
    by (simp add: authorize_restricted_join_def vouched_def parse_membership_join split: if_splits)
  then show ?thesis by blast
qed blast

lemma authorize_join_allowed:
  assumes "allowed (authorize_join event p ae m)"
  shows "m \<noteq> Membership_ban \<and>
    (effective_join_rule ae = ''public'' \<or> m = Membership_invite \<or> m = Membership_join \<or>
     ((effective_join_rule ae = ''restricted'' \<and> restricted_join_rule p \<or>
       effective_join_rule ae = ''knock_restricted'' \<and> knock_restricted_join_rule p) \<and>
      (\<exists>user. vouched event p ae user)))"
proof -
  have "m \<noteq> Membership_ban"
    using assms by (auto simp: authorize_join_def)
  moreover have "allowed (authorize_restricted_join event p ae m) \<Longrightarrow>
      m = Membership_invite \<or> m = Membership_join \<or> (\<exists>user. vouched event p ae user)"
    by (rule authorize_restricted_join_allowed)
  ultimately show ?thesis
    using assms by (simp add: authorize_join_def Let_def split: if_splits)
qed

section \<open>Power levels are 64-bit\<close>

lemma from_chars_bound: "from_chars_int64 s = (Errc_ok, n, v) \<Longrightarrow> v \<le> creator_power"
  by (auto simp: from_chars_int64_def Let_def creator_power_def split: if_splits)

lemma power_level_text_bound: "power_level_text t = Some l \<Longrightarrow> l \<le> creator_power"
  by (auto simp: power_level_text_def Let_def split: if_splits prod.splits dest: from_chars_bound)

lemma power_level_value_bound:
  assumes "power_level_value (Some v) enc = Some l" "within_limits n v"
  shows "l \<le> creator_power"
proof (cases v)
  case (JString t)
  then show ?thesis
    using assms(1) power_level_text_bound by (auto simp: power_level_value_def split: if_splits)
qed (use assms in \<open>auto simp: power_level_value_def Let_def creator_power_def split: if_splits\<close>)

lemma within_limits_member:
  "within_limits n (JObject ms) \<Longrightarrow> object_member ms k = Some v \<Longrightarrow> \<exists>m. within_limits m v"
  by (cases n) (auto dest!: object_member_in_set)

lemma power_level_member_bound:
  assumes "power_level_member ms k enc = Some l" "within_limits n (JObject ms)"
  shows "l \<le> creator_power"
proof -
  obtain v where v: "object_member ms k = Some v" "power_level_value (Some v) enc = Some l"
    using assms(1) by (cases "object_member ms k") (auto simp: power_level_member_def)
  obtain m where "within_limits m v"
    using within_limits_member [OF assms(2) v(1)] by blast
  then show ?thesis
    using power_level_value_bound [OF v(2)] by blast
qed

lemma creator_power_pos: "(0::int) \<le> creator_power" "(100::int) \<le> creator_power"
  by (simp_all add: creator_power_def)

lemma extract_power_level_key_bound:
  assumes "within_limits n pl" "d \<le> creator_power"
  shows "extract_power_level_key pl key d enc \<le> creator_power"
proof (cases "event_content pl")
  case None
  then show ?thesis
    using assms(2) by (auto simp: extract_power_level_key_def event_content_def split: option.splits)
next
  case (Some c)
  then obtain m where "within_limits m (JObject c)"
    using assms(1) within_limits_member
    by (fastforce simp: event_content_def object_member_as_object_def split: option.splits json.splits)
  then show ?thesis
    using assms(2) power_level_member_bound
    by (auto simp: extract_power_level_key_eq [OF Some] split: option.splits)
qed

lemma extract_user_power_level_bound:
  assumes "within_limits n pl"
  shows "extract_user_power_level pl u enc \<le> creator_power"
proof (cases "event_content pl")
  case None
  then show ?thesis
    using creator_power_pos by (auto simp: extract_user_power_level_def event_content_def split: option.splits)
next
  case (Some c)
  then obtain m where m: "within_limits m (JObject c)"
    using assms within_limits_member
    by (fastforce simp: event_content_def object_member_as_object_def split: option.splits json.splits)
  have "l \<le> creator_power" if "other_level (object_member_as_object c ''users'') u enc = Some l" for l
  proof -
    from that obtain users where u: "object_member c ''users'' = Some (JObject users)"
      "power_level_member users u enc = Some l"
      by (auto simp: other_level_def object_member_as_object_def split: option.splits json.splits)
    then show ?thesis
      using within_limits_member [OF m u(1)] power_level_member_bound by blast
  qed
  then show ?thesis
    using extract_power_level_key_bound [OF assms creator_power_pos(1)]
    by (auto simp: extract_user_power_level_eq [OF Some] split: option.splits)
qed

lemma effective_sender_power_bound:
  "within_limits n pl \<Longrightarrow> effective_sender_power pl u create p \<le> creator_power"
  using extract_user_power_level_bound creator_power_pos
  by (auto simp: effective_sender_power_def Let_def)

section \<open>A sample room\<close>

definition sample_create :: json where
  "sample_create = JObject [(''type'', JString ''m.room.create''), (''sender'', JString ''@a:x''),
     (''content'', JObject [])]"

definition sample_levels :: json_object where
  "sample_levels = [(''users'', JObject [(''@a:x'', JInt 100), (''@b:x'', JInt 50)])]"

definition sample_joined :: json where
  "sample_joined = JObject [(''content'', JObject [(''membership'', JString ''join'')])]"

definition sample_auth :: auth_event_map where
  "sample_auth = empty_auth_event_map
     \<lparr>auth_create := sample_create, auth_power_levels := JObject [(''content'', JObject sample_levels)],
      auth_sender_member := sample_joined\<rparr>"

definition sample_power_event :: json_object where
  "sample_power_event = [(''type'', JString ''m.room.power_levels''), (''sender'', JString ''@b:x''),
     (''state_key'', JString ''''),
     (''content'', JObject [(''users'', JObject [(''@a:x'', JInt 100), (''@b:x'', JInt 50), (''@c:x'', JInt 50)])])]"

definition sample_join_event :: json_object where
  "sample_join_event = [(''type'', JString ''m.room.member''), (''sender'', JString ''@b:x''),
     (''state_key'', JString ''@b:x''), (''content'', JObject [(''membership'', JString ''join'')])]"

definition sample_ban_event :: json_object where
  "sample_ban_event = [(''type'', JString ''m.room.member''), (''sender'', JString ''@b:x''),
     (''state_key'', JString ''@c:x''), (''content'', JObject [(''membership'', JString ''ban'')])]"

definition sample_message_event :: json_object where
  "sample_message_event = [(''type'', JString ''m.room.message''), (''sender'', JString ''@c:x'')]"

lemma sample_power_event_allowed:
  "allowed (authorize_event_against_auth_events hex_sodium (JObject sample_power_event) (default_policy ''11'')
     sample_auth)"
  by code_simp

lemma sample_facts:
  "string_member sample_power_event ''type'' = Some ''m.room.power_levels''"
  "string_member sample_power_event ''sender'' = Some ''@b:x''"
  "event_content (auth_power_levels sample_auth) = Some sample_levels"
  "string_member sample_join_event ''type'' = Some ''m.room.member''"
  "string_member sample_join_event ''sender'' = Some ''@b:x''"
  "string_member sample_join_event ''state_key'' = Some ''@b:x''"
  "extract_content_membership (JObject sample_join_event) = ''join''"
  "string_member sample_ban_event ''type'' = Some ''m.room.member''"
  "string_member sample_ban_event ''sender'' = Some ''@b:x''"
  "string_member sample_ban_event ''state_key'' = Some ''@c:x''"
  "extract_content_membership (JObject sample_ban_event) = ''ban''"
  "string_member sample_message_event ''type'' = Some ''m.room.message''"
  "string_member sample_message_event ''sender'' = Some ''@c:x''"
  "string_member sample_message_event ''state_key'' = None"
  by (simp_all add: sample_power_event_def sample_auth_def sample_join_event_def sample_ban_event_def
      sample_message_event_def string_member_def event_content_def object_member_as_object_def
      extract_content_membership_def event_content_string_def)

lemma sample_other_allowed:
  "allowed (authorize_event_against_auth_events hex_sodium (JObject sample_join_event) (default_policy ''11'')
     sample_auth)"
  "allowed (authorize_event_against_auth_events hex_sodium (JObject sample_ban_event) (default_policy ''11'')
     sample_auth)"
  "allowed (authorize_event_against_auth_events hex_sodium (JObject sample_message_event) (default_policy ''11'')
     sample_auth)"
  by code_simp+

lemma sample_within: "within_limits (Suc (Suc (Suc 0))) (auth_power_levels sample_auth)"
  by (simp add: sample_auth_def sample_levels_def max_object_members_def)

section \<open>Properties\<close>

text \<open>
  C1: no privilege escalation. When an \<open>m.room.power_levels\<close> event is allowed over a previous one,
  no user's power in the new event exceeds the largest of the sender's power, what the user already had,
  the previous default for users, and 0.
\<close>

theorem power_levels_no_escalation:
  assumes ok: "allowed (authorize_event_against_auth_events na (JObject obj) p ae)"
    and t: "string_member obj ''type'' = Some ''m.room.power_levels''"
    and s: "string_member obj ''sender'' = Some s"
    and old: "event_content (auth_power_levels ae) = Some oc"
  shows "extract_user_power_level (JObject obj) u (power_level_encoding p) \<le>
    Max {effective_sender_power (auth_power_levels ae) s (auth_create ae) p,
         extract_user_power_level (auth_power_levels ae) u (power_level_encoding p),
         extract_power_level_key (auth_power_levels ae) ''users_default'' 0 (power_level_encoding p), 0}"
proof -
  let ?enc = "power_level_encoding p" and ?P = "power_of ae p s"
  obtain nc where nc: "object_member_as_object obj ''content'' = Some nc"
    and ch: "allowed (authorize_power_level_changes p (auth_power_levels ae) nc s ?P)"
    using allowed_power_level_changes [OF allowed_power_levels [OF ok t s] old] by blast
  have new: "event_content (JObject obj) = Some nc"
    using nc by (simp add: event_content_def)
  note within = power_level_changes_within [OF ch old]
  show ?thesis
  proof (cases "other_level (object_member_as_object nc ''users'') u ?enc")
    case (Some l)
    then show ?thesis
      using within(3) [OF Some] by (auto simp: extract_user_power_level_eq [OF new] extract_user_power_level_eq [OF old])
  next
    case None
    have "extract_power_level_key (JObject obj) ''users_default'' 0 ?enc \<le>
        max (max ?P 0) (extract_power_level_key (auth_power_levels ae) ''users_default'' 0 ?enc)"
      using within(1) [OF users_default_is_scalar]
      by (auto simp: extract_power_level_key_eq [OF new] extract_power_level_key_eq [OF old]
          change_within_def split: option.splits)
    then show ?thesis
      using None by (auto simp: extract_user_power_level_eq [OF new])
  qed
qed

theorem power_levels_no_escalation_witness:
  "allowed (authorize_event_against_auth_events hex_sodium (JObject sample_power_event)
     (default_policy ''11'') sample_auth) \<and>
   extract_user_power_level (JObject sample_power_event) ''@c:x'' (power_level_encoding (default_policy ''11'')) \<le>
     Max {effective_sender_power (auth_power_levels sample_auth) ''@b:x'' (auth_create sample_auth)
            (default_policy ''11''),
          extract_user_power_level (auth_power_levels sample_auth) ''@c:x''
            (power_level_encoding (default_policy ''11'')),
          extract_power_level_key (auth_power_levels sample_auth) ''users_default'' 0
            (power_level_encoding (default_policy ''11'')), 0}"
  using power_levels_no_escalation [OF sample_power_event_allowed sample_facts(1-3)]
    sample_power_event_allowed by blast

text \<open>
  C8: the bounds of rule 9. When an \<open>m.room.power_levels\<close> event is allowed over a previous one, every
  scalar level and every entry of the bounded maps that changed was within the sender's power before and
  after, every user raised above the sender kept exactly the level they had, and every other user at or
  above the sender's power is untouched.
\<close>

theorem power_levels_changes_bounded:
  assumes ok: "allowed (authorize_event_against_auth_events na (JObject obj) p ae)"
    and t: "string_member obj ''type'' = Some ''m.room.power_levels''"
    and s: "string_member obj ''sender'' = Some s"
    and old: "event_content (auth_power_levels ae) = Some oc"
  shows "\<exists>nc. object_member_as_object obj ''content'' = Some nc \<and>
    (let P = effective_sender_power (auth_power_levels ae) s (auth_create ae) p;
         enc = power_level_encoding p;
         user = (\<lambda>c u. other_level (object_member_as_object c ''users'') u enc) in
     (\<forall>key \<in> set scalar_power_level_keys.
        change_within P (power_level_member oc key enc) (power_level_member nc key enc)) \<and>
     (\<forall>map_key \<in> set (bounded_power_level_maps p). \<forall>k.
        change_within P (other_level (object_member_as_object oc map_key) k enc)
          (other_level (object_member_as_object nc map_key) k enc)) \<and>
     (\<forall>u l. user nc u = Some l \<and> P < l \<longrightarrow> user oc u = Some l) \<and>
     (\<forall>u l. u \<noteq> s \<and> user oc u = Some l \<and> P \<le> l \<longrightarrow> user nc u = Some l))"
proof -
  obtain nc where nc: "object_member_as_object obj ''content'' = Some nc"
    and ch: "allowed (authorize_power_level_changes p (auth_power_levels ae) nc s (power_of ae p s))"
    using allowed_power_level_changes [OF allowed_power_levels [OF ok t s] old] by blast
  note within = power_level_changes_within [OF ch old]
  show ?thesis
    using within nc by (intro exI [of _ nc]) (fastforce simp: Let_def)
qed

theorem power_levels_changes_bounded_witness:
  "allowed (authorize_event_against_auth_events hex_sodium (JObject sample_power_event)
     (default_policy ''11'') sample_auth) \<and>
   (\<exists>nc. object_member_as_object sample_power_event ''content'' = Some nc)"
  using power_levels_changes_bounded [OF sample_power_event_allowed sample_facts(1-3)]
    sample_power_event_allowed by blast

text \<open>
  C2: who may join. An allowed join is the creator's first join right after the create event, or a user
  joining for themselves who is not banned and is let in by a public room, an invitation, their present
  membership, or, in a restricted room of a version that has them, a joined user with the power to invite
  whose server signed the event.
\<close>

theorem join_needs_a_right:
  assumes ok: "allowed (authorize_event_against_auth_events na (JObject obj) p ae)"
    and t: "string_member obj ''type'' = Some ''m.room.member''"
    and s: "string_member obj ''sender'' = Some s"
    and k: "string_member obj ''state_key'' = Some k"
    and m: "extract_content_membership (JObject obj) = ''join''"
  shows "(sole_prev_event_is_create (JObject obj) ae p \<and> k = room_creator_user_id (auth_create ae) p) \<or>
    (k = s \<and> target_membership ae s k \<noteq> Membership_ban \<and>
     (effective_join_rule ae = ''public'' \<or>
      target_membership ae s k = Membership_invite \<or> target_membership ae s k = Membership_join \<or>
      (effective_join_rule ae = ''restricted'' \<and> restricted_join_rule p \<or>
       effective_join_rule ae = ''knock_restricted'' \<and> knock_restricted_join_rule p) \<and>
      (\<exists>user. vouched (JObject obj) p ae user)))"
  using authorize_member_join [OF allowed_member [OF ok t s] k extract_content_membership_eq(1) [OF m]]
    authorize_join_allowed by blast

theorem join_needs_a_right_witness:
  "allowed (authorize_event_against_auth_events hex_sodium (JObject sample_join_event)
     (default_policy ''11'') sample_auth) \<and>
   target_membership sample_auth ''@b:x'' ''@b:x'' \<noteq> Membership_ban"
proof -
  have "\<not> sole_prev_event_is_create (JObject sample_join_event) sample_auth (default_policy ''11'')"
    by (simp add: sole_prev_event_is_create_def sample_join_event_def value_is_object_def)
  then show ?thesis
    using join_needs_a_right [OF sample_other_allowed(1) sample_facts(4-7)] sample_other_allowed(1) by blast
qed

text \<open>
  C7: removing another user. An allowed kick, unban or ban comes from a joined user with at least the
  kick or ban level and strictly more power than the target, and with the ban level to lift a ban. Since
  levels read from a parsed event stay below the creators' level, a privileged room creator is never the
  target.
\<close>

theorem removal_needs_more_power:
  assumes ok: "allowed (authorize_event_against_auth_events na (JObject obj) p ae)"
    and t: "string_member obj ''type'' = Some ''m.room.member''"
    and s: "string_member obj ''sender'' = Some s"
    and k: "string_member obj ''state_key'' = Some k" "k \<noteq> s"
    and m: "extract_content_membership (JObject obj) \<in> {''leave'', ''ban''}"
    and parsed: "within_limits n (auth_power_levels ae)"
  shows "current_membership (auth_sender_member ae) = Membership_join \<and>
    effective_sender_power (auth_power_levels ae) k (auth_create ae) p <
      effective_sender_power (auth_power_levels ae) s (auth_create ae) p \<and>
    (extract_content_membership (JObject obj) = ''ban'' \<or> target_membership ae s k = Membership_ban \<longrightarrow>
      power_or_default ae p ''ban'' 50 \<le> effective_sender_power (auth_power_levels ae) s (auth_create ae) p) \<and>
    (extract_content_membership (JObject obj) = ''leave'' \<longrightarrow>
      power_or_default ae p ''kick'' 50 \<le> effective_sender_power (auth_power_levels ae) s (auth_create ae) p) \<and>
    \<not> user_is_room_creator (auth_create ae) k p"
proof -
  note mem = allowed_member [OF ok t s]
  have creator: "\<not> user_is_room_creator (auth_create ae) k p"
    if "power_of ae p k < power_of ae p s"
    using that effective_sender_power_bound [OF parsed, of s "auth_create ae" p]
    by (auto simp: effective_sender_power_def [of _ k])
  show ?thesis
  proof (cases "extract_content_membership (JObject obj) = ''ban''")
    case True
    have "allowed (authorize_ban p ae s k (current_membership (auth_sender_member ae)))"
      by (rule authorize_member_ban [OF mem k(1) extract_content_membership_eq(3) [OF True]])
    then show ?thesis
      using creator True by (auto simp: authorize_ban_def Let_def split: if_splits)
  next
    case False
    then have leave: "extract_content_membership (JObject obj) = ''leave''"
      using m by simp
    have "allowed (authorize_leave p ae s k (current_membership (auth_sender_member ae))
        (target_membership ae s k))"
      by (rule authorize_member_leave [OF mem k(1) extract_content_membership_eq(2) [OF leave]])
    then show ?thesis
      using creator leave k(2) by (auto simp: authorize_leave_def Let_def split: if_splits)
  qed
qed

theorem removal_needs_more_power_witness:
  "allowed (authorize_event_against_auth_events hex_sodium (JObject sample_ban_event)
     (default_policy ''11'') sample_auth) \<and>
   \<not> user_is_room_creator (auth_create sample_auth) ''@c:x'' (default_policy ''11'')"
proof -
  have "''@c:x'' \<noteq> ''@b:x''" "extract_content_membership (JObject sample_ban_event) \<in> {''leave'', ''ban''}"
    using sample_facts(11) by simp_all
  then show ?thesis
    using removal_needs_more_power [OF sample_other_allowed(2) sample_facts(8-10) _ _ sample_within]
      sample_other_allowed(2) by blast
qed

text \<open>
  C9: who may send anything else. Outside create, member and (in the oldest rules) aliases events, an
  allowed event comes from a joined user. A third-party invite has the invite level and no condition on its
  state key. Any other event has a state key that is the sender's own when it starts with \<open>@\<close>; power levels
  (with or without a state key) and state events have the level their type requires of state events, the
  others the level their type requires of messages.
\<close>

theorem sender_joined_with_power:
  assumes ok: "allowed (authorize_event_against_auth_events na (JObject obj) p ae)"
    and t: "string_member obj ''type'' = Some t" "t \<noteq> ''m.room.create''" "t \<noteq> ''m.room.member''"
      "t \<noteq> ''m.room.aliases'' \<or> auth_rules_of p \<noteq> Auth_room_v1"
    and s: "string_member obj ''sender'' = Some s"
  shows "current_membership (auth_sender_member ae) = Membership_join \<and>
    (if t = ''m.room.third_party_invite'' then power_or_default ae p ''invite'' 0
     else if t = ''m.room.power_levels'' \<or> string_member obj ''state_key'' \<noteq> None
     then required_state_event_power (auth_power_levels ae) t p
     else required_message_power ae p t) \<le> effective_sender_power (auth_power_levels ae) s (auth_create ae) p \<and>
    (\<forall>k. string_member obj ''state_key'' = Some k \<longrightarrow> starts_with k ''@'' \<longrightarrow>
       k = s \<or> t = ''m.room.third_party_invite'')"
proof -
  have other: "allowed (authorize_other obj p ae t s)"
    by (rule allowed_other [OF ok t(1) s t(2,3,4)])
  have pl: "required_state_event_power (auth_power_levels ae) ''m.room.power_levels'' p \<le> power_of ae p s"
    if "allowed (authorize_power_levels obj p ae s)"
    using that by (auto simp: authorize_power_levels_def required_power_levels_level_def
        required_state_event_power_def Let_def split: if_splits)
  show ?thesis
    using other pl
    by (cases "string_member obj ''state_key''") (auto simp: authorize_other_def Let_def split: if_splits)
qed

theorem sender_joined_with_power_witness:
  "allowed (authorize_event_against_auth_events hex_sodium (JObject sample_message_event)
     (default_policy ''11'') sample_auth) \<and>
   required_message_power sample_auth (default_policy ''11'') ''m.room.message'' \<le>
     effective_sender_power (auth_power_levels sample_auth) ''@c:x'' (auth_create sample_auth)
       (default_policy ''11'')"
  using sender_joined_with_power [OF sample_other_allowed(3) sample_facts(12) _ _ _ sample_facts(13)]
    sample_other_allowed(3) by (simp add: sample_facts(14))

text \<open>
  C10: the root of a room. An allowed event is either a create event in a room that has none, without
  previous events and (before version 12) with a room id in its sender's domain and none of its own from
  version 12, or an event of a room that has a create event; and if that create event switches federation
  off, the sender belongs to the creator's server.
\<close>

theorem allowed_event_is_rooted:
  assumes ok: "allowed (authorize_event_against_auth_events na (JObject obj) p ae)"
    and s: "string_member obj ''sender'' = Some s"
  shows "if string_member obj ''type'' = Some ''m.room.create'' then
      auth_create ae = JNull \<and>
      object_member obj ''prev_events'' \<notin> {Some (JArray es) | es. es \<noteq> []} \<and>
      (case string_member obj ''room_id'' of
         None \<Rightarrow> create_event_is_room_id p
       | Some r \<Rightarrow> \<not> create_event_is_room_id p \<and> domain_of r = domain_of s)
    else auth_create ae \<noteq> JNull \<and>
      (room_is_non_federated (auth_create ae) \<longrightarrow>
        (\<exists>create c. auth_create ae = JObject create \<and> string_member create ''sender'' = Some c \<and>
           domain_of s = domain_of c))"
proof (cases "string_member obj ''type'' = Some ''m.room.create''")
  case True
  have "s \<noteq> []"
    using allowed_nonempty(2) [OF ok] s by simp
  then have c: "allowed (authorize_create obj p ae)"
    using ok authorize_event_object [OF True _ s, of na p ae] by simp
  then have "auth_create ae = JNull" "create_event_rejection_reason obj p = []"
    by (auto simp: authorize_create_def value_has_content_def Let_def split: if_splits)
  then show ?thesis
    using True s
    by (auto simp: create_event_rejection_reason_def create_room_id_reason_def Let_def
        split: if_splits option.splits json.splits)
next
  case False
  obtain t where t: "string_member obj ''type'' = Some t"
    using allowed_has_type_and_sender [OF ok] by blast
  then have "value_has_content (auth_create ae)" "federation_rejection (auth_create ae) s = None"
    using allowed_not_create [OF ok t _ s] False by auto
  then show ?thesis
    using False by (auto simp: value_has_content_def federation_rejection_def split: if_splits option.splits)
qed

theorem allowed_event_is_rooted_witness:
  "allowed (authorize_event_against_auth_events hex_sodium (JObject sample_message_event)
     (default_policy ''11'') sample_auth) \<and> auth_create sample_auth \<noteq> JNull"
  using allowed_event_is_rooted [OF sample_other_allowed(3) sample_facts(13)] sample_other_allowed(3)
  by (simp add: sample_facts(12))

end
