(* ===== verification/Containers.thy ===== *)
theory Containers
  imports Prelude "HOL-Library.AList"
begin

text \<open>
  The standard containers the server keeps its state in. A hash map is an association list with
  distinct keys, a hash set a distinct list, both in insertion order; the order in which a loop visits
  one is a parameter of the code that loops, constrained only to be a permutation
  (\<open>visits_all\<close>). An ordered set is a list sorted by its comparison, and \<open>std::stable_sort\<close> is
  insertion sort.
\<close>

section \<open>Hash maps and hash sets\<close>

text \<open>\<open>emplace\<close> and \<open>try_emplace\<close> keep an existing entry; \<open>m[k] = v\<close> replaces it.\<close>

definition map_emplace :: "'k \<Rightarrow> 'v \<Rightarrow> ('k \<times> 'v) list \<Rightarrow> ('k \<times> 'v) list" where
  "map_emplace k v m = (if k \<in> set (map fst m) then m else m @ [(k, v)])"

definition map_assign :: "'k \<Rightarrow> 'v \<Rightarrow> ('k \<times> 'v) list \<Rightarrow> ('k \<times> 'v) list" where
  "map_assign = AList.update"

definition set_insert :: "'a \<Rightarrow> 'a list \<Rightarrow> 'a list" where
  "set_insert x xs = (if x \<in> set xs then xs else xs @ [x])"

definition set_union :: "'a list \<Rightarrow> 'a list \<Rightarrow> 'a list" where
  "set_union xs ys = fold set_insert ys xs"

text \<open>The visit of a hash map: its keys in the order the container chooses.\<close>

definition visit_map :: "('k list \<Rightarrow> 'k list) \<Rightarrow> ('k \<times> 'v) list \<Rightarrow> ('k \<times> 'v) list" where
  "visit_map order m = map (\<lambda>k. (k, the (map_of m k))) (order (map fst m))"

definition visits_all :: "('k list \<Rightarrow> 'k list) \<Rightarrow> bool" where
  "visits_all order \<longleftrightarrow> (\<forall>xs. mset (order xs) = mset xs)"

lemma map_of_map_emplace [simp]:
  "map_of (map_emplace k v m) = (if k \<in> dom (map_of m) then map_of m else (map_of m)(k \<mapsto> v))"
proof (cases "k \<in> fst ` set m")
  case True
  then show ?thesis by (simp add: map_emplace_def dom_map_of_conv_image_fst)
next
  case False
  then have "map_of m k = None" by (simp add: map_of_eq_None_iff)
  then show ?thesis
    using False
    by (auto simp: map_emplace_def dom_map_of_conv_image_fst map_add_def fun_eq_iff split: option.splits)
qed

lemma keys_map_emplace [simp]:
  "set (map fst (map_emplace k v m)) = insert k (set (map fst m))"
  "fst ` set (map_emplace k v m) = insert k (fst ` set m)"
  by (auto simp: map_emplace_def)

lemma distinct_map_emplace [simp]:
  "distinct (map fst (map_emplace k v m)) \<longleftrightarrow> distinct (map fst m)"
  by (auto simp: map_emplace_def)

lemma map_emplace_in: "p \<in> set (map_emplace k v m) \<Longrightarrow> p = (k, v) \<or> p \<in> set m"
  by (auto simp: map_emplace_def split: if_splits)

lemma map_of_map_assign [simp]: "map_of (map_assign k v m) = (map_of m)(k \<mapsto> v)"
  by (simp add: map_assign_def update_conv')

lemma keys_map_assign [simp]: "fst ` set (map_assign k v m) = insert k (fst ` set m)"
  by (simp add: map_assign_def dom_update)

lemma distinct_map_assign [simp]:
  "distinct (map fst m) \<Longrightarrow> distinct (map fst (map_assign k v m))"
  by (simp add: map_assign_def distinct_update)

lemma set_insert_set [simp]: "set (set_insert x xs) = insert x (set xs)"
  by (auto simp: set_insert_def)

lemma set_insert_distinct [simp]: "distinct (set_insert x xs) \<longleftrightarrow> distinct xs"
  by (auto simp: set_insert_def)

lemma set_union_set [simp]: "set (set_union xs ys) = set xs \<union> set ys"
  by (induction ys arbitrary: xs) (auto simp: set_union_def)

lemma set_union_distinct [simp]: "distinct (set_union xs ys) \<longleftrightarrow> distinct xs"
  by (induction ys arbitrary: xs) (auto simp: set_union_def)

lemma visits_allD [simp]:
  assumes "visits_all order"
  shows "set (order xs) = set xs" "distinct (order xs) \<longleftrightarrow> distinct xs" "length (order xs) = length xs"
proof -
  have m: "mset (order xs) = mset xs"
    using assms by (simp add: visits_all_def)
  show "set (order xs) = set xs" "length (order xs) = length xs"
    using m by (rule mset_eq_setD, rule mset_eq_length)
  show "distinct (order xs) \<longleftrightarrow> distinct xs"
    by (rule mset_eq_imp_distinct_iff [OF m])
qed

lemma visits_all_id: "visits_all (\<lambda>xs. xs)"
  by (simp add: visits_all_def)

lemma visits_all_rev: "visits_all rev"
  by (simp add: visits_all_def)

lemma visit_map_set:
  assumes "visits_all order" "distinct (map fst m)"
  shows "set (visit_map order m) = set m"
proof -
  have "set (visit_map order m) = (\<lambda>k. (k, the (map_of m k))) ` fst ` set m"
    using assms(1) by (simp add: visit_map_def)
  also have "\<dots> = set m"
    using assms(2) by (force simp: image_image)
  finally show ?thesis .
qed

lemma visit_map_keys:
  assumes "visits_all order"
  shows "map fst (visit_map order m) = order (map fst m)"
  by (simp add: visit_map_def comp_def)

lemma mset_visit_map:
  assumes "visits_all order" "distinct (map fst m)"
  shows "mset (visit_map order m) = mset m"
proof -
  have "distinct (map fst (visit_map order m))"
    using assms by (simp add: visit_map_keys)
  then have "distinct (visit_map order m)" by (simp add: distinct_map)
  moreover have "distinct m" using assms(2) by (simp add: distinct_map)
  ultimately show ?thesis
    using visit_map_set [OF assms] by (simp add: set_eq_iff_mset_eq_distinct [symmetric])
qed

section \<open>Ordered sets\<close>

text \<open>\<open>std::set::insert\<close> with a comparison object: an equivalent element keeps its place.\<close>

fun ordered_insert :: "('a \<Rightarrow> 'a \<Rightarrow> bool) \<Rightarrow> 'a \<Rightarrow> 'a list \<Rightarrow> 'a list" where
  "ordered_insert lt x [] = [x]"
| "ordered_insert lt x (y # ys) =
     (if lt x y then x # y # ys else if lt y x then y # ordered_insert lt x ys else y # ys)"

text \<open>A strict total order on the elements of a set, as \<open>std::set\<close> and \<open>std::sort\<close> require.\<close>

definition strict_total_on :: "'a set \<Rightarrow> ('a \<Rightarrow> 'a \<Rightarrow> bool) \<Rightarrow> bool" where
  "strict_total_on A lt \<longleftrightarrow>
     (\<forall>x \<in> A. \<not> lt x x) \<and>
     (\<forall>x \<in> A. \<forall>y \<in> A. \<forall>z \<in> A. lt x y \<longrightarrow> lt y z \<longrightarrow> lt x z) \<and>
     (\<forall>x \<in> A. \<forall>y \<in> A. x \<noteq> y \<longrightarrow> lt x y \<or> lt y x)"

lemma strict_total_onD:
  assumes "strict_total_on A lt"
  shows "x \<in> A \<Longrightarrow> \<not> lt x x"
    and "x \<in> A \<Longrightarrow> y \<in> A \<Longrightarrow> z \<in> A \<Longrightarrow> lt x y \<Longrightarrow> lt y z \<Longrightarrow> lt x z"
    and "x \<in> A \<Longrightarrow> y \<in> A \<Longrightarrow> x \<noteq> y \<Longrightarrow> lt x y \<or> lt y x"
    and "x \<in> A \<Longrightarrow> y \<in> A \<Longrightarrow> lt x y \<Longrightarrow> \<not> lt y x"
  using assms unfolding strict_total_on_def by blast+

lemma strict_total_on_subset:
  "strict_total_on A lt \<Longrightarrow> B \<subseteq> A \<Longrightarrow> strict_total_on B lt"
  unfolding strict_total_on_def by blast

lemma ordered_insert_set:
  assumes "strict_total_on A lt" "x \<in> A" "set ys \<subseteq> A"
  shows "set (ordered_insert lt x ys) = insert x (set ys)"
  using assms(3)
proof (induction ys)
  case (Cons y ys)
  then show ?case
    using strict_total_onD(3) [OF assms(1,2), of y] by auto
qed simp

lemma ordered_insert_sorted:
  assumes "strict_total_on A lt" "x \<in> A" "set ys \<subseteq> A" "sorted_wrt lt ys"
  shows "sorted_wrt lt (ordered_insert lt x ys)"
  using assms(3,4)
proof (induction ys)
  case (Cons y ys)
  note tot = strict_total_onD [OF assms(1)]
  show ?case
  proof (cases "lt x y")
    case True
    then show ?thesis
      using Cons.prems tot(2) [OF assms(2), of y] by auto
  next
    case False
    then show ?thesis
      using Cons ordered_insert_set [OF assms(1,2), of ys] by auto
  qed
qed simp

lemma ordered_insert_length: "length (ordered_insert lt x ys) \<le> Suc (length ys)"
  by (induction ys) auto

lemma sorted_wrt_distinct:
  assumes "strict_total_on A lt" "set xs \<subseteq> A" "sorted_wrt lt xs"
  shows "distinct xs"
  using assms(2,3) by (induction xs) (use strict_total_onD(1) [OF assms(1)] in auto)

section \<open>Stable sorting\<close>

fun stable_insert :: "('a \<Rightarrow> 'a \<Rightarrow> bool) \<Rightarrow> 'a \<Rightarrow> 'a list \<Rightarrow> 'a list" where
  "stable_insert lt x [] = [x]"
| "stable_insert lt x (y # ys) = (if lt y x then y # stable_insert lt x ys else x # y # ys)"

text \<open>\<open>std::stable_sort\<close>: elements the comparison does not separate keep their order.\<close>

definition stable_sort :: "('a \<Rightarrow> 'a \<Rightarrow> bool) \<Rightarrow> 'a list \<Rightarrow> 'a list" where
  "stable_sort lt xs = foldr (stable_insert lt) xs []"

lemma mset_stable_insert [simp]: "mset (stable_insert lt x ys) = add_mset x (mset ys)"
  by (induction ys) auto

lemma mset_stable_sort [simp]: "mset (stable_sort lt xs) = mset xs"
  by (induction xs) (auto simp: stable_sort_def)

lemma set_stable_sort [simp]: "set (stable_sort lt xs) = set xs"
  by (metis mset_stable_sort set_mset_mset)

lemma stable_insert_sorted:
  assumes tot: "strict_total_on A lt" and "x \<in> A" "set ys \<subseteq> A" "x \<notin> set ys" "sorted_wrt lt ys"
  shows "sorted_wrt lt (stable_insert lt x ys)"
  using assms(3-5)
proof (induction ys)
  case (Cons y ys)
  note tots = strict_total_onD [OF tot]
  have set: "set (stable_insert lt x ys) = insert x (set ys)"
    using mset_stable_insert [of lt x ys] by (metis set_mset_add_mset_insert set_mset_mset)
  show ?case
  proof (cases "lt y x")
    case True
    then show ?thesis using Cons set by auto
  next
    case False
    then have "lt x y"
      using tots(3) [of x y] assms(2) Cons.prems by auto
    then show ?thesis
      using False Cons.prems tots(2) [OF assms(2), of y] by auto
  qed
qed simp

lemma stable_sort_sorted:
  assumes "strict_total_on (set xs) lt" "distinct xs"
  shows "sorted_wrt lt (stable_sort lt xs)"
proof -
  have "sorted_wrt lt (foldr (stable_insert lt) ys [])" if "set ys \<subseteq> set xs" "distinct ys" for ys
    using that
  proof (induction ys)
    case (Cons y ys)
    have "set (foldr (stable_insert lt) ys []) = set ys"
      using set_stable_sort [of lt ys] by (simp add: stable_sort_def)
    then show ?case
      using Cons stable_insert_sorted [OF assms(1), of y "foldr (stable_insert lt) ys []"] by auto
  qed simp
  then show ?thesis using assms(2) by (simp add: stable_sort_def)
qed

text \<open>A list sorted by a strict total order is determined by its elements.\<close>

lemma sorted_wrt_unique:
  assumes tot: "strict_total_on A lt" and "set xs \<subseteq> A" "set ys = set xs"
    and "sorted_wrt lt xs" "sorted_wrt lt ys"
  shows "xs = ys"
  using assms(2-5)
proof (induction xs arbitrary: ys)
  case (Cons x xs)
  note tots = strict_total_onD [OF tot]
  obtain y zs where ys: "ys = y # zs"
    using Cons.prems(2) by (cases ys) auto
  have A: "x \<in> A" "y \<in> A" using Cons.prems(1,2) ys by auto
  have xy: "y = x"
  proof (rule ccontr)
    assume "y \<noteq> x"
    then have "y \<in> set xs" "x \<in> set zs" using Cons.prems(2) ys by auto
    then have "lt x y" "lt y x" using Cons.prems(3,4) ys by auto
    then show False using tots(4) A by blast
  qed
  have "x \<notin> set xs" "x \<notin> set zs"
    using Cons.prems(3,4) ys xy tots(1) [OF A(1)] by auto
  then have "set zs = set xs" using Cons.prems(2) ys xy by auto
  then show ?case using Cons ys xy by auto
qed simp

end
