(* ===== verification/Kahn.thy ===== *)
theory Kahn
  imports Containers
begin

text \<open>
  Kahn's algorithm, which the server runs twice: to put power events in reverse topological power order
  and to reject cycles in the auth graph. The interface is a finite graph; the lemmas say that a run
  whose steps keep the bookkeeping below emits nodes only after all their predecessors, and that it
  emits every node exactly when the graph has no cycle.
\<close>

section \<open>Bookkeeping\<close>

text \<open>The number of edges into a node from nodes not yet emitted.\<close>

definition waiting :: "'n set \<Rightarrow> ('n \<Rightarrow> 'n list) \<Rightarrow> 'n list \<Rightarrow> 'n \<Rightarrow> nat" where
  "waiting nodes succs emitted n = (\<Sum>m \<in> nodes - set emitted. count_list (succs m) n)"

definition graph_edges :: "'n set \<Rightarrow> ('n \<Rightarrow> 'n list) \<Rightarrow> ('n \<times> 'n) set" where
  "graph_edges nodes succs = {(m, n). m \<in> nodes \<and> n \<in> set (succs m)}"

definition in_topological_order :: "'n set \<Rightarrow> ('n \<Rightarrow> 'n list) \<Rightarrow> 'n list \<Rightarrow> bool" where
  "in_topological_order nodes succs xs \<longleftrightarrow>
     (\<forall>i < length xs. \<forall>m. (m, xs ! i) \<in> graph_edges nodes succs \<longrightarrow> m \<in> set (take i xs))"

definition kahn_state ::
    "'n set \<Rightarrow> ('n \<Rightarrow> 'n list) \<Rightarrow> 'n list \<Rightarrow> 'n list \<Rightarrow> ('n \<Rightarrow> int) \<Rightarrow> bool" where
  "kahn_state nodes succs emitted ready degree \<longleftrightarrow>
     distinct (emitted @ ready) \<and> set (emitted @ ready) \<subseteq> nodes \<and>
     (\<forall>n \<in> nodes. degree n = int (waiting nodes succs emitted n)) \<and>
     (\<forall>n \<in> nodes. waiting nodes succs emitted n = 0 \<longleftrightarrow> n \<in> set (emitted @ ready)) \<and>
     in_topological_order nodes succs emitted"

lemma kahn_stateD:
  assumes "kahn_state nodes succs emitted ready degree"
  shows "distinct (emitted @ ready)" "set (emitted @ ready) \<subseteq> nodes"
    "n \<in> nodes \<Longrightarrow> degree n = int (waiting nodes succs emitted n)"
    "n \<in> nodes \<Longrightarrow> waiting nodes succs emitted n = 0 \<longleftrightarrow> n \<in> set (emitted @ ready)"
    "in_topological_order nodes succs emitted"
  using assms unfolding kahn_state_def by blast+

lemma in_topological_order_snoc:
  "in_topological_order nodes succs (xs @ [x]) \<longleftrightarrow>
     in_topological_order nodes succs xs \<and> (\<forall>m. (m, x) \<in> graph_edges nodes succs \<longrightarrow> m \<in> set xs)"
  by (auto simp: in_topological_order_def less_Suc_eq nth_append)

text \<open>At every step the emitted node comes before every other node that was ready.\<close>

definition greedy_order :: "'n set \<Rightarrow> ('n \<Rightarrow> 'n list) \<Rightarrow> ('n \<Rightarrow> 'n \<Rightarrow> bool) \<Rightarrow> 'n list \<Rightarrow> bool" where
  "greedy_order nodes succs before xs \<longleftrightarrow>
     (\<forall>k < length xs. \<forall>n \<in> nodes - set (take (Suc k) xs).
        waiting nodes succs (take k xs) n = 0 \<longrightarrow> before (xs ! k) n)"

lemma greedy_order_snoc:
  "greedy_order nodes succs before (xs @ [x]) \<longleftrightarrow>
     greedy_order nodes succs before xs \<and>
     (\<forall>n \<in> nodes - set (xs @ [x]). waiting nodes succs xs n = 0 \<longrightarrow> before x n)"
  by (auto simp: greedy_order_def less_Suc_eq nth_append)

lemma first_position: "x \<in> set xs \<Longrightarrow> length (takeWhile (\<lambda>y. y \<noteq> x) xs) < length xs"
  by (induction xs) auto

section \<open>Finite graphs\<close>

locale kahn_graph =
  fixes nodes :: "'n set" and succs :: "'n \<Rightarrow> 'n list"
  assumes finite_nodes: "finite nodes"
    and succs_nodes: "m \<in> nodes \<Longrightarrow> set (succs m) \<subseteq> nodes"
begin

lemma waiting_eq_0:
  "waiting nodes succs emitted n = 0 \<longleftrightarrow>
     (\<forall>m. (m, n) \<in> graph_edges nodes succs \<longrightarrow> m \<in> set emitted)"
  using finite_nodes by (auto simp: waiting_def graph_edges_def count_list_0_iff)

lemma waiting_snoc:
  assumes "x \<in> nodes" "x \<notin> set emitted"
  shows "waiting nodes succs emitted n =
    count_list (succs x) n + waiting nodes succs (emitted @ [x]) n"
proof -
  have eq: "nodes - set emitted = insert x (nodes - set (emitted @ [x]))"
    using assms by auto
  show ?thesis
    unfolding waiting_def eq using finite_nodes by (subst sum.insert) auto
qed

lemma kahn_init:
  assumes "distinct ready" "set ready = {n \<in> nodes. degree n = 0}"
    and "\<And>n. n \<in> nodes \<Longrightarrow> degree n = int (waiting nodes succs [] n)"
  shows "kahn_state nodes succs [] ready degree"
  using assms by (auto simp: kahn_state_def in_topological_order_def)

text \<open>Emitting a ready node and releasing its successors one edge at a time.\<close>

lemma kahn_step:
  assumes inv: "kahn_state nodes succs emitted (x # ready) degree"
    and "distinct ready'"
    and ready': "set ready' = set ready \<union> {n \<in> set (succs x). degree n = int (count_list (succs x) n)}"
    and degree': "\<And>n. n \<in> nodes \<Longrightarrow> degree' n = degree n - int (count_list (succs x) n)"
  shows "kahn_state nodes succs (emitted @ [x]) ready' degree'"
proof -
  note inv' = kahn_stateD [OF inv]
  have x: "x \<in> nodes" "x \<notin> set emitted" "x \<notin> set ready" using inv'(1,2) by auto
  note snoc = waiting_snoc [OF x(1,2)]
  have succ: "n \<in> nodes \<and> n \<notin> set (emitted @ x # ready)" if "n \<in> set (succs x)" for n
  proof -
    have n: "n \<in> nodes" using succs_nodes [OF x(1)] that by blast
    have "(x, n) \<in> graph_edges nodes succs" using that x(1) by (simp add: graph_edges_def)
    then have "waiting nodes succs emitted n \<noteq> 0" using x(2) waiting_eq_0 [of emitted n] by blast
    then show ?thesis using inv'(4) [OF n] n by simp
  qed
  have deg: "degree' n = int (waiting nodes succs (emitted @ [x]) n)" if "n \<in> nodes" for n
    using degree' [OF that] inv'(3) [OF that] snoc [of n] by simp
  have ready_iff: "n \<in> set (emitted @ [x]) \<union> set ready'"
    if n: "n \<in> nodes" and w: "waiting nodes succs (emitted @ [x]) n = 0" for n
  proof (cases "n \<in> set (succs x)")
    case True
    then show ?thesis using ready' inv'(3) [OF n] snoc [of n] w by simp
  next
    case False
    then have "waiting nodes succs emitted n = 0" using snoc [of n] w by (simp add: count_list_0_iff)
    then show ?thesis using inv'(4) [OF n] ready' by auto
  qed
  have zero: "waiting nodes succs (emitted @ [x]) n = 0"
    if n: "n \<in> set (emitted @ [x]) \<union> set ready'" for n
  proof (cases "n \<in> set (succs x)")
    case True
    then have "n \<in> nodes" "degree n = int (count_list (succs x) n)"
      using n ready' succ by auto
    then show ?thesis using inv'(3) snoc [of n] by simp
  next
    case False
    then have mem: "n \<in> set (emitted @ x # ready)" using n ready' by auto
    then have "n \<in> nodes" using inv'(2) by blast
    then have "waiting nodes succs emitted n = 0" using inv'(4) mem by blast
    then show ?thesis using snoc [of n] by simp
  qed
  have x0: "waiting nodes succs emitted x = 0" using inv'(4) [OF x(1)] by simp
  then have order: "in_topological_order nodes succs (emitted @ [x])"
    using inv'(5) waiting_eq_0 [of emitted x] by (simp add: in_topological_order_snoc)
  have dist: "distinct ((emitted @ [x]) @ ready')"
    using inv'(1) assms(2) ready' succ by auto
  have sub: "set ((emitted @ [x]) @ ready') \<subseteq> nodes"
    using inv'(2) ready' succ by auto
  have iff: "waiting nodes succs (emitted @ [x]) n = 0 \<longleftrightarrow> n \<in> set ((emitted @ [x]) @ ready')"
    if "n \<in> nodes" for n
    using ready_iff [OF that] zero [of n] by auto
  show ?thesis
    unfolding kahn_state_def using dist sub deg iff order by blast
qed

lemma complete_iff:
  assumes "distinct emitted" "set emitted \<subseteq> nodes"
  shows "length emitted = card nodes \<longleftrightarrow> set emitted = nodes"
proof -
  have "card (set emitted) = length emitted" using assms(1) by (rule distinct_card)
  then show ?thesis using card_subset_eq [OF finite_nodes assms(2)] by (auto simp: assms(1))
qed

lemma order_acyclic:
  assumes "in_topological_order nodes succs emitted" "set emitted = nodes"
  shows "acyclic (graph_edges nodes succs)"
proof -
  define pos where "pos n = length (takeWhile (\<lambda>m. m \<noteq> n) emitted)" for n
  have "pos m < pos n" if e: "(m, n) \<in> graph_edges nodes succs" for m n
  proof -
    have n: "n \<in> set emitted" using e assms(2) succs_nodes by (auto simp: graph_edges_def)
    have i: "pos n < length emitted" "emitted ! pos n = n"
      using first_position [OF n] nth_length_takeWhile [of "\<lambda>m. m \<noteq> n" emitted] by (simp_all add: pos_def)
    have m: "m \<in> set (take (pos n) emitted)"
      using assms(1) i e unfolding in_topological_order_def by metis
    have "takeWhile (\<lambda>k. k \<noteq> m) (take (pos n) emitted @ drop (pos n) emitted) =
        takeWhile (\<lambda>k. k \<noteq> m) (take (pos n) emitted)"
      by (rule takeWhile_append1 [OF m]) simp
    then show "pos m < pos n"
      using first_position [OF m] by (simp add: pos_def)
  qed
  then have "graph_edges nodes succs \<subseteq> inv_image less_than pos" by auto
  then show ?thesis
    using acyclic_subset wf_acyclic [OF wf_inv_image [OF wf_less_than]] by blast
qed

lemma acyclic_emits_all:
  assumes inv: "kahn_state nodes succs emitted [] degree" and acyclic: "acyclic (graph_edges nodes succs)"
  shows "set emitted = nodes"
proof -
  have "graph_edges nodes succs \<subseteq> nodes \<times> nodes"
    using succs_nodes by (auto simp: graph_edges_def)
  then have "finite (graph_edges nodes succs)"
    using finite_nodes finite_subset finite_cartesian_product by metis
  then have wf: "wf (graph_edges nodes succs)" using acyclic by (rule finite_acyclic_wf)
  have "n \<in> nodes \<longrightarrow> n \<in> set emitted" for n
  proof (induction n rule: wf_induct_rule [OF wf])
    case (1 n)
    have "m \<in> set emitted" if "(m, n) \<in> graph_edges nodes succs" for m
      using 1 [OF that] that by (simp add: graph_edges_def)
    then have "waiting nodes succs emitted n = 0" unfolding waiting_eq_0 by blast
    then show ?case using kahn_stateD(4) [OF inv, of n] by simp
  qed
  then show ?thesis using kahn_stateD(2) [OF inv] by auto
qed

lemma kahn_complete_iff:
  assumes inv: "kahn_state nodes succs emitted [] degree"
  shows "length emitted = card nodes \<longleftrightarrow> acyclic (graph_edges nodes succs)"
proof -
  have "length emitted = card nodes \<longleftrightarrow> set emitted = nodes"
    using complete_iff [of emitted] kahn_stateD(1,2) [OF inv] by simp
  then show ?thesis
    using order_acyclic [OF kahn_stateD(5) [OF inv]] acyclic_emits_all [OF inv] by blast
qed

lemma kahn_emitted:
  assumes "kahn_state nodes succs emitted [] degree" "length emitted = card nodes"
  shows "distinct emitted" "set emitted = nodes" "in_topological_order nodes succs emitted"
proof -
  note inv = kahn_stateD [OF assms(1)]
  show "distinct emitted" "in_topological_order nodes succs emitted" using inv(1,5) by simp_all
  show "set emitted = nodes" using complete_iff [of emitted] inv(1,2) assms(2) by simp
qed

end

end
