(* ===== verification/AuthChain.thy ===== *)
theory AuthChain
  imports Authorization Kahn
begin

text \<open>
  The auth chains of \<open>src/src/events/state_resolution.cpp\<close>: references to state events, the source that
  fetches events by id within a budget (\<open>AuthChainEventSource\<close>), the walk over \<open>auth_events\<close>, the auth
  difference of a list of state groups and the conflicted state subgraph of room version 12. Every
  function that reads through the source returns it updated. The walks are shown to compute reachability
  in the graph of the fetchable events, and to fail only when an event is missing or a cap is passed.
\<close>

section \<open>State events and groups\<close>

record state_key =
  key_event_type :: byte_string
  key_state_key :: byte_string

record state_event_reference =
  ref_key :: state_key
  ref_event_id :: byte_string
  ref_sender :: byte_string
  ref_origin_server_ts :: int
  ref_depth :: "64 word"
  ref_event_json :: json
  ref_rejected :: bool

record state_group =
  group_id :: byte_string
  group_state :: "state_event_reference list"

type_synonym state_map = "(state_key \<times> state_event_reference) list"
type_synonym event_json_index = "(byte_string \<times> json) list"
type_synonym event_lookup_fn = "(byte_string \<Rightarrow> state_event_reference option) option"

abbreviation state_key_of :: "byte_string \<Rightarrow> byte_string \<Rightarrow> state_key" where
  "state_key_of ty key \<equiv> \<lparr>key_event_type = ty, key_state_key = key\<rparr>"

record state_resolution_limits =
  limit_state_groups :: nat
  limit_events_per_state_group :: nat
  limit_conflicted_state_keys :: nat
  limit_mainline_auth_chain_depth :: nat
  limit_auth_chain_walk_events :: nat
  limit_total_state_events :: nat

definition max_auth_events_per_event :: nat where
  "max_auth_events_per_event = 10"

definition default_limits :: state_resolution_limits where
  "default_limits =
     \<lparr>limit_state_groups = 1000, limit_events_per_state_group = 65536,
      limit_conflicted_state_keys = 65536, limit_mainline_auth_chain_depth = 10000,
      limit_auth_chain_walk_events = 131072, limit_total_state_events = 131072\<rparr>"

definition array_member :: "json_object \<Rightarrow> byte_string \<Rightarrow> json list option" where
  "array_member obj key = (case object_member obj key of Some (JArray es) \<Rightarrow> Some es | _ \<Rightarrow> None)"

definition auth_entry_event_id :: "json \<Rightarrow> byte_string option" where
  "auth_entry_event_id entry =
     (case entry of
        JString eid \<Rightarrow> Some eid
      | JArray (JString eid # _) \<Rightarrow> Some eid
      | _ \<Rightarrow> None)"

text \<open>The ids the walks follow: entries that name no event are skipped.\<close>

definition event_auth_ids :: "json \<Rightarrow> byte_string list" where
  "event_auth_ids event =
     (case value_is_object event of
        None \<Rightarrow> []
      | Some obj \<Rightarrow>
          (case array_member obj ''auth_events'' of
             None \<Rightarrow> []
           | Some auth \<Rightarrow> List.map_filter auth_entry_event_id auth))"

section \<open>The event source\<close>

text \<open>
  \<open>source_fetched\<close> is \<open>fetched_\<close> together with \<open>fetched_index_\<close>: an id recorded as not found has no
  reference. \<open>source_lookup\<close> is the caller's function, absent when it is empty.
\<close>

record auth_chain_event_source =
  source_known :: event_json_index
  source_lookup :: event_lookup_fn
  source_budget :: nat
  source_used :: nat
  source_missing :: bool
  source_fetched :: "(byte_string \<times> state_event_reference option) list"
  source_rejected :: "byte_string list"

definition new_event_source ::
    "event_json_index \<Rightarrow> event_lookup_fn \<Rightarrow> nat \<Rightarrow> byte_string list \<Rightarrow> auth_chain_event_source" where
  "new_event_source known lookup budget rejected =
     \<lparr>source_known = known, source_lookup = lookup, source_budget = budget, source_used = 0,
      source_missing = False, source_fetched = [], source_rejected = rejected\<rparr>"

definition fetch ::
    "auth_chain_event_source \<Rightarrow> byte_string \<Rightarrow> json option \<times> auth_chain_event_source" where
  "fetch src event_id =
     (case map_of (source_known src) event_id of
        Some v \<Rightarrow> (Some v, src)
      | None \<Rightarrow>
          (case map_of (source_fetched src) event_id of
             Some entry \<Rightarrow> (map_option ref_event_json entry, src)
           | None \<Rightarrow>
               (let not_found = (\<lambda>s. s\<lparr>source_fetched := map_emplace event_id None (source_fetched s)\<rparr>) in
                case source_lookup src of
                  None \<Rightarrow> (None, not_found src)
                | Some look \<Rightarrow>
                    if source_budget src \<le> source_used src then (None, not_found src)
                    else
                      let src' = src\<lparr>source_used := source_used src + 1\<rparr> in
                      (case look event_id of
                         None \<Rightarrow> (None, not_found src')
                       | Some fetched \<Rightarrow>
                           (Some (ref_event_json fetched),
                            src'\<lparr>source_rejected :=
                                   (if ref_rejected fetched then set_insert event_id (source_rejected src')
                                    else source_rejected src'),
                                 source_fetched := map_emplace event_id (Some fetched) (source_fetched src')\<rparr>)))))"

definition find_required ::
    "auth_chain_event_source \<Rightarrow> byte_string \<Rightarrow> json option \<times> auth_chain_event_source" where
  "find_required src event_id =
     (case fetch src event_id of
        (None, src') \<Rightarrow> (None, src'\<lparr>source_missing := True\<rparr>)
      | (Some v, src') \<Rightarrow> (Some v, src'))"

definition find_optional ::
    "auth_chain_event_source \<Rightarrow> byte_string \<Rightarrow> json option \<times> auth_chain_event_source" where
  "find_optional src event_id = fetch src event_id"

definition is_rejected :: "auth_chain_event_source \<Rightarrow> byte_string \<Rightarrow> bool" where
  "is_rejected src event_id \<longleftrightarrow> event_id \<in> set (source_rejected src)"

section \<open>Walking the auth chain\<close>

text \<open>
  The frontier is a stack, its back at the head of the list; the chain grows by one event per step that
  passes the first test, so the cap bounds the walk.
\<close>

function walk_frontier ::
    "nat \<Rightarrow> byte_string list \<Rightarrow> byte_string list \<Rightarrow> auth_chain_event_source
      \<Rightarrow> byte_string list option \<times> auth_chain_event_source" where
  "walk_frontier cap [] chain src = (Some chain, src)"
| "walk_frontier cap (eid # frontier) chain src =
     (if eid \<in> set chain then walk_frontier cap frontier chain src
      else if cap < length (chain @ [eid]) then (None, src)
      else case find_required src eid of
        (None, src') \<Rightarrow> (None, src')
      | (Some event, src') \<Rightarrow>
          walk_frontier cap
            (rev (filter (\<lambda>nid. nid \<notin> set (chain @ [eid])) (event_auth_ids event)) @ frontier)
            (chain @ [eid]) src')"
  by pat_completeness auto
termination
  by (relation "measures [\<lambda>(cap, frontier, chain, src). cap - length chain,
                          \<lambda>(cap, frontier, chain, src). length frontier]") auto

definition walk_auth_chain ::
    "json \<Rightarrow> auth_chain_event_source \<Rightarrow> nat \<Rightarrow> byte_string list option \<times> auth_chain_event_source" where
  "walk_auth_chain start_json src cap = walk_frontier cap (rev (event_auth_ids start_json)) [] src"

fun full_auth_chain_of_events ::
    "nat \<Rightarrow> state_event_reference list \<Rightarrow> byte_string list \<Rightarrow> auth_chain_event_source
      \<Rightarrow> byte_string list option \<times> auth_chain_event_source" where
  "full_auth_chain_of_events cap [] result src = (Some result, src)"
| "full_auth_chain_of_events cap (event # events) result src =
     (if \<not> value_has_content (ref_event_json event) then full_auth_chain_of_events cap events result src
      else case walk_auth_chain (ref_event_json event) src cap of
        (None, src') \<Rightarrow> (None, src')
      | (Some chain, src') \<Rightarrow>
          (if cap < length (set_union result chain) then (None, src')
           else full_auth_chain_of_events cap events (set_union result chain) src'))"

definition full_auth_chain_of_group ::
    "state_group \<Rightarrow> auth_chain_event_source \<Rightarrow> nat \<Rightarrow> byte_string list option \<times> auth_chain_event_source" where
  "full_auth_chain_of_group grp src cap = full_auth_chain_of_events cap (group_state grp) [] src"

fun chains_of_groups ::
    "nat \<Rightarrow> state_group list \<Rightarrow> auth_chain_event_source
      \<Rightarrow> byte_string list list option \<times> auth_chain_event_source" where
  "chains_of_groups cap [] src = (Some [], src)"
| "chains_of_groups cap (grp # groups) src =
     (case full_auth_chain_of_group grp src cap of
        (None, src') \<Rightarrow> (None, src')
      | (Some chain, src') \<Rightarrow>
          (case chains_of_groups cap groups src' of
             (None, src'') \<Rightarrow> (None, src'')
           | (Some all_chains, src'') \<Rightarrow> (Some (chain # all_chains), src'')))"

definition compute_auth_difference ::
    "state_group list \<Rightarrow> auth_chain_event_source \<Rightarrow> nat \<Rightarrow> byte_string list option \<times> auth_chain_event_source"
where
  "compute_auth_difference groups src cap =
     (case chains_of_groups cap groups src of
        (None, src') \<Rightarrow> (None, src')
      | (Some all_chains, src') \<Rightarrow>
          (case all_chains of
             [] \<Rightarrow> (Some [], src')
           | front # rest \<Rightarrow>
               (let union_set = fold (\<lambda>chain acc. set_union acc chain) all_chains [];
                    intersection = fold (\<lambda>chain acc. filter (\<lambda>eid. eid \<in> set chain) acc) rest front
                in (Some (filter (\<lambda>eid. eid \<notin> set intersection) union_set), src'))))"

section \<open>The conflicted state subgraph\<close>

text \<open>\<open>[]\<close> for an id that \<open>operator[]\<close> would default-construct.\<close>

definition adjacent :: "(byte_string \<times> byte_string list) list \<Rightarrow> byte_string \<Rightarrow> byte_string list" where
  "adjacent graph eid = (case map_of graph eid of None \<Rightarrow> [] | Some ns \<Rightarrow> ns)"

fun unique_neighbours :: "json list \<Rightarrow> byte_string list \<Rightarrow> byte_string list option" where
  "unique_neighbours [] neighbours = Some neighbours"
| "unique_neighbours (entry # auth) neighbours =
     (case auth_entry_event_id entry of
        None \<Rightarrow> None
      | Some ancestor_id \<Rightarrow>
          if ancestor_id = [] \<or> ancestor_id \<in> set neighbours then None
          else unique_neighbours auth (neighbours @ [ancestor_id]))"

definition subgraph_neighbours :: "json option \<Rightarrow> byte_string list option" where
  "subgraph_neighbours event =
     (case event of
        None \<Rightarrow> None
      | Some v \<Rightarrow>
          (case value_is_object v of
             None \<Rightarrow> None
           | Some obj \<Rightarrow>
               (case array_member obj ''auth_events'' of
                  None \<Rightarrow> None
                | Some auth \<Rightarrow>
                    if max_auth_events_per_event < length auth then None else unique_neighbours auth [])))"

function collect_graph ::
    "nat \<Rightarrow> byte_string list \<Rightarrow> (byte_string \<times> byte_string list) list \<Rightarrow> auth_chain_event_source
      \<Rightarrow> (byte_string \<times> byte_string list) list option \<times> auth_chain_event_source" where
  "collect_graph cap [] graph src = (Some graph, src)"
| "collect_graph cap (eid # pending) graph src =
     (if eid \<in> set (map fst graph) then collect_graph cap pending graph src
      else if cap \<le> length graph then (None, src)
      else case find_required src eid of (event, src') \<Rightarrow>
        (case subgraph_neighbours event of
           None \<Rightarrow> (None, src')
         | Some neighbours \<Rightarrow>
             collect_graph cap (pending @ neighbours) (graph @ [(eid, neighbours)]) src'))"
  by pat_completeness auto
termination
  by (relation "measures [\<lambda>(cap, pending, graph, src). cap - length graph,
                          \<lambda>(cap, pending, graph, src). length pending]") auto

text \<open>
  Kahn's algorithm. A degree is an integer: \<open>--degree\<close> never goes below zero on the graphs that are
  collected.
\<close>

definition degree_of :: "(byte_string \<times> int) list \<Rightarrow> byte_string \<Rightarrow> int" where
  "degree_of indegree eid = (case map_of indegree eid of None \<Rightarrow> 0 | Some d \<Rightarrow> d)"

fun count_ancestors ::
    "(byte_string \<times> byte_string list) list \<Rightarrow> byte_string \<Rightarrow> byte_string list
      \<Rightarrow> (byte_string \<times> int) list \<times> (byte_string \<times> byte_string list) list
      \<Rightarrow> ((byte_string \<times> int) list \<times> (byte_string \<times> byte_string list) list) option" where
  "count_ancestors graph eid [] st = Some st"
| "count_ancestors graph eid (ancestor_id # ancestors) (indegree, reverse) =
     (if ancestor_id \<notin> set (map fst graph) then None
      else count_ancestors graph eid ancestors
        (map_assign ancestor_id (degree_of indegree ancestor_id + 1) indegree,
         map_assign ancestor_id (adjacent reverse ancestor_id @ [eid]) reverse))"

fun count_graph ::
    "(byte_string \<times> byte_string list) list \<Rightarrow> (byte_string \<times> byte_string list) list
      \<Rightarrow> (byte_string \<times> int) list \<times> (byte_string \<times> byte_string list) list
      \<Rightarrow> ((byte_string \<times> int) list \<times> (byte_string \<times> byte_string list) list) option" where
  "count_graph graph [] st = Some st"
| "count_graph graph ((eid, ancestors) # entries) (indegree, reverse) =
     (case count_ancestors graph eid ancestors (map_emplace eid 0 indegree, reverse) of
        None \<Rightarrow> None
      | Some st \<Rightarrow> count_graph graph entries st)"

fun release_ancestors ::
    "byte_string list \<Rightarrow> byte_string list \<times> (byte_string \<times> int) list
      \<Rightarrow> byte_string list \<times> (byte_string \<times> int) list" where
  "release_ancestors [] st = st"
| "release_ancestors (ancestor_id # ancestors) (ready, indegree) =
     (let degree = degree_of indegree ancestor_id - 1 in
      release_ancestors ancestors
        (if degree = 0 then ready @ [ancestor_id] else ready, map_assign ancestor_id degree indegree))"

definition unreleased :: "(byte_string \<times> int) list \<Rightarrow> nat" where
  "unreleased indegree = card {eid. 0 < degree_of indegree eid}"

lemma finite_unreleased: "finite {eid. 0 < degree_of indegree eid}"
  by (rule finite_subset [of _ "fst ` set indegree"])
    (auto simp: degree_of_def split: option.splits dest: map_of_SomeD intro: rev_image_eqI)

lemma degree_of_assign [simp]:
  "degree_of (map_assign a d indegree) eid = (if eid = a then d else degree_of indegree eid)"
  by (simp add: degree_of_def)

lemma release_ancestors_measure:
  "length (fst (release_ancestors as (ready, indegree))) +
     unreleased (snd (release_ancestors as (ready, indegree))) \<le> length ready + unreleased indegree"
proof (induction as arbitrary: ready indegree)
  case (Cons a as)
  let ?d = "degree_of indegree a - 1"
  let ?indegree = "map_assign a ?d indegree"
  let ?pos = "\<lambda>ind. {eid. 0 < degree_of ind eid}"
  have "length (if ?d = 0 then ready @ [a] else ready) + unreleased ?indegree
      \<le> length ready + unreleased indegree"
  proof (cases "?d = 0")
    case True
    then have "?pos indegree = insert a (?pos ?indegree)" "a \<notin> ?pos ?indegree"
      by auto
    then have "unreleased indegree = Suc (unreleased ?indegree)"
      using finite_unreleased [of ?indegree] by (simp add: unreleased_def)
    then show ?thesis using True by simp
  next
    case False
    then have "?pos ?indegree \<subseteq> ?pos indegree" by auto
    then show ?thesis
      using False card_mono [OF finite_unreleased [of indegree]] by (simp add: unreleased_def)
  qed
  then show ?case
    using Cons.IH [of "if ?d = 0 then ready @ [a] else ready" ?indegree] by (simp add: Let_def)
qed simp

function kahn_processed ::
    "(byte_string \<times> byte_string list) list \<Rightarrow> byte_string list \<Rightarrow> (byte_string \<times> int) list \<Rightarrow> nat \<Rightarrow> nat" where
  "kahn_processed graph [] indegree processed = processed"
| "kahn_processed graph (eid # ready) indegree processed =
     (case release_ancestors (adjacent graph eid) (ready, indegree) of
        (ready', indegree') \<Rightarrow> kahn_processed graph ready' indegree' (processed + 1))"
  by pat_completeness auto
termination
proof (relation "measure (\<lambda>(graph, ready, indegree, processed). length ready + unreleased indegree)",
    goal_cases)
  case (2 graph eid ready indegree processed ready' indegree')
  then have "release_ancestors (adjacent graph eid) (ready, indegree) = (ready', indegree')" by simp
  then show ?case
    using release_ancestors_measure [of "adjacent graph eid" ready indegree] by simp
qed simp

fun add_predecessors ::
    "byte_string list \<Rightarrow> byte_string list \<times> byte_string list \<Rightarrow> byte_string list \<times> byte_string list" where
  "add_predecessors [] st = st"
| "add_predecessors (predecessor # predecessors) (subgraph, queue) =
     (if predecessor \<in> set subgraph then add_predecessors predecessors (subgraph, queue)
      else add_predecessors predecessors (subgraph @ [predecessor], queue @ [predecessor]))"

lemma add_predecessors_eq:
  "\<exists>new. add_predecessors ps (subgraph, queue) = (subgraph @ new, queue @ new) \<and>
     set new = set ps - set subgraph \<and> distinct new"
proof (induction ps arbitrary: subgraph queue)
  case (Cons p ps)
  show ?case
  proof (cases "p \<in> set subgraph")
    case True
    then show ?thesis using Cons.IH [of subgraph queue] by auto
  next
    case False
    obtain new where "add_predecessors ps (subgraph @ [p], queue @ [p]) =
        ((subgraph @ [p]) @ new, (queue @ [p]) @ new)" "set new = set ps - set (subgraph @ [p])" "distinct new"
      using Cons.IH [of "subgraph @ [p]" "queue @ [p]"] by blast
    then show ?thesis using False by (intro exI [of _ "p # new"]) auto
  qed
qed simp

definition unreached :: "(byte_string \<times> byte_string list) list \<Rightarrow> byte_string list \<Rightarrow> nat" where
  "unreached reverse subgraph = card ((\<Union>(eid, ps) \<in> set reverse. set ps) - set subgraph)"

lemma adjacent_subset: "set (adjacent graph eid) \<subseteq> (\<Union>(eid, ps) \<in> set graph. set ps)"
proof (cases "map_of graph eid")
  case (Some ps)
  then have "(eid, ps) \<in> set graph" by (rule map_of_SomeD)
  then show ?thesis using Some by (force simp: adjacent_def)
qed (simp add: adjacent_def)

function reach_endpoints ::
    "(byte_string \<times> byte_string list) list \<Rightarrow> byte_string list \<Rightarrow> byte_string list \<Rightarrow> byte_string list" where
  "reach_endpoints reverse [] subgraph = subgraph"
| "reach_endpoints reverse (eid # queue) subgraph =
     (case add_predecessors (adjacent reverse eid) (subgraph, queue) of
        (subgraph', queue') \<Rightarrow> reach_endpoints reverse queue' subgraph')"
  by pat_completeness auto
termination
proof (relation "measures [\<lambda>(reverse, queue, subgraph). unreached reverse subgraph,
    \<lambda>(reverse, queue, subgraph). length queue]", goal_cases)
  case (2 reverse eid queue subgraph subgraph' queue')
  let ?U = "\<Union>(eid, ps) \<in> set reverse. set ps"
  have eq: "add_predecessors (adjacent reverse eid) (subgraph, queue) = (subgraph', queue')"
    using 2 by simp
  obtain new where new: "subgraph' = subgraph @ new" "queue' = queue @ new"
      "set new = set (adjacent reverse eid) - set subgraph"
    using add_predecessors_eq [of "adjacent reverse eid" subgraph queue] unfolding eq by blast
  show ?case
  proof (cases "new = []")
    case True
    then show ?thesis using new by simp
  next
    case False
    then have "\<exists>p. p \<in> set new" by (meson hd_in_set)
    then have "?U - set subgraph' \<subset> ?U - set subgraph"
      using new adjacent_subset [of reverse eid] by auto
    then have "unreached reverse subgraph' < unreached reverse subgraph"
      unfolding unreached_def by (intro psubset_card_mono) auto
    then show ?thesis by simp
  qed
qed simp

text \<open>\<open>order\<close> is the order in which the hash containers keyed by event ids are visited.\<close>

definition compute_conflicted_state_subgraph ::
    "(byte_string list \<Rightarrow> byte_string list) \<Rightarrow> byte_string list \<Rightarrow> auth_chain_event_source \<Rightarrow> nat
      \<Rightarrow> byte_string list option \<times> auth_chain_event_source" where
  "compute_conflicted_state_subgraph order conflicted_ids src cap =
     (if [] \<in> set conflicted_ids then (None, src)
      else case collect_graph cap (order conflicted_ids) [] src of
        (None, src') \<Rightarrow> (None, src')
      | (Some graph, src') \<Rightarrow>
          (case count_graph graph (visit_map order graph) ([], []) of
             None \<Rightarrow> (None, src')
           | Some (indegree, reverse) \<Rightarrow>
               (let ready = map fst (filter (\<lambda>(eid, degree). degree = 0) (visit_map order indegree)) in
                if kahn_processed graph ready indegree 0 \<noteq> length graph then (None, src')
                else (Some (reach_endpoints reverse (order conflicted_ids) (order conflicted_ids)), src'))))"

section \<open>What the source may return\<close>

text \<open>The event an id stands for: a known event, or what the caller's lookup answers.\<close>

definition source_event :: "auth_chain_event_source \<Rightarrow> byte_string \<Rightarrow> json option" where
  "source_event src eid =
     (case map_of (source_known src) eid of
        Some v \<Rightarrow> Some v
      | None \<Rightarrow>
          (case source_lookup src of
             None \<Rightarrow> None
           | Some look \<Rightarrow> map_option ref_event_json (look eid)))"

text \<open>The cache holds only answers of the lookup, each id once.\<close>

definition source_ok :: "auth_chain_event_source \<Rightarrow> bool" where
  "source_ok src \<longleftrightarrow>
     distinct (map fst (source_fetched src)) \<and>
     source_used src \<le> length (source_fetched src) \<and>
     (\<forall>eid r. map_of (source_fetched src) eid = Some (Some r) \<longrightarrow>
        (\<exists>look. source_lookup src = Some look \<and> look eid = Some r))"

text \<open>One source is another after some reads.\<close>

definition reads :: "auth_chain_event_source \<Rightarrow> auth_chain_event_source \<Rightarrow> bool" where
  "reads src src' \<longleftrightarrow>
     source_known src' = source_known src \<and> source_lookup src' = source_lookup src \<and>
     source_budget src' = source_budget src \<and>
     (source_ok src \<longrightarrow> source_ok src') \<and> (source_missing src \<longrightarrow> source_missing src')"

lemma reads_refl [simp]: "reads src src"
  by (simp add: reads_def)

lemma reads_trans [trans]: "reads a b \<Longrightarrow> reads b c \<Longrightarrow> reads a c"
  by (simp add: reads_def)

lemma reads_event [simp]: "reads src src' \<Longrightarrow> source_event src' = source_event src"
  by (simp add: reads_def source_event_def fun_eq_iff cong: option.case_cong)

lemma reads_ok: "reads src src' \<Longrightarrow> source_ok src \<Longrightarrow> source_ok src'"
  by (simp add: reads_def)

lemma reads_missing: "reads src src' \<Longrightarrow> source_missing src \<Longrightarrow> source_missing src'"
  by (simp add: reads_def)

lemma new_event_source_ok [simp]: "source_ok (new_event_source known lookup budget rejected)"
  by (simp add: source_ok_def new_event_source_def)

lemma fetched_emplace [simp]: 
  "map_of m k = None \<Longrightarrow> length (map_emplace k v m) = Suc (length m)"
  by (simp add: map_emplace_def map_of_eq_None_iff)

lemma fetch_reads: "fetch src eid = (r, src') \<Longrightarrow> reads src src'"
  by (auto simp: fetch_def reads_def source_ok_def Let_def split: option.splits if_splits)

lemma fetch_event:
  assumes "fetch src eid = (Some v, src')" "source_ok src"
  shows "source_event src eid = Some v"
  using assms
  by (auto simp: fetch_def source_event_def source_ok_def Let_def split: option.splits if_splits)

lemma source_ok_missing [simp]: "source_ok (s\<lparr>source_missing := b\<rparr>) \<longleftrightarrow> source_ok s"
  by (simp add: source_ok_def)

lemma reads_set_missing: "reads src s \<Longrightarrow> reads src (s\<lparr>source_missing := True\<rparr>)"
  by (simp add: reads_def)

lemma find_required_cases:
  obtains v s where "fetch src eid = (Some v, s)" "find_required src eid = (Some v, s)"
  | s where "fetch src eid = (None, s)" "find_required src eid = (None, s\<lparr>source_missing := True\<rparr>)"
proof (cases "fetch src eid")
  case (Pair x s)
  then show thesis using that by (cases x) (simp_all add: find_required_def)
qed

lemma find_required_reads: "find_required src eid = (r, src') \<Longrightarrow> reads src src'"
  by (rule find_required_cases [of src eid]) (auto dest: fetch_reads intro: reads_set_missing)

lemma find_required_event:
  assumes "find_required src eid = (Some v, src')" "source_ok src"
  shows "source_event src eid = Some v"
  using assms by (rule_tac find_required_cases [of src eid]) (auto dest: fetch_event)

lemma find_required_missing: "find_required src eid = (None, src') \<Longrightarrow> source_missing src'"
  by (rule find_required_cases [of src eid]) auto

section \<open>The auth chain\<close>

definition auth_edges :: "auth_chain_event_source \<Rightarrow> (byte_string \<times> byte_string) set" where
  "auth_edges src = {(x, y). \<exists>event. source_event src x = Some event \<and> y \<in> set (event_auth_ids event)}"

lemma reads_edges [simp]: "reads src src' \<Longrightarrow> auth_edges src' = auth_edges src"
  by (simp add: auth_edges_def)

lemma walk_frontier_reads: "walk_frontier cap fr chain src = (r, src') \<Longrightarrow> reads src src'"
proof (induction cap fr chain src arbitrary: r src' rule: walk_frontier.induct)
  case (2 cap eid frontier chain src)
  show ?case
  proof (cases "eid \<in> set chain \<or> cap < length (chain @ [eid])")
    case True
    then show ?thesis using 2 by (auto split: if_splits)
  next
    case False
    obtain x s where f: "find_required src eid = (x, s)" by force
    then have "reads src s" by (rule find_required_reads)
    then show ?thesis
      using 2 False f by (cases x) (auto intro: reads_trans)
  qed
qed simp

lemma walk_frontier_sound:
  assumes "walk_frontier cap fr chain src = (Some out, src')" "source_ok src"
    and "\<And>x y. x \<in> set chain \<Longrightarrow> (x, y) \<in> auth_edges src \<Longrightarrow> y \<in> set chain \<union> set fr"
    and "distinct chain" "length chain \<le> cap"
  shows "set chain \<union> set fr \<subseteq> set out \<and> auth_edges src `` set out \<subseteq> set out \<and>
    set out \<subseteq> set chain \<union> (auth_edges src)\<^sup>* `` set fr \<and> distinct out \<and> length out \<le> cap \<and>
    (\<forall>x \<in> set out - set chain. source_event src x \<noteq> None)"
  using assms
proof (induction cap fr chain src arbitrary: out src' rule: walk_frontier.induct)
  case (1 cap chain src)
  then show ?case by auto
next
  case (2 cap eid frontier chain src)
  show ?case
  proof (cases "eid \<in> set chain")
    case True
    have "set chain \<union> set frontier \<subseteq> set out \<and> auth_edges src `` set out \<subseteq> set out \<and>
      set out \<subseteq> set chain \<union> (auth_edges src)\<^sup>* `` set frontier \<and> distinct out \<and> length out \<le> cap \<and>
      (\<forall>x \<in> set out - set chain. source_event src x \<noteq> None)"
      by (rule "2.IH"(1) [OF True]) (use "2.prems" True in auto)
    then show ?thesis using True by auto
  next
    case False
    let ?chain = "chain @ [eid]"
    from False "2.prems"(1) have cap: "\<not> cap < length ?chain" by (auto split: if_splits)
    obtain event s where f: "find_required src eid = (Some event, s)"
      using False cap "2.prems"(1) by (auto split: prod.splits option.splits)
    let ?new = "rev (filter (\<lambda>nid. nid \<notin> set ?chain) (event_auth_ids event))"
    have rd: "reads src s" by (rule find_required_reads [OF f])
    have ev: "source_event src eid = Some event" by (rule find_required_event [OF f "2.prems"(2)])
    have edge: "(eid, y) \<in> auth_edges src \<longleftrightarrow> y \<in> set (event_auth_ids event)" for y
      using ev by (simp add: auth_edges_def)
    have w: "walk_frontier cap (?new @ frontier) ?chain s = (Some out, src')"
      using "2.prems"(1) False cap f by simp
    have IH: "set ?chain \<union> set (?new @ frontier) \<subseteq> set out \<and> auth_edges s `` set out \<subseteq> set out \<and>
      set out \<subseteq> set ?chain \<union> (auth_edges s)\<^sup>* `` set (?new @ frontier) \<and> distinct out \<and> length out \<le> cap \<and>
      (\<forall>x \<in> set out - set ?chain. source_event s x \<noteq> None)"
    proof (rule "2.IH"(2) [OF False cap f [symmetric] refl w])
      show "source_ok s" by (rule reads_ok [OF rd "2.prems"(2)])
      show "y \<in> set ?chain \<union> set (?new @ frontier)"
        if "x \<in> set ?chain" "(x, y) \<in> auth_edges s" for x y
        using that rd "2.prems"(3) [of x y] edge [of y] by auto
    qed (use False cap "2.prems" in auto)
    have new: "(auth_edges src)\<^sup>* `` set ?new \<subseteq> (auth_edges src)\<^sup>* `` {eid}"
      using edge by (auto intro: converse_rtrancl_into_rtrancl)
    have split: "(auth_edges src)\<^sup>* `` set (?new @ frontier) =
        (auth_edges src)\<^sup>* `` set ?new \<union> (auth_edges src)\<^sup>* `` set frontier"
      "(auth_edges src)\<^sup>* `` set (eid # frontier) =
        (auth_edges src)\<^sup>* `` {eid} \<union> (auth_edges src)\<^sup>* `` set frontier"
      using Image_Un [of "(auth_edges src)\<^sup>*" "{eid}" "set frontier"]
      by (simp_all only: set_append Image_Un list.set insert_def Un_empty_right)
    have sub: "set ?chain \<union> (auth_edges src)\<^sup>* `` set (?new @ frontier) \<subseteq>
        set chain \<union> (auth_edges src)\<^sup>* `` set (eid # frontier)"
      unfolding split using new by auto
    note IH' = IH [unfolded reads_edges [OF rd] reads_event [OF rd]]
    have out: "set ?chain \<union> set (?new @ frontier) \<subseteq> set out"
      "set out \<subseteq> set ?chain \<union> (auth_edges src)\<^sup>* `` set (?new @ frontier)"
      "\<forall>x \<in> set out - set ?chain. source_event src x \<noteq> None"
      using IH' by blast+
    have "set chain \<union> set (eid # frontier) \<subseteq> set out" using out(1) by simp
    moreover have "set out \<subseteq> set chain \<union> (auth_edges src)\<^sup>* `` set (eid # frontier)"
      by (rule subset_trans [OF out(2) sub])
    moreover have "\<forall>x \<in> set out - set chain. source_event src x \<noteq> None"
      using out(3) ev by fastforce
    ultimately show ?thesis using IH' by blast
  qed
qed

lemma walk_auth_chain_sound:
  assumes "walk_auth_chain start src cap = (Some chain, src')" "source_ok src"
  shows "set chain = (auth_edges src)\<^sup>* `` set (event_auth_ids start)"
    and "\<forall>x \<in> set chain. source_event src x \<noteq> None"
    and "distinct chain" "length chain \<le> cap"
proof -
  have w: "set (event_auth_ids start) \<subseteq> set chain" "auth_edges src `` set chain \<subseteq> set chain"
    "set chain \<subseteq> (auth_edges src)\<^sup>* `` set (event_auth_ids start)" "distinct chain"
    "length chain \<le> cap" "\<forall>x \<in> set chain. source_event src x \<noteq> None"
    using walk_frontier_sound [of cap "rev (event_auth_ids start)" "[]" src chain src'] assms
    by (simp_all add: walk_auth_chain_def)
  have "(auth_edges src)\<^sup>* `` set (event_auth_ids start) \<subseteq> (auth_edges src)\<^sup>* `` set chain"
    by (rule Image_mono [OF subset_refl w(1)])
  also have "\<dots> = set chain" by (rule Image_closed_trancl [OF w(2)])
  finally show "set chain = (auth_edges src)\<^sup>* `` set (event_auth_ids start)"
    using w(3) by (rule subset_antisym [rotated])
  show "\<forall>x \<in> set chain. source_event src x \<noteq> None" "distinct chain" "length chain \<le> cap"
    by (fact w)+
qed

lemma walk_auth_chain_reads: "walk_auth_chain start src cap = (r, src') \<Longrightarrow> reads src src'"
  by (auto simp: walk_auth_chain_def dest: walk_frontier_reads)

section \<open>The walk succeeds when everything is there\<close>

text \<open>
  A source with room for a set of ids: all of them can be fetched, the budget covers them, and nothing
  outside the set has been fetched.
\<close>

definition roomy :: "auth_chain_event_source \<Rightarrow> byte_string set \<Rightarrow> bool" where
  "roomy src R \<longleftrightarrow>
     source_ok src \<and> finite R \<and> card R \<le> source_budget src \<and> fst ` set (source_fetched src) \<subseteq> R \<and>
     (\<forall>eid. map_of (source_fetched src) eid \<noteq> Some None) \<and> (\<forall>eid \<in> R. source_event src eid \<noteq> None)"

lemma roomy_space:
  assumes "roomy src R" "eid \<in> R" "map_of (source_fetched src) eid = None"
  shows "source_used src < source_budget src"
proof -
  have ok: "source_ok src" and fin: "finite R" and sub: "fst ` set (source_fetched src) \<subseteq> R"
    and card: "card R \<le> source_budget src"
    using assms(1) by (simp_all add: roomy_def)
  have "eid \<notin> fst ` set (source_fetched src)" using assms(3) by (simp add: map_of_eq_None_iff)
  then have "card (fst ` set (source_fetched src)) < card R"
    using psubset_card_mono [OF fin] sub assms(2) by (metis psubsetI)
  moreover have "card (fst ` set (source_fetched src)) = length (source_fetched src)"
    using ok distinct_card [of "map fst (source_fetched src)"] by (simp add: source_ok_def)
  ultimately show ?thesis using ok card by (simp add: source_ok_def)
qed

lemma roomy_fetch:
  assumes "roomy src R" "eid \<in> R"
  shows "\<exists>v src'. fetch src eid = (Some v, src') \<and> roomy src' R"
proof (cases "map_of (source_known src) eid")
  case (Some v)
  then show ?thesis using assms(1) by (auto simp: fetch_def)
next
  case unknown: None
  show ?thesis
  proof (cases "map_of (source_fetched src) eid")
    case (Some entry)
    then obtain r where "entry = Some r" using assms(1) by (cases entry) (auto simp: roomy_def)
    then show ?thesis using Some unknown assms(1) by (auto simp: fetch_def)
  next
    case None
    note space = roomy_space [OF assms None]
    have "source_event src eid \<noteq> None" using assms by (simp add: roomy_def)
    then obtain look r where look: "source_lookup src = Some look" "look eid = Some r"
      using unknown by (auto simp: source_event_def split: option.splits)
    obtain src' where f: "fetch src eid = (Some (ref_event_json r), src')"
      and fetched: "source_fetched src' = map_emplace eid (Some r) (source_fetched src)"
      using unknown None space look by (simp add: fetch_def Let_def)
    have rd: "reads src src'" by (rule fetch_reads [OF f])
    have b: "source_budget src' = source_budget src" using rd by (simp add: reads_def)
    have "roomy src' R"
      using assms fetched rd b reads_ok [OF rd] by (simp add: roomy_def)
    then show ?thesis using f by blast
  qed
qed

lemma roomy_find_required:
  assumes "roomy src R" "eid \<in> R"
  obtains v src' where "find_required src eid = (Some v, src')" "roomy src' R"
proof -
  obtain v src' where f: "fetch src eid = (Some v, src')" "roomy src' R"
    using roomy_fetch [OF assms] by blast
  have "find_required src eid = (Some v, src')"
    using f(1) by (simp add: find_required_def)
  then show thesis using f(2) that by blast
qed

lemma walk_frontier_complete:
  assumes "roomy src R" "set fr \<subseteq> R" "set chain \<subseteq> R" "distinct chain" "auth_edges src `` R \<subseteq> R"
    and "card R \<le> cap"
  shows "\<exists>out src'. walk_frontier cap fr chain src = (Some out, src') \<and> roomy src' R"
  using assms
proof (induction cap fr chain src rule: walk_frontier.induct)
  case (2 cap eid frontier chain src)
  note prems = "2.prems"
  show ?case
  proof (cases "eid \<in> set chain")
    case True
    then show ?thesis using "2.IH"(1) prems by simp
  next
    case False
    have R: "eid \<in> R" and fin: "finite R" using prems(1,2) by (simp_all add: roomy_def)
    have "length (chain @ [eid]) = card (set (chain @ [eid]))"
      using False prems(4) distinct_card [of "chain @ [eid]"] by simp
    also have "\<dots> \<le> card R" using prems(3) R fin by (intro card_mono) auto
    finally have cap: "\<not> cap < length (chain @ [eid])" using prems(6) by simp
    obtain event s where f: "find_required src eid = (Some event, s)" "roomy s R"
      by (rule roomy_find_required [OF prems(1) R])
    have rd: "reads src s" by (rule find_required_reads [OF f(1)])
    have ok: "source_ok src" using prems(1) by (simp add: roomy_def)
    have "set (event_auth_ids event) \<subseteq> auth_edges src `` R"
      using find_required_event [OF f(1) ok] R by (auto simp: auth_edges_def)
    then have new: "set (event_auth_ids event) \<subseteq> R" using prems(5) by (rule subset_trans)
    have "\<exists>out src'. walk_frontier cap
        (rev (filter (\<lambda>nid. nid \<notin> set (chain @ [eid])) (event_auth_ids event)) @ frontier)
        (chain @ [eid]) s = (Some out, src') \<and> roomy src' R"
      by (rule "2.IH"(2) [OF False cap f(1) [symmetric] refl f(2)])
        (use new prems R False reads_edges [OF rd] in auto)
    then show ?thesis using False cap f(1) by simp
  qed
qed simp

section \<open>The auth difference\<close>

definition full_auth_chain :: "auth_chain_event_source \<Rightarrow> state_event_reference list \<Rightarrow> byte_string set" where
  "full_auth_chain src events =
     (\<Union>event \<in> {e \<in> set events. value_has_content (ref_event_json e)}.
        (auth_edges src)\<^sup>* `` set (event_auth_ids (ref_event_json event)))"

lemma full_auth_chain_of_events_sound:
  assumes "full_auth_chain_of_events cap events result src = (Some out, src')" "source_ok src"
  shows "set out = set result \<union> full_auth_chain src events"
  using assms
proof (induction events arbitrary: result src)
  case Nil
  then show ?case by (simp add: full_auth_chain_def)
next
  case (Cons event events)
  show ?case
  proof (cases "value_has_content (ref_event_json event)")
    case False
    have split: "{e \<in> set (event # events). value_has_content (ref_event_json e)} =
        {e \<in> set events. value_has_content (ref_event_json e)}" using False by auto
    show ?thesis
      using Cons.IH [OF _ Cons.prems(2)] Cons.prems(1) False split by (simp add: full_auth_chain_def)
  next
    case True
    obtain chain s where w: "walk_auth_chain (ref_event_json event) src cap = (Some chain, s)"
      and rest: "full_auth_chain_of_events cap events (set_union result chain) s = (Some out, src')"
      using Cons.prems(1) True by (auto split: prod.splits option.splits if_splits)
    have rd: "reads src s" by (rule walk_auth_chain_reads [OF w])
    have split: "{e \<in> set (event # events). value_has_content (ref_event_json e)} =
        insert event {e \<in> set events. value_has_content (ref_event_json e)}" using True by auto
    have "set out = set (set_union result chain) \<union>
        full_auth_chain s events"
      by (rule Cons.IH [OF rest reads_ok [OF rd Cons.prems(2)]])
    then show ?thesis
      using walk_auth_chain_sound(1) [OF w Cons.prems(2)] rd split
      by (simp add: full_auth_chain_def Un_assoc)
  qed
qed

lemma full_auth_chain_of_events_reads:
  "full_auth_chain_of_events cap events result src = (r, src') \<Longrightarrow> reads src src'"
proof (induction events arbitrary: result src)
  case (Cons event events)
  show ?case
  proof (cases "value_has_content (ref_event_json event)")
    case True
    obtain x s where w: "walk_auth_chain (ref_event_json event) src cap = (x, s)" by force
    have rd: "reads src s" by (rule walk_auth_chain_reads [OF w])
    show ?thesis
      using Cons w rd True by (cases x) (auto split: if_splits intro: reads_trans)
  qed (use Cons in auto)
qed simp

lemma full_auth_chain_of_group_sound:
  assumes "full_auth_chain_of_group grp src cap = (Some chain, src')" "source_ok src"
  shows "set chain = full_auth_chain src (group_state grp)"
  using full_auth_chain_of_events_sound [of cap "group_state grp" "[]" src chain src'] assms
  by (simp add: full_auth_chain_of_group_def)

lemma full_auth_chain_of_group_reads:
  "full_auth_chain_of_group grp src cap = (r, src') \<Longrightarrow> reads src src'"
  by (auto simp: full_auth_chain_of_group_def dest: full_auth_chain_of_events_reads)

lemma chains_of_groups_reads: "chains_of_groups cap groups src = (r, src') \<Longrightarrow> reads src src'"
proof (induction groups arbitrary: src r src')
  case (Cons g groups)
  obtain x s where f: "full_auth_chain_of_group g src cap = (x, s)" by force
  obtain y t where c: "chains_of_groups cap groups s = (y, t)" by force
  have "reads src s" by (rule full_auth_chain_of_group_reads [OF f])
  moreover have "reads s t" by (rule Cons.IH [OF c])
  ultimately show ?case
    using Cons.prems f c by (cases x; cases y) (auto intro: reads_trans)
qed simp

lemma chains_of_groups_sound:
  assumes "chains_of_groups cap groups src = (Some cs, src')" "source_ok src"
  shows "map set cs = map (\<lambda>g. full_auth_chain src (group_state g)) groups"
  using assms
proof (induction groups arbitrary: src cs)
  case (Cons g groups)
  obtain chain s where f: "full_auth_chain_of_group g src cap = (Some chain, s)"
    using Cons.prems(1) by (auto split: prod.splits option.splits)
  obtain cs' where c: "chains_of_groups cap groups s = (Some cs', src')" "cs = chain # cs'"
    using Cons.prems(1) f by (auto split: prod.splits option.splits)
  have rd: "reads src s" by (rule full_auth_chain_of_group_reads [OF f])
  have "full_auth_chain s = full_auth_chain src"
    using rd by (simp add: full_auth_chain_def fun_eq_iff)
  then show ?case
    using Cons.IH [OF c(1) reads_ok [OF rd Cons.prems(2)]] c(2)
      full_auth_chain_of_group_sound [OF f Cons.prems(2)] by simp
qed simp

lemma fold_set_union: "set (fold (\<lambda>chain acc. set_union acc chain) cs acc) = set acc \<union> (\<Union>c \<in> set cs. set c)"
  by (induction cs arbitrary: acc) auto

lemma fold_intersection:
  "set (fold (\<lambda>chain acc. filter (\<lambda>eid. eid \<in> set chain) acc) cs acc) = set acc \<inter> (\<Inter>c \<in> set cs. set c)"
  by (induction cs arbitrary: acc) auto

lemma compute_auth_difference_reads:
  "compute_auth_difference groups src cap = (r, src') \<Longrightarrow> reads src src'"
  by (auto simp: compute_auth_difference_def Let_def split: prod.splits option.splits list.splits
      dest!: chains_of_groups_reads)

lemma compute_auth_difference_sound:
  assumes "compute_auth_difference groups src cap = (Some diff, src')" "source_ok src"
  shows "set diff = (\<Union>g \<in> set groups. full_auth_chain src (group_state g)) -
    (\<Inter>g \<in> set groups. full_auth_chain src (group_state g)) \<and> distinct diff \<or> groups = [] \<and> diff = []"
proof -
  obtain cs where c: "chains_of_groups cap groups src = (Some cs, src')"
    using assms(1) by (auto simp: compute_auth_difference_def Let_def split: prod.splits option.splits list.splits)
  have eq: "map set cs = map (\<lambda>g. full_auth_chain src (group_state g)) groups"
    by (rule chains_of_groups_sound [OF c assms(2)])
  have sets: "set ` set cs = (\<lambda>g. full_auth_chain src (group_state g)) ` set groups"
    using arg_cong [OF eq, of set] by simp
  show ?thesis
  proof (cases cs)
    case Nil
    then show ?thesis using eq assms(1) c by (simp add: compute_auth_difference_def)
  next
    case (Cons front rest)
    have diff: "diff = filter (\<lambda>eid. eid \<notin> set (fold (\<lambda>chain acc. filter (\<lambda>eid. eid \<in> set chain) acc) rest front))
        (fold (\<lambda>chain acc. set_union acc chain) cs [])"
      using assms(1) c Cons by (simp add: compute_auth_difference_def Let_def)
    have dist: "distinct (fold (\<lambda>chain acc. set_union acc chain) xs acc)" if "distinct acc"
      for xs :: "byte_string list list" and acc
      using that by (induction xs arbitrary: acc) auto
    have "set diff = \<Union> (set ` set cs) - \<Inter> (set ` set cs)"
      unfolding diff using Cons fold_set_union [of cs "[]"] fold_intersection [of rest front] by auto
    then show ?thesis using sets dist [of "[]" cs] diff by auto
  qed
qed

section \<open>The conflicted state subgraph\<close>

lemma unique_neighbours_sound:
  "unique_neighbours auth ns = Some out \<Longrightarrow>
     out = ns @ List.map_filter auth_entry_event_id auth \<and> (distinct ns \<longrightarrow> distinct out)"
proof (induction auth arbitrary: ns)
  case (Cons entry auth)
  then obtain a where "auth_entry_event_id entry = Some a" "a \<notin> set ns"
    "unique_neighbours auth (ns @ [a]) = Some out"
    by (auto split: option.splits if_splits)
  then show ?case using Cons.IH [of "ns @ [a]"] by auto
qed simp

lemma subgraph_neighbours_sound:
  assumes "subgraph_neighbours event = Some ns"
  obtains v where "event = Some v" "ns = event_auth_ids v" "distinct ns"
  using assms unique_neighbours_sound [of _ "[]" ns]
  by (auto simp: subgraph_neighbours_def event_auth_ids_def split: option.splits if_splits)

definition graph_of_source ::
    "auth_chain_event_source \<Rightarrow> (byte_string \<times> byte_string list) list \<Rightarrow> bool" where
  "graph_of_source src graph \<longleftrightarrow>
     distinct (map fst graph) \<and>
     (\<forall>(eid, ns) \<in> set graph. distinct ns \<and> (\<exists>event. source_event src eid = Some event \<and> ns = event_auth_ids event))"

lemma collect_graph_reads: "collect_graph cap pending graph src = (r, src') \<Longrightarrow> reads src src'"
proof (induction cap pending graph src arbitrary: r src' rule: collect_graph.induct)
  case (2 cap eid pending graph src)
  show ?case
  proof (cases "eid \<in> set (map fst graph) \<or> cap \<le> length graph")
    case True
    then show ?thesis using 2 by (auto split: if_splits)
  next
    case False
    obtain event s where f: "find_required src eid = (event, s)" by force
    then have rd: "reads src s" by (rule find_required_reads)
    show ?thesis
    proof (cases "subgraph_neighbours event")
      case None
      then show ?thesis using "2.prems" False f rd by simp
    next
      case (Some ns)
      have "collect_graph cap (pending @ ns) (graph @ [(eid, ns)]) s = (r, src')"
        using "2.prems" False f Some by simp
      then have "reads s src'" using "2.IH"(2) [OF _ _ f [symmetric] Some] False by simp
      with rd show ?thesis by (rule reads_trans)
    qed
  qed
qed simp

lemma collect_graph_sound:
  assumes "collect_graph cap pending graph src = (Some out, src')" "source_ok src"
    and "graph_of_source src graph"
    and "\<And>x ns. (x, ns) \<in> set graph \<Longrightarrow> set ns \<subseteq> fst ` set graph \<union> set pending"
  shows "graph_of_source src out \<and> fst ` set graph \<union> set pending \<subseteq> fst ` set out \<and>
    (\<forall>(x, ns) \<in> set out. set ns \<subseteq> fst ` set out) \<and>
    fst ` set out \<subseteq> fst ` set graph \<union> (auth_edges src)\<^sup>* `` set pending"
  using assms
proof (induction cap pending graph src arbitrary: out src' rule: collect_graph.induct)
  case (1 cap graph src)
  then show ?case by auto
next
  case (2 cap eid pending graph src)
  note prems = "2.prems"
  show ?case
  proof (cases "eid \<in> set (map fst graph)")
    case True
    have w: "collect_graph cap pending graph src = (Some out, src')" using prems(1) True by simp
    have mem: "eid \<in> fst ` set graph" using True by simp
    have "graph_of_source src out \<and> fst ` set graph \<union> set pending \<subseteq> fst ` set out \<and>
      (\<forall>(x, ns) \<in> set out. set ns \<subseteq> fst ` set out) \<and>
      fst ` set out \<subseteq> fst ` set graph \<union> (auth_edges src)\<^sup>* `` set pending"
      by (rule "2.IH"(1) [OF True w prems(2,3)]) (use prems(4) mem in \<open>simp add: insert_absorb\<close>)
    moreover have "(auth_edges src)\<^sup>* `` set pending \<subseteq> (auth_edges src)\<^sup>* `` set (eid # pending)"
      by (rule Image_mono) auto
    ultimately show ?thesis using mem by auto
  next
    case False
    then have cap: "\<not> cap \<le> length graph" using prems(1) by (auto split: if_splits)
    obtain event s where f: "find_required src eid = (event, s)" by force
    obtain ns where ns: "subgraph_neighbours event = Some ns"
      using prems(1) False cap f by (auto split: option.splits)
    obtain v where v: "event = Some v" "ns = event_auth_ids v" "distinct ns"
      by (rule subgraph_neighbours_sound [OF ns])
    have rd: "reads src s" by (rule find_required_reads [OF f])
    have ev: "source_event src eid = Some v"
      by (rule find_required_event [OF f [unfolded v(1)] prems(2)])
    have w: "collect_graph cap (pending @ ns) (graph @ [(eid, ns)]) s = (Some out, src')"
      using prems(1) False cap f ns by simp
    have g: "graph_of_source s (graph @ [(eid, ns)])"
      using prems(3) False v ev rd by (auto simp: graph_of_source_def)
    have IH: "graph_of_source s out \<and>
      fst ` set (graph @ [(eid, ns)]) \<union> set (pending @ ns) \<subseteq> fst ` set out \<and>
      (\<forall>(x, ns) \<in> set out. set ns \<subseteq> fst ` set out) \<and>
      fst ` set out \<subseteq> fst ` set (graph @ [(eid, ns)]) \<union> (auth_edges s)\<^sup>* `` set (pending @ ns)"
      by (rule "2.IH"(2) [OF False cap f [symmetric] ns w reads_ok [OF rd prems(2)] g])
        (use prems(4) in fastforce)
    note IH' = IH [unfolded reads_edges [OF rd]]
    have edge: "(eid, y) \<in> auth_edges src" if "y \<in> set ns" for y
      using that ev v(2) by (simp add: auth_edges_def)
    have reach: "x \<in> (auth_edges src)\<^sup>* `` set (eid # pending)"
      if "x \<in> (auth_edges src)\<^sup>* `` set (pending @ ns)" for x
    proof -
      obtain y where y: "y \<in> set pending \<union> set ns" "(y, x) \<in> (auth_edges src)\<^sup>*" using \<open>x \<in> _\<close> by auto
      show ?thesis
      proof (cases "y \<in> set ns")
        case True
        then have "(eid, x) \<in> (auth_edges src)\<^sup>*"
          by (rule converse_rtrancl_into_rtrancl [OF edge y(2)])
        then show ?thesis by auto
      next
        case False
        then show ?thesis using y by auto
      qed
    qed
    have self: "eid \<in> (auth_edges src)\<^sup>* `` set (eid # pending)" by auto
    have out: "graph_of_source src out" "fst ` set (graph @ [(eid, ns)]) \<union> set (pending @ ns) \<subseteq> fst ` set out"
      "\<forall>(x, ns) \<in> set out. set ns \<subseteq> fst ` set out"
      "fst ` set out \<subseteq> fst ` set (graph @ [(eid, ns)]) \<union> (auth_edges src)\<^sup>* `` set (pending @ ns)"
      using IH' rd by (simp_all add: graph_of_source_def)
    have "fst ` set out \<subseteq> fst ` set graph \<union> (auth_edges src)\<^sup>* `` set (eid # pending)"
    proof
      fix x
      assume "x \<in> fst ` set out"
      then have "x \<in> fst ` set graph \<or> x = eid \<or> x \<in> (auth_edges src)\<^sup>* `` set (pending @ ns)"
        using subsetD [OF out(4), of x] by auto
      then show "x \<in> fst ` set graph \<union> (auth_edges src)\<^sup>* `` set (eid # pending)"
        using reach self by blast
    qed
    then show ?thesis using out(1-3) by simp
  qed
qed

lemma count_ancestors_sound:
  assumes "count_ancestors graph eid as (indegree, reverse) = Some (indegree', reverse')"
  shows "degree_of indegree' x = degree_of indegree x + int (count_list as x) \<and>
    set (adjacent reverse' x) = set (adjacent reverse x) \<union> (if x \<in> set as then {eid} else {}) \<and>
    fst ` set indegree' = fst ` set indegree \<union> set as \<and>
    (distinct (map fst indegree) \<longrightarrow> distinct (map fst indegree'))"
  using assms
proof (induction as arbitrary: indegree reverse)
  case (Cons a as)
  let ?i = "map_assign a (degree_of indegree a + 1) indegree"
  let ?r = "map_assign a (adjacent reverse a @ [eid]) reverse"
  have c: "count_ancestors graph eid as (?i, ?r) = Some (indegree', reverse')"
    using Cons.prems by (auto split: if_splits)
  have adj: "adjacent ?r x = (if x = a then adjacent reverse a @ [eid] else adjacent reverse x)"
    by (simp add: adjacent_def)
  show ?case
    using Cons.IH [OF c] unfolding adj by auto
qed simp

lemma count_graph_sound:
  assumes "count_graph graph entries (indegree, reverse) = Some (indegree', reverse')"
  shows "degree_of indegree' x = degree_of indegree x + int (\<Sum>(eid, as) \<leftarrow> entries. count_list as x) \<and>
    set (adjacent reverse' x) = set (adjacent reverse x) \<union> {eid. \<exists>as. (eid, as) \<in> set entries \<and> x \<in> set as} \<and>
    fst ` set indegree' = fst ` set indegree \<union> fst ` set entries \<union> (\<Union>(eid, as) \<in> set entries. set as) \<and>
    (distinct (map fst indegree) \<longrightarrow> distinct (map fst indegree'))"
  using assms
proof (induction entries arbitrary: indegree reverse)
  case (Cons entry entries)
  obtain eid as where entry: "entry = (eid, as)" by force
  obtain i r where c: "count_ancestors graph eid as (map_emplace eid 0 indegree, reverse) = Some (i, r)"
    and rest: "count_graph graph entries (i, r) = Some (indegree', reverse')"
    using Cons.prems entry by (auto split: option.splits)
  have emp: "degree_of (map_emplace eid 0 indegree) x = degree_of indegree x"
    by (auto simp: degree_of_def split: option.splits)
  show ?case
    using Cons.IH [OF rest] count_ancestors_sound [OF c, of x] emp entry by auto
qed simp

definition closed_adjacent :: "(byte_string \<times> byte_string list) list \<Rightarrow> byte_string \<Rightarrow> byte_string list" where
  "closed_adjacent graph eid = filter (\<lambda>n. n \<in> fst ` set graph) (adjacent graph eid)"

interpretation auth_graph: kahn_graph "fst ` set graph" "closed_adjacent graph" for graph
  by unfold_locales (auto simp: closed_adjacent_def)

lemma closed_adjacent_eq:
  assumes "\<And>x ns. (x, ns) \<in> set graph \<Longrightarrow> set ns \<subseteq> fst ` set graph"
  shows "closed_adjacent graph eid = adjacent graph eid"
proof (cases "map_of graph eid")
  case (Some ns)
  then have "set ns \<subseteq> fst ` set graph" using assms [OF map_of_SomeD] by blast
  then show ?thesis using Some by (auto simp: closed_adjacent_def adjacent_def filter_id_conv)
qed (simp add: closed_adjacent_def adjacent_def)

lemma release_ancestors_sound:
  assumes "\<And>a. a \<in> set as \<Longrightarrow> int (count_list as a) \<le> degree_of indegree a"
  shows "\<exists>new indegree'. release_ancestors as (ready, indegree) = (ready @ new, indegree') \<and> distinct new \<and>
    set new = {a \<in> set as. degree_of indegree a = int (count_list as a)} \<and>
    (\<forall>x. degree_of indegree' x = degree_of indegree x - int (count_list as x))"
  using assms
proof (induction as arbitrary: ready indegree)
  case (Cons a as)
  let ?d = "degree_of indegree a - 1"
  let ?ind = "map_assign a ?d indegree"
  let ?ready = "if ?d = 0 then ready @ [a] else ready"
  have le: "int (count_list as x) \<le> degree_of ?ind x" if "x \<in> set as" for x
    using Cons.prems [of x] that by auto
  obtain new ind where IH: "release_ancestors as (?ready, ?ind) = (?ready @ new, ind)" "distinct new"
    "set new = {x \<in> set as. degree_of ?ind x = int (count_list as x)}"
    "\<forall>x. degree_of ind x = degree_of ?ind x - int (count_list as x)"
    using Cons.IH [of ?ind ?ready] le by blast
  have a: "int (count_list as a) \<le> ?d" using Cons.prems [of a] by simp
  show ?case
  proof (cases "?d = 0")
    case True
    then have da: "degree_of indegree a = 1" by simp
    then have notin: "a \<notin> set as" using a by (simp add: count_list_0_iff)
    have "x \<in> set (a # new) \<longleftrightarrow> x \<in> set (a # as) \<and> degree_of indegree x = int (count_list (a # as) x)" for x
      using da notin by (cases "x = a") (simp_all add: IH(3) count_list_0_iff)
    moreover have "release_ancestors (a # as) (ready, indegree) = (ready @ a # new, ind)"
      using IH(1) da by simp
    moreover have "degree_of ind x = degree_of indegree x - int (count_list (a # as) x)" for x
      using IH(4) by simp
    moreover have "distinct (a # new)" using IH(2,3) notin by simp
    ultimately show ?thesis by (intro exI [of _ "a # new"] exI [of _ ind]) blast
  next
    case False
    have "x \<in> set new \<longleftrightarrow> x \<in> set (a # as) \<and> degree_of indegree x = int (count_list (a # as) x)" for x
    proof (cases "x = a")
      case True
      have "a \<in> set new \<longleftrightarrow> a \<in> set as \<and> degree_of indegree a = 1 + int (count_list as a)"
        by (simp add: IH(3)) linarith
      then show ?thesis
        using True False by (cases "a \<in> set as") (simp_all add: count_list_0_iff)
    qed (simp add: IH(3))
    moreover have "release_ancestors (a # as) (ready, indegree) = (ready @ new, ind)"
      using IH(1) False by simp
    moreover have "degree_of ind x = degree_of indegree x - int (count_list (a # as) x)" for x
      using IH(4) by simp
    ultimately show ?thesis using IH(2) by (intro exI [of _ new] exI [of _ ind]) blast
  qed
qed simp

lemma kahn_processed_sound:
  assumes "kahn_state (fst ` set graph) (closed_adjacent graph) emitted ready (degree_of indegree)"
    and closed: "\<And>x ns. (x, ns) \<in> set graph \<Longrightarrow> set ns \<subseteq> fst ` set graph"
  shows "\<exists>emitted' degree. kahn_processed graph ready indegree (length emitted) = length emitted' \<and>
    kahn_state (fst ` set graph) (closed_adjacent graph) emitted' [] degree"
  using assms
proof (induction graph ready indegree "length emitted" arbitrary: emitted rule: kahn_processed.induct)
  case (1 graph indegree)
  then show ?case by auto
next
  case (2 graph eid ready indegree)
  let ?N = "fst ` set graph" and ?S = "closed_adjacent graph"
  note st = kahn_stateD [OF "2.prems"(1)]
  have eid: "eid \<in> ?N" using st(2) by simp
  have adj: "closed_adjacent graph eid = adjacent graph eid"
    by (rule closed_adjacent_eq) (fact "2.prems"(2))
  have le: "int (count_list (adjacent graph eid) a) \<le> degree_of indegree a"
    if "a \<in> set (adjacent graph eid)" for a
  proof -
    have a: "a \<in> ?N" using that adj auth_graph.succs_nodes [OF eid] by auto
    have "waiting ?N ?S emitted a = count_list (?S eid) a + waiting ?N ?S (emitted @ [eid]) a"
      by (rule auth_graph.waiting_snoc) (use st(1) eid in auto)
    then show ?thesis using st(3) [OF a] adj by simp
  qed
  obtain new ind where r: "release_ancestors (adjacent graph eid) (ready, indegree) = (ready @ new, ind)"
    "distinct new" "set new = {a \<in> set (adjacent graph eid). degree_of indegree a = int (count_list (adjacent graph eid) a)}"
    "\<forall>x. degree_of ind x = degree_of indegree x - int (count_list (adjacent graph eid) x)"
    using release_ancestors_sound [of "adjacent graph eid" indegree ready] le by blast
  have disj: "a \<notin> set ready" if "a \<in> set new" for a
  proof
    assume "a \<in> set ready"
    then have a: "a \<in> ?N" "waiting ?N ?S emitted a = 0" using st(2) st(4) [of a] by auto
    have "0 < count_list (adjacent graph eid) a" "degree_of indegree a = int (count_list (adjacent graph eid) a)"
      using that r(3) by (simp_all add: count_list_0_iff neq0_conv [symmetric] del: neq0_conv)
    then show False using st(3) [OF a(1)] a(2) by simp
  qed
  have step: "kahn_state ?N ?S (emitted @ [eid]) (ready @ new) (degree_of ind)"
    by (rule auth_graph.kahn_step [OF "2.prems"(1)]) (use r st(1) disj adj in auto)
  show ?case
    using "2.hyps" [OF r(1) [symmetric] _ step "2.prems"(2)] r(1) by simp
qed


lemma reach_endpoints_sound:
  assumes "\<And>x y. x \<in> set subgraph \<Longrightarrow> x \<notin> set queue \<Longrightarrow> y \<in> set (adjacent reverse x) \<Longrightarrow> y \<in> set subgraph"
    and "set queue \<subseteq> set subgraph" "distinct subgraph"
  shows "set subgraph \<subseteq> set (reach_endpoints reverse queue subgraph) \<and>
    (\<forall>x \<in> set (reach_endpoints reverse queue subgraph).
       set (adjacent reverse x) \<subseteq> set (reach_endpoints reverse queue subgraph)) \<and>
    set (reach_endpoints reverse queue subgraph) \<subseteq> {(x, y). y \<in> set (adjacent reverse x)}\<^sup>* `` set subgraph \<and>
    distinct (reach_endpoints reverse queue subgraph)"
  using assms
proof (induction reverse queue subgraph rule: reach_endpoints.induct)
  case (1 reverse subgraph)
  then show ?case by auto
next
  case (2 reverse eid queue subgraph)
  let ?R = "{(x, y). y \<in> set (adjacent reverse x)}"
  obtain new where new: "add_predecessors (adjacent reverse eid) (subgraph, queue) = (subgraph @ new, queue @ new)"
    "set new = set (adjacent reverse eid) - set subgraph" "distinct new"
    using add_predecessors_eq [of "adjacent reverse eid" subgraph queue] by blast
  have eid: "eid \<in> set subgraph" using "2.prems"(2) by simp
  let ?out = "reach_endpoints reverse (queue @ new) (subgraph @ new)"
  have IH: "set (subgraph @ new) \<subseteq> set ?out \<and> (\<forall>x \<in> set ?out. set (adjacent reverse x) \<subseteq> set ?out) \<and>
      set ?out \<subseteq> ?R\<^sup>* `` set (subgraph @ new) \<and> distinct ?out"
    by (rule "2.IH" [OF new(1) [symmetric]]) (use "2.prems" new in auto)
  have "x \<in> ?R\<^sup>* `` set subgraph" if "x \<in> ?R\<^sup>* `` set (subgraph @ new)" for x
  proof -
    obtain y where y: "y \<in> set subgraph \<or> y \<in> set new" "(y, x) \<in> ?R\<^sup>*" using \<open>x \<in> _\<close> by auto
    show ?thesis
    proof (cases "y \<in> set new")
      case True
      then have "(eid, y) \<in> ?R" using new(2) by simp
      then have "(eid, x) \<in> ?R\<^sup>*" using y(2) by (rule converse_rtrancl_into_rtrancl)
      then show ?thesis using eid by (rule ImageI)
    next
      case False
      then show ?thesis using y by (auto intro: ImageI)
    qed
  qed
  then have "set ?out \<subseteq> ?R\<^sup>* `` set subgraph" using IH by (meson subsetD subsetI)
  then show ?case using IH new(1) by simp
qed

lemma graph_of_source_edge:
  assumes "graph_of_source src graph" "x \<in> fst ` set graph"
  shows "y \<in> set (adjacent graph x) \<longleftrightarrow> (x, y) \<in> auth_edges src"
proof -
  obtain ns where ns: "(x, ns) \<in> set graph" using assms(2) by auto
  then have m: "map_of graph x = Some ns" using assms(1) by (simp add: graph_of_source_def)
  obtain event where "source_event src x = Some event" "ns = event_auth_ids event"
    using assms(1) ns by (auto simp: graph_of_source_def)
  then show ?thesis using m by (simp add: adjacent_def auth_edges_def)
qed

lemma graph_keys_reachable:
  assumes g: "graph_of_source src graph" and "set C \<subseteq> fst ` set graph"
    and "\<forall>(x, ns) \<in> set graph. set ns \<subseteq> fst ` set graph"
    and "fst ` set graph \<subseteq> (auth_edges src)\<^sup>* `` set C"
  shows "fst ` set graph = (auth_edges src)\<^sup>* `` set C"
    and "auth_edges src `` (fst ` set graph) \<subseteq> fst ` set graph"
proof -
  have closed: "set (adjacent graph x) \<subseteq> fst ` set graph" for x
    using assms(3) adjacent_subset [of graph x] by fast
  then show sub: "auth_edges src `` (fst ` set graph) \<subseteq> fst ` set graph"
    using graph_of_source_edge [OF g] by blast
  have "(auth_edges src)\<^sup>* `` set C \<subseteq> (auth_edges src)\<^sup>* `` (fst ` set graph)"
    by (rule Image_mono [OF subset_refl assms(2)])
  also have "\<dots> = fst ` set graph" by (rule Image_closed_trancl [OF sub])
  finally show "fst ` set graph = (auth_edges src)\<^sup>* `` set C"
    using assms(4) by (rule subset_antisym [rotated])
qed

lemma sum_entries:
  assumes "distinct (map fst graph)" "mset entries = mset graph"
  shows "(\<Sum>(eid, as) \<leftarrow> entries. count_list as x) = (\<Sum>m \<in> fst ` set graph. count_list (adjacent graph m) x)"
proof -
  have "(\<Sum>(eid, as) \<leftarrow> entries. count_list as x) = (\<Sum>(eid, as) \<leftarrow> graph. count_list as x)"
    using assms(2) by (metis mset_map sum_mset_sum_list)
  also have "\<dots> = (\<Sum>(eid, as) \<in> set graph. count_list as x)"
    using assms(1) by (simp add: sum_list_distinct_conv_sum_set distinct_map)
  also have "\<dots> = (\<Sum>p \<in> set graph. count_list (adjacent graph (fst p)) x)"
    using assms(1) by (intro sum.cong) (auto simp: adjacent_def)
  also have "\<dots> = (\<Sum>m \<in> fst ` set graph. count_list (adjacent graph m) x)"
    using assms(1) by (subst sum.reindex) (auto simp: distinct_map)
  finally show ?thesis .
qed

lemma counted_graph_acyclic:
  assumes g: "graph_of_source src graph"
    and closed: "\<forall>(x, ns) \<in> set graph. set ns \<subseteq> fst ` set graph"
    and ord: "visits_all order"
    and c: "count_graph graph (visit_map order graph) ([], []) = Some (indegree, reverse)"
    and k: "kahn_processed graph (map fst (filter (\<lambda>(eid, degree). degree = 0) (visit_map order indegree)))
       indegree 0 = length graph"
  shows "acyclic (graph_edges (fst ` set graph) (closed_adjacent graph))"
proof -
  let ?N = "fst ` set graph" and ?S = "closed_adjacent graph"
  let ?ready = "map fst (filter (\<lambda>(eid, degree). degree = 0) (visit_map order indegree))"
  have dist: "distinct (map fst graph)" using g by (simp add: graph_of_source_def)
  have closed': "set ns \<subseteq> fst ` set graph" if "(x, ns) \<in> set graph" for x ns
    using closed that by auto
  have adj: "?S x = adjacent graph x" for x by (rule closed_adjacent_eq [OF closed'])
  note entries = visit_map_set [OF ord dist]
  note counted = count_graph_sound [OF c, unfolded entries]
  have i1: "degree_of indegree x = int (\<Sum>(eid, as) \<leftarrow> visit_map order graph. count_list as x)" for x
    using conjunct1 [OF count_graph_sound [OF c, of x]] by (simp add: degree_of_def)
  have "(\<Union>(eid, as) \<in> set graph. set as) \<subseteq> ?N" using closed by fast
  then have i2: "fst ` set indegree = ?N" using counted by (simp add: Un_absorb2)
  have i3: "distinct (map fst indegree)" using counted by simp
  have deg: "degree_of indegree x = int (waiting ?N ?S [] x)" for x
    using i1 [of x] sum_entries [OF dist mset_visit_map [OF ord dist]] by (simp add: waiting_def adj)
  have ind: "degree_of indegree x = d" if "(x, d) \<in> set indegree" for x d
    using that i3 by (simp add: degree_of_def)
  have "x \<in> set ?ready \<longleftrightarrow> (x, 0) \<in> set indegree" for x
    using visit_map_set [OF ord i3] by force
  moreover have "(x, 0) \<in> set indegree \<longleftrightarrow> x \<in> ?N \<and> degree_of indegree x = 0" for x
    using ind unfolding i2 [symmetric] by force
  ultimately have ready: "set ?ready = {n \<in> ?N. degree_of indegree n = 0}" by blast
  have "distinct (map fst (visit_map order indegree))"
    using ord i3 by (simp add: visit_map_keys)
  then have "distinct ?ready" by (simp add: distinct_map_filter)
  then have "kahn_state ?N ?S [] ?ready (degree_of indegree)"
    using ready deg by (rule auth_graph.kahn_init)
  then obtain emitted degree where e: "length graph = length emitted" "kahn_state ?N ?S emitted [] degree"
    using kahn_processed_sound [of graph "[]" ?ready indegree] closed' k by auto
  have "card ?N = length graph"
    using dist distinct_card [of "map fst graph"] by simp
  then show ?thesis using auth_graph.kahn_complete_iff [OF e(2)] e(1) by simp
qed


lemma rtrancl_in_closed:
  assumes "(x, y) \<in> E\<^sup>*" "x \<in> N" "E `` N \<subseteq> N"
  shows "(x, y) \<in> {(a, b). a \<in> N \<and> (a, b) \<in> E}\<^sup>* \<and> y \<in> N"
  using assms(1)
proof (induction rule: rtrancl_induct)
  case base
  then show ?case using assms(2) by simp
next
  case (step y z)
  then have "(y, z) \<in> {(a, b). a \<in> N \<and> (a, b) \<in> E}" by simp
  then show ?case using step assms(3) by (meson ImageI rtrancl.rtrancl_into_rtrancl subsetD)
qed

lemma compute_conflicted_state_subgraph_reads:
  "compute_conflicted_state_subgraph order C src cap = (r, src') \<Longrightarrow> reads src src'"
  by (auto simp: compute_conflicted_state_subgraph_def Let_def split: if_splits prod.splits option.splits
      dest!: collect_graph_reads)

text \<open>Walking the reversed edges of a closed set of nodes back from some of them.\<close>

lemma backward_reach:
  assumes "E `` N \<subseteq> N" "C \<subseteq> N"
  shows "({(a, b). a \<in> N \<and> (a, b) \<in> E}\<inverse>)\<^sup>* `` C = {x \<in> N. \<exists>d \<in> C. (x, d) \<in> E\<^sup>*}"
proof -
  let ?F = "{(a, b). a \<in> N \<and> (a, b) \<in> E}"
  have "(x, d) \<in> ?F\<^sup>* \<longleftrightarrow> x \<in> N \<and> (x, d) \<in> E\<^sup>*" if "d \<in> C" for x d
  proof
    assume f: "(x, d) \<in> ?F\<^sup>*"
    have "?F \<subseteq> E" by auto
    then have "(x, d) \<in> E\<^sup>*" using f rtrancl_mono by blast
    moreover have "x \<in> N"
      using f by (cases rule: converse_rtranclE) (use that assms(2) in auto)
    ultimately show "x \<in> N \<and> (x, d) \<in> E\<^sup>*" by simp
  next
    assume "x \<in> N \<and> (x, d) \<in> E\<^sup>*"
    then show "(x, d) \<in> ?F\<^sup>*" using rtrancl_in_closed [OF _ _ assms(1)] by blast
  qed
  then show ?thesis unfolding rtrancl_converse by auto
qed

lemma counted_graph_reverse:
  assumes "count_graph graph (visit_map order graph) ([], []) = Some (indegree, reverse)"
    and "visits_all order" "distinct (map fst graph)"
  shows "set (adjacent reverse x) = {p \<in> fst ` set graph. x \<in> set (adjacent graph p)}"
proof -
  have "set (adjacent reverse x) = {p. \<exists>as. (p, as) \<in> set graph \<and> x \<in> set as}"
    using conjunct1 [OF conjunct2 [OF count_graph_sound [OF assms(1), of x]]] visit_map_set [OF assms(2,3)]
    by (simp add: adjacent_def [of "[]"])
  also have "\<dots> = {p \<in> fst ` set graph. x \<in> set (adjacent graph p)}"
    using assms(3) by (force simp: adjacent_def)
  finally show ?thesis .
qed

lemma reach_endpoints_eq:
  assumes "distinct C"
  shows "set (reach_endpoints reverse C C) = {(x, y). y \<in> set (adjacent reverse x)}\<^sup>* `` set C"
    and "distinct (reach_endpoints reverse C C)"
proof -
  let ?R = "{(x, y). y \<in> set (adjacent reverse x)}" and ?out = "reach_endpoints reverse C C"
  have w: "set C \<subseteq> set ?out" "\<forall>x \<in> set ?out. set (adjacent reverse x) \<subseteq> set ?out"
    "set ?out \<subseteq> ?R\<^sup>* `` set C" "distinct ?out"
    using reach_endpoints_sound [of C C reverse] assms by simp_all
  show "distinct ?out" by (fact w(4))
  have "?R `` set ?out \<subseteq> set ?out" using w(2) by auto
  then have "?R\<^sup>* `` set ?out = set ?out" by (rule Image_closed_trancl)
  moreover have "?R\<^sup>* `` set C \<subseteq> ?R\<^sup>* `` set ?out" by (rule Image_mono [OF subset_refl w(1)])
  ultimately show "set ?out = ?R\<^sup>* `` set C" using w(3) by simp
qed

lemma compute_conflicted_state_subgraph_cases:
  assumes "compute_conflicted_state_subgraph order C src cap = (Some sub, src')"
  obtains graph indegree reverse where "collect_graph cap (order C) [] src = (Some graph, src')"
    "count_graph graph (visit_map order graph) ([], []) = Some (indegree, reverse)"
    "kahn_processed graph (map fst (filter (\<lambda>(eid, degree). degree = 0) (visit_map order indegree)))
       indegree 0 = length graph"
    "sub = reach_endpoints reverse (order C) (order C)"
proof -
  obtain graph where g: "collect_graph cap (order C) [] src = (Some graph, src')"
    using assms by (auto simp: compute_conflicted_state_subgraph_def Let_def
        split: if_splits prod.splits option.splits)
  then show thesis
    using assms that by (auto simp: compute_conflicted_state_subgraph_def Let_def
        split: if_splits option.splits)
qed

lemma compute_conflicted_state_subgraph_sound:
  assumes r: "compute_conflicted_state_subgraph order C src cap = (Some sub, src')"
    and ok: "source_ok src" and ord: "visits_all order" and "distinct C"
  shows "set sub = {x. \<exists>c \<in> set C. \<exists>d \<in> set C. (c, x) \<in> (auth_edges src)\<^sup>* \<and> (x, d) \<in> (auth_edges src)\<^sup>*}"
    and "acyclic {(x, y). x \<in> (auth_edges src)\<^sup>* `` set C \<and> (x, y) \<in> auth_edges src}"
    and "distinct sub"
proof -
  let ?E = "auth_edges src"
  let ?N = "?E\<^sup>* `` set C"
  obtain graph indegree reverse where col: "collect_graph cap (order C) [] src = (Some graph, src')"
    and cnt: "count_graph graph (visit_map order graph) ([], []) = Some (indegree, reverse)"
    and k: "kahn_processed graph (map fst (filter (\<lambda>(eid, degree). degree = 0) (visit_map order indegree)))
       indegree 0 = length graph"
    and sub: "sub = reach_endpoints reverse (order C) (order C)"
    by (rule compute_conflicted_state_subgraph_cases [OF r])
  have g: "graph_of_source src graph" "set C \<subseteq> fst ` set graph"
    "\<forall>(x, ns) \<in> set graph. set ns \<subseteq> fst ` set graph" "fst ` set graph \<subseteq> ?N"
    using collect_graph_sound [OF col ok] ord by (simp_all add: graph_of_source_def)
  note keys = graph_keys_reachable [OF g]
  have closed': "set ns \<subseteq> fst ` set graph" if "(x, ns) \<in> set graph" for x ns using g(3) that by auto
  have dist: "distinct (map fst graph)" using g(1) by (simp add: graph_of_source_def)
  have edge: "y \<in> set (adjacent graph x) \<longleftrightarrow> (x, y) \<in> ?E" if "x \<in> ?N" for x y
    using graph_of_source_edge [OF g(1), of x y] that by (simp add: keys(1))
  have edges: "graph_edges (fst ` set graph) (closed_adjacent graph) = {(x, y). x \<in> ?N \<and> (x, y) \<in> ?E}"
    by (simp add: graph_edges_def closed_adjacent_eq [OF closed'] keys(1) edge cong: conj_cong)
  show "acyclic {(x, y). x \<in> ?N \<and> (x, y) \<in> ?E}"
    using counted_graph_acyclic [OF g(1,3) ord cnt k] unfolding edges .
  have conv: "{(x, y). y \<in> set (adjacent reverse x)} = {(a, b). a \<in> ?N \<and> (a, b) \<in> ?E}\<inverse>"
    by (simp add: counted_graph_reverse [OF cnt ord dist] keys(1) edge converse_unfold cong: conj_cong)
  have distC: "distinct (order C)" using ord assms(4) by simp
  show "distinct sub" unfolding sub by (rule reach_endpoints_eq(2) [OF distC])
  have "?E `` ?N \<subseteq> ?N" "set C \<subseteq> ?N" using keys g(2) by simp_all
  then have "set sub = {x \<in> ?N. \<exists>d \<in> set C. (x, d) \<in> ?E\<^sup>*}"
    using backward_reach [of ?E ?N "set C"] reach_endpoints_eq(1) [OF distC, of reverse] ord
    unfolding sub conv by simp
  then show "set sub = {x. \<exists>c \<in> set C. \<exists>d \<in> set C. (c, x) \<in> ?E\<^sup>* \<and> (x, d) \<in> ?E\<^sup>*}"
    by auto
qed

section \<open>A sample auth graph\<close>

definition sample_citing :: "byte_string list \<Rightarrow> json" where
  "sample_citing ids = JObject [(''auth_events'', JArray (map JString ids))]"

definition sample_known :: event_json_index where
  "sample_known =
     [(''$a'', sample_citing [''$b'', ''$c'']), (''$b'', sample_citing [''$c'']), (''$c'', sample_citing [])]"

definition sample_source :: auth_chain_event_source where
  "sample_source = new_event_source sample_known None 1 []"

definition sample_reference :: "byte_string \<Rightarrow> json \<Rightarrow> state_event_reference" where
  "sample_reference eid event =
     \<lparr>ref_key = state_key_of ''m.x'' eid, ref_event_id = eid, ref_sender = ''@a:x'', ref_origin_server_ts = 0,
      ref_depth = 0, ref_event_json = event, ref_rejected = False\<rparr>"

definition sample_groups :: "state_group list" where
  "sample_groups =
     [\<lparr>group_id = ''1'', group_state = [sample_reference ''$d'' (sample_citing [''$a''])]\<rparr>,
      \<lparr>group_id = ''2'', group_state = [sample_reference ''$e'' (sample_citing [''$b''])]\<rparr>]"

lemma sample_source_ok: "source_ok sample_source"
  by (simp add: sample_source_def)

lemma sample_walk: "fst (walk_auth_chain (sample_citing [''$b'']) sample_source 3) = Some [''$b'', ''$c'']"
  by code_simp

lemma sample_difference: "fst (compute_auth_difference sample_groups sample_source 3) = Some [''$a'']"
  by code_simp

lemma sample_subgraph:
  "fst (compute_conflicted_state_subgraph rev [''$a'', ''$c''] sample_source 3) = Some [''$c'', ''$a'', ''$b'']"
  by code_simp

section \<open>Properties\<close>

text \<open>
  C19: the walk computes the auth chain. When the walk from an event returns, its result has no duplicates,
  at most \<open>cap\<close> ids, all of them fetchable, and it is exactly the set of events reachable from the
  event's own auth events.
\<close>

theorem walk_auth_chain_exact:
  assumes "walk_auth_chain start src cap = (Some chain, src')" "source_ok src"
  shows "set chain = {y. \<exists>x \<in> set (event_auth_ids start). (x, y) \<in> (auth_edges src)\<^sup>*} \<and>
    distinct chain \<and> length chain \<le> cap \<and> None \<notin> source_event src ` set chain"
proof -
  note w = walk_auth_chain_sound [OF assms]
  have "None \<notin> source_event src ` set chain" using w(2) by (metis imageE)
  then show ?thesis using w(1,3,4) by (simp add: Image_def)
qed

theorem walk_auth_chain_exact_witness:
  "{y. \<exists>x \<in> set (event_auth_ids (sample_citing [''$b''])). (x, y) \<in> (auth_edges sample_source)\<^sup>*} =
    {''$b'', ''$c''}"
proof -
  obtain s where "walk_auth_chain (sample_citing [''$b'']) sample_source 3 = (Some [''$b'', ''$c''], s)"
    using sample_walk by (metis prod.collapse)
  from walk_auth_chain_exact [OF this sample_source_ok] show ?thesis by simp
qed

text \<open>
  C20: the walk succeeds. When the auth chain of an event is finite, every event of it can be fetched, and
  neither the cap nor the lookup budget is smaller than it, the walk from a fresh source returns the chain.
\<close>

theorem walk_auth_chain_succeeds:
  assumes "R = {y. \<exists>x \<in> set (event_auth_ids start).
      (x, y) \<in> (auth_edges (new_event_source known lookup budget rejected))\<^sup>*}"
    and "finite R" "card R \<le> cap" "card R \<le> budget"
    and "None \<notin> source_event (new_event_source known lookup budget rejected) ` R"
  shows "\<exists>chain src'. walk_auth_chain start (new_event_source known lookup budget rejected) cap =
    (Some chain, src') \<and> set chain = R"
proof -
  let ?src = "new_event_source known lookup budget rejected"
  have fresh: "source_budget ?src = budget" "source_fetched ?src = []"
    by (simp_all add: new_event_source_def)
  have "\<forall>eid \<in> R. source_event ?src eid \<noteq> None"
    using assms(5) by (metis imageI)
  then have room: "roomy ?src R"
    using assms(2,4) fresh by (simp add: roomy_def)
  have start: "set (rev (event_auth_ids start)) \<subseteq> R" using assms(1) by auto
  have closed: "auth_edges ?src `` R \<subseteq> R"
    using assms(1) by (auto intro: rtrancl_into_rtrancl)
  obtain chain src' where w: "walk_auth_chain start ?src cap = (Some chain, src')"
    using walk_frontier_complete [OF room start _ _ closed assms(3), of "[]"]
    by (auto simp: walk_auth_chain_def)
  then have "set chain = R"
    using walk_auth_chain_sound(1) [OF w new_event_source_ok] assms(1) by (simp add: Image_def)
  then show ?thesis using w by blast
qed

theorem walk_auth_chain_succeeds_witness:
  "\<exists>chain src'. walk_auth_chain (sample_citing [''$c'']) (new_event_source sample_known None 1 []) 1 =
     (Some chain, src') \<and> set chain = {''$c''}"
proof -
  let ?src = "new_event_source sample_known None 1 []"
  have ids: "event_auth_ids (sample_citing [''$c'']) = [''$c'']" "event_auth_ids (sample_citing []) = []"
    by (simp_all add: event_auth_ids_def sample_citing_def array_member_def auth_entry_event_id_def)
  have ev: "source_event ?src ''$c'' = Some (sample_citing [])"
    by (simp add: source_event_def new_event_source_def sample_known_def)
  then have "(''$c'', y) \<notin> auth_edges ?src" for y
    by (simp add: auth_edges_def ids)
  then have R: "{''$c''} = {y. \<exists>x \<in> set (event_auth_ids (sample_citing [''$c''])). (x, y) \<in> (auth_edges ?src)\<^sup>*}"
    by (auto simp: ids elim: converse_rtranclE)
  show ?thesis
    by (rule walk_auth_chain_succeeds [OF R]) (simp_all add: ev del: One_nat_def)
qed

text \<open>
  C21: the auth difference of state groups. When it is computed, it is the union of the groups' full auth
  chains without their intersection.
\<close>

theorem auth_difference_exact:
  assumes "compute_auth_difference groups src cap = (Some diff, src')" "source_ok src" "groups \<noteq> []"
  shows "set diff = (\<Union>g \<in> set groups. full_auth_chain src (group_state g)) -
    (\<Inter>g \<in> set groups. full_auth_chain src (group_state g))"
  using compute_auth_difference_sound [OF assms(1,2)] assms(3) by blast

theorem auth_difference_exact_witness:
  "(\<Union>g \<in> set sample_groups. full_auth_chain sample_source (group_state g)) -
    (\<Inter>g \<in> set sample_groups. full_auth_chain sample_source (group_state g)) = {''$a''}"
proof -
  obtain s where "compute_auth_difference sample_groups sample_source 3 = (Some [''$a''], s)"
    using sample_difference by (metis prod.collapse)
  from auth_difference_exact [OF this sample_source_ok] show ?thesis by (simp add: sample_groups_def)
qed

text \<open>
  C22: the conflicted state subgraph. Whatever order the hash containers are visited in, the computed
  subgraph consists of exactly the events on a path of auth events between two conflicted events, ends
  included, and the auth events reachable from the conflicted ones form no cycle.
\<close>

theorem conflicted_subgraph_exact:
  assumes "compute_conflicted_state_subgraph order C src cap = (Some sub, src')"
    and "source_ok src" "visits_all order" "distinct C"
  shows "set sub = {x. \<exists>c \<in> set C. \<exists>d \<in> set C.
      (c, x) \<in> (auth_edges src)\<^sup>* \<and> (x, d) \<in> (auth_edges src)\<^sup>*} \<and>
    acyclic {(x, y). x \<in> (auth_edges src)\<^sup>* `` set C \<and> (x, y) \<in> auth_edges src}"
  using compute_conflicted_state_subgraph_sound [OF assms] by blast

theorem conflicted_subgraph_exact_witness:
  "{x. \<exists>c \<in> {''$a'', ''$c''}. \<exists>d \<in> {''$a'', ''$c''}.
      (c, x) \<in> (auth_edges sample_source)\<^sup>* \<and> (x, d) \<in> (auth_edges sample_source)\<^sup>*} =
    {''$a'', ''$b'', ''$c''}"
proof -
  obtain s where "compute_conflicted_state_subgraph rev [''$a'', ''$c''] sample_source 3 =
      (Some [''$c'', ''$a'', ''$b''], s)"
    using sample_subgraph by (metis prod.collapse)
  from conflicted_subgraph_exact [OF this sample_source_ok visits_all_rev] show ?thesis by auto
qed

end
