(* ===== verification/StateOrdering.thy ===== *)
theory StateOrdering
  imports AuthChain
begin

text \<open>
  The two orderings of state resolution v2 (\<open>src/src/events/state_resolution.cpp\<close>): the reverse topological
  power ordering of the power events, Kahn's algorithm over the auth events with the smallest ready event
  first, and the mainline ordering of the other events. The power ordering is shown to be the greedy one
  its comparison prescribes, so it depends only on the set of events; the mainline ordering is shown to be
  sorted by its three keys.
\<close>

section \<open>The power of a sender in an event's own auth events\<close>

record auth_ancestor_context =
  ancestor_power_levels :: json
  ancestor_create :: json

text \<open>
  Room version 12: the create event is implied by the room id. The value is null when the event names no
  room; no value means the resolution fails.
\<close>

definition implied_create ::
    "json_object \<Rightarrow> auth_chain_event_source \<Rightarrow> room_version_policy \<Rightarrow> json option \<times> auth_chain_event_source"
where
  "implied_create obj src policy =
     (if \<not> create_event_is_room_id policy then (Some JNull, src)
      else case string_member obj ''room_id'' of
        None \<Rightarrow> (Some JNull, src)
      | Some room_id \<Rightarrow>
          if length room_id < 2 \<or> hd room_id \<noteq> CHR ''!'' then (None, src)
          else (case find_required src (''$'' @ tl room_id) of
             (None, src') \<Rightarrow> (None, src')
           | (Some create, src') \<Rightarrow>
               (case value_is_object create of
                  None \<Rightarrow> (None, src')
                | Some create_obj \<Rightarrow>
                    if string_member create_obj ''type'' = Some ''m.room.create'' \<and>
                       string_member create_obj ''state_key'' = Some ''''
                    then (Some create, src') else (None, src'))))"

definition add_ancestor :: "json \<Rightarrow> auth_ancestor_context \<Rightarrow> auth_ancestor_context" where
  "add_ancestor fetched context =
     (case value_is_object fetched of
        None \<Rightarrow> context
      | Some fetched_obj \<Rightarrow>
          (case string_member fetched_obj ''type'' of
             None \<Rightarrow> context
           | Some ty \<Rightarrow>
               if ty = ''m.room.power_levels'' \<and> \<not> value_has_content (ancestor_power_levels context)
               then context\<lparr>ancestor_power_levels := fetched\<rparr>
               else if ty = ''m.room.create'' \<and> \<not> value_has_content (ancestor_create context)
               then context\<lparr>ancestor_create := fetched\<rparr>
               else context))"

fun scan_ancestors ::
    "json list \<Rightarrow> auth_ancestor_context \<Rightarrow> auth_chain_event_source
      \<Rightarrow> auth_ancestor_context option \<times> auth_chain_event_source" where
  "scan_ancestors [] context src = (Some context, src)"
| "scan_ancestors (entry # auth) context src =
     (case auth_entry_event_id entry of
        None \<Rightarrow> scan_ancestors auth context src
      | Some eid \<Rightarrow>
          (case find_required src eid of
             (None, src') \<Rightarrow> (None, src')
           | (Some fetched, src') \<Rightarrow> scan_ancestors auth (add_ancestor fetched context) src'))"

definition find_auth_ancestor_context ::
    "json \<Rightarrow> auth_chain_event_source \<Rightarrow> room_version_policy
      \<Rightarrow> auth_ancestor_context option \<times> auth_chain_event_source" where
  "find_auth_ancestor_context event_json src policy =
     (case value_is_object event_json of
        None \<Rightarrow> (Some \<lparr>ancestor_power_levels = JNull, ancestor_create = JNull\<rparr>, src)
      | Some obj \<Rightarrow>
          (case implied_create obj src policy of
             (None, src') \<Rightarrow> (None, src')
           | (Some create, src') \<Rightarrow>
               (let context = \<lparr>ancestor_power_levels = JNull, ancestor_create = create\<rparr> in
                case array_member obj ''auth_events'' of
                  None \<Rightarrow> (Some context, src')
                | Some auth \<Rightarrow> scan_ancestors auth context src')))"

definition power_level_from_event ::
    "state_event_reference \<Rightarrow> auth_chain_event_source \<Rightarrow> room_version_policy
      \<Rightarrow> int option \<times> auth_chain_event_source" where
  "power_level_from_event event src policy =
     (case find_auth_ancestor_context (ref_event_json event) src policy of
        (None, src') \<Rightarrow> (None, src')
      | (Some context, src') \<Rightarrow>
          (Some (effective_sender_power (ancestor_power_levels context) (ref_sender event)
             (ancestor_create context) policy), src'))"

fun powers_by_id ::
    "state_event_reference list \<Rightarrow> auth_chain_event_source \<Rightarrow> room_version_policy
      \<Rightarrow> (byte_string \<times> int) list \<Rightarrow> (byte_string \<times> int) list option \<times> auth_chain_event_source" where
  "powers_by_id [] src policy powers = (Some powers, src)"
| "powers_by_id (event # events) src policy powers =
     (case power_level_from_event event src policy of
        (None, src') \<Rightarrow> (None, src')
      | (Some level, src') \<Rightarrow> powers_by_id events src' policy (map_emplace (ref_event_id event) level powers))"

section \<open>The reverse topological power ordering\<close>

text \<open>Positions by event id; no value when an id occurs twice.\<close>

fun index_by_id ::
    "state_event_reference list \<Rightarrow> nat \<Rightarrow> (byte_string \<times> nat) list \<Rightarrow> (byte_string \<times> nat) list option" where
  "index_by_id [] i index = Some index"
| "index_by_id (event # events) i index =
     (if ref_event_id event \<in> set (map fst index) then None
      else index_by_id events (i + 1) (index @ [(ref_event_id event, i)]))"

text \<open>The counter of unmet auth events is an integer; it never goes below zero in a run.\<close>

fun add_dependencies ::
    "(byte_string \<times> nat) list \<Rightarrow> nat \<Rightarrow> byte_string list \<Rightarrow> nat list list \<times> int list \<Rightarrow> nat list list \<times> int list"
where
  "add_dependencies index i [] st = st"
| "add_dependencies index i (auth_id # auth_ids) (dependants, unmet) =
     (case map_of index auth_id of
        None \<Rightarrow> add_dependencies index i auth_ids (dependants, unmet)
      | Some found \<Rightarrow>
          add_dependencies index i auth_ids
            (dependants[found := dependants ! found @ [i]], unmet[i := unmet ! i + 1]))"

fun build_dependencies ::
    "(byte_string \<times> nat) list \<Rightarrow> nat \<Rightarrow> state_event_reference list \<Rightarrow> nat list list \<times> int list
      \<Rightarrow> nat list list \<times> int list" where
  "build_dependencies index i [] st = st"
| "build_dependencies index i (event # events) st =
     build_dependencies index (i + 1) events
       (add_dependencies index i (event_auth_ids (ref_event_json event)) st)"

definition precedes ::
    "state_event_reference list \<Rightarrow> (byte_string \<times> int) list \<Rightarrow> nat \<Rightarrow> nat \<Rightarrow> bool" where
  "precedes conflicted powers x y =
     (let a = conflicted ! x; b = conflicted ! y;
          pa = the (map_of powers (ref_event_id a)); pb = the (map_of powers (ref_event_id b)) in
      if pa \<noteq> pb then pb < pa
      else if ref_origin_server_ts a \<noteq> ref_origin_server_ts b
      then ref_origin_server_ts a < ref_origin_server_ts b
      else ref_event_id a < ref_event_id b)"

definition unmet_of :: "int list \<Rightarrow> nat \<Rightarrow> int" where
  "unmet_of unmet i = (if i < length unmet then unmet ! i else 0)"

fun release_dependants ::
    "(nat \<Rightarrow> nat \<Rightarrow> bool) \<Rightarrow> nat list \<Rightarrow> nat list \<times> int list \<Rightarrow> nat list \<times> int list" where
  "release_dependants before [] st = st"
| "release_dependants before (dependant # dependants) (ready, unmet) =
     (let left = unmet_of unmet dependant - 1 in
      release_dependants before dependants
        (if left = 0 then ordered_insert before dependant ready else ready, unmet[dependant := left]))"

lemma release_dependants_measure:
  "length (fst (release_dependants before ds (ready, unmet))) +
     length (filter (\<lambda>u. 0 < u) (snd (release_dependants before ds (ready, unmet)))) \<le>
   length ready + length (filter (\<lambda>u. 0 < u) unmet)"
proof (induction ds arbitrary: ready unmet)
  case (Cons d ds)
  let ?left = "unmet_of unmet d - 1"
  let ?ready = "if ?left = 0 then ordered_insert before d ready else ready"
  have "length ?ready + length (filter (\<lambda>u. 0 < u) (unmet[d := ?left])) \<le>
      length ready + length (filter (\<lambda>u. 0 < u) unmet)"
  proof (cases "d < length unmet")
    case True
    have split: "unmet = take d unmet @ unmet ! d # drop (Suc d) unmet"
      using True by (rule id_take_nth_drop)
    have upd: "unmet[d := ?left] = take d unmet @ ?left # drop (Suc d) unmet"
      using True by (rule upd_conv_take_nth_drop)
    have "length (filter (\<lambda>u. 0 < u) unmet) =
        length (filter (\<lambda>u. 0 < u) (take d unmet)) + (if 0 < unmet ! d then 1 else 0) +
        length (filter (\<lambda>u. 0 < u) (drop (Suc d) unmet))"
      by (subst split) simp
    then show ?thesis
      unfolding upd using True ordered_insert_length [of before d ready] by (simp add: unmet_of_def)
  next
    case False
    then show ?thesis by (simp add: unmet_of_def list_update_beyond)
  qed
  then show ?case
    using Cons.IH [of ?ready "unmet[d := ?left]"] by (simp add: Let_def)
qed simp

function power_sort_loop ::
    "(nat \<Rightarrow> nat \<Rightarrow> bool) \<Rightarrow> nat list list \<Rightarrow> nat list \<Rightarrow> int list \<Rightarrow> nat list \<Rightarrow> nat list" where
  "power_sort_loop before dependants [] unmet emitted = emitted"
| "power_sort_loop before dependants (chosen # ready) unmet emitted =
     (case release_dependants before (dependants ! chosen) (ready, unmet) of
        (ready', unmet') \<Rightarrow> power_sort_loop before dependants ready' unmet' (emitted @ [chosen]))"
  by pat_completeness auto
termination
proof (relation "measure (\<lambda>(before, dependants, ready, unmet, emitted).
    length ready + length (filter (\<lambda>u. 0 < u) unmet))", goal_cases)
  case (2 before dependants chosen ready unmet emitted ready' unmet')
  then have "release_dependants before (dependants ! chosen) (ready, unmet) = (ready', unmet')" by simp
  then show ?case
    using release_dependants_measure [of before "dependants ! chosen" ready unmet] by simp
qed simp

definition reverse_topological_power_sort ::
    "state_event_reference list \<Rightarrow> event_json_index \<Rightarrow> event_lookup_fn \<Rightarrow> room_version_policy
      \<Rightarrow> state_resolution_limits \<Rightarrow> state_event_reference list option" where
  "reverse_topological_power_sort conflicted known_events event_lookup policy limits =
     (if limit_conflicted_state_keys limits < length conflicted then None
      else case powers_by_id conflicted
          (new_event_source known_events event_lookup (limit_auth_chain_walk_events limits) []) policy [] of
        (None, _) \<Rightarrow> None
      | (Some powers, _) \<Rightarrow>
          (case index_by_id conflicted 0 [] of
             None \<Rightarrow> None
           | Some index \<Rightarrow>
               (let count = length conflicted;
                    (dependants, unmet) =
                      build_dependencies index 0 conflicted (replicate count [], replicate count 0);
                    before = precedes conflicted powers;
                    ready = fold (ordered_insert before) (filter (\<lambda>i. unmet ! i = 0) [0..<count]) [];
                    emitted = power_sort_loop before dependants ready unmet []
                in if length emitted \<noteq> count then None
                   else Some (map (\<lambda>i. conflicted ! i) emitted))))"

section \<open>The mainline ordering\<close>

text \<open>The power levels event among an event's auth events: no value when the ancestry is incomplete.\<close>

fun power_levels_entries ::
    "json list \<Rightarrow> byte_string option \<Rightarrow> auth_chain_event_source
      \<Rightarrow> byte_string option option \<times> auth_chain_event_source" where
  "power_levels_entries [] found src = (Some found, src)"
| "power_levels_entries (entry # auth) found src =
     (case auth_entry_event_id entry of
        None \<Rightarrow> (None, src)
      | Some eid \<Rightarrow>
          if eid = [] then (None, src)
          else (case find_required src eid of
             (None, src') \<Rightarrow> (None, src')
           | (Some event, src') \<Rightarrow>
               (case value_is_object event of
                  None \<Rightarrow> (None, src')
                | Some obj \<Rightarrow>
                    (case (string_member obj ''type'', string_member obj ''state_key'') of
                       (Some ty, Some key) \<Rightarrow>
                         if ty = ''m.room.power_levels'' then
                           (if key \<noteq> [] \<or> found \<noteq> None then (None, src')
                            else power_levels_entries auth (Some eid) src')
                         else power_levels_entries auth found src'
                     | _ \<Rightarrow> (None, src')))))"

definition power_levels_auth_ancestor ::
    "json_object \<Rightarrow> auth_chain_event_source \<Rightarrow> byte_string option option \<times> auth_chain_event_source" where
  "power_levels_auth_ancestor event_json src =
     (case array_member event_json ''auth_events'' of
        None \<Rightarrow> (None, src)
      | Some auth \<Rightarrow>
          if max_auth_events_per_event < length auth then (None, src)
          else power_levels_entries auth None src)"

text \<open>The fetched event as a power levels event with an empty state key.\<close>

definition as_power_levels :: "json option \<Rightarrow> json_object option" where
  "as_power_levels event =
     (case event of
        None \<Rightarrow> None
      | Some v \<Rightarrow>
          (case value_is_object v of
             None \<Rightarrow> None
           | Some obj \<Rightarrow>
               if string_member obj ''type'' = Some ''m.room.power_levels'' \<and>
                  string_member obj ''state_key'' = Some ''''
               then Some obj else None))"

function mainline_walk ::
    "nat \<Rightarrow> byte_string \<Rightarrow> json_object \<Rightarrow> byte_string list \<Rightarrow> auth_chain_event_source
      \<Rightarrow> byte_string list option \<times> auth_chain_event_source" where
  "mainline_walk depth_limit current_id current result src =
     (if depth_limit \<le> length result then (None, src)
      else if current_id \<in> set result then (None, src)
      else case power_levels_auth_ancestor current src of
        (None, src') \<Rightarrow> (None, src')
      | (Some None, src') \<Rightarrow> (Some (result @ [current_id]), src')
      | (Some (Some ancestor), src') \<Rightarrow>
          if length (result @ [current_id]) = depth_limit then (None, src')
          else (case find_required src' ancestor of
             (event, src'') \<Rightarrow>
               (case as_power_levels event of
                  None \<Rightarrow> (None, src'')
                | Some obj \<Rightarrow> mainline_walk depth_limit ancestor obj (result @ [current_id]) src'')))"
  by pat_completeness auto
termination
  by (relation "measure (\<lambda>(depth_limit, current_id, current, result, src). depth_limit - length result)") auto

declare mainline_walk.simps [simp del]

definition collect_mainline_power_events ::
    "byte_string \<Rightarrow> json \<Rightarrow> auth_chain_event_source \<Rightarrow> nat
      \<Rightarrow> byte_string list option \<times> auth_chain_event_source" where
  "collect_mainline_power_events head_event_id power_levels_event src depth_limit =
     (case value_is_object power_levels_event of
        None \<Rightarrow> (None, src)
      | Some current \<Rightarrow>
          if head_event_id = [] then (None, src)
          else mainline_walk depth_limit head_event_id current [] src)"

text \<open>\<open>std::numeric_limits<std::size_t>::max()\<close>.\<close>

definition mainline_infinity :: nat where
  "mainline_infinity = 2 ^ 64 - 1"

text \<open>The hops from an event to the mainline, at most \<open>hops\<close> of them.\<close>

fun mainline_position ::
    "nat \<Rightarrow> (byte_string \<times> nat) list \<Rightarrow> json_object \<Rightarrow> byte_string list \<Rightarrow> auth_chain_event_source
      \<Rightarrow> nat option \<times> auth_chain_event_source" where
  "mainline_position 0 depths current visited src = (None, src)"
| "mainline_position (Suc hops) depths current visited src =
     (case power_levels_auth_ancestor current src of
        (None, src') \<Rightarrow> (None, src')
      | (Some None, src') \<Rightarrow> (Some mainline_infinity, src')
      | (Some (Some ancestor), src') \<Rightarrow>
          (case map_of depths ancestor of
             Some position \<Rightarrow> (Some position, src')
           | None \<Rightarrow>
               if ancestor \<in> set visited then (None, src')
               else (case find_required src' ancestor of
                  (event, src'') \<Rightarrow>
                    (case as_power_levels event of
                       None \<Rightarrow> (None, src'')
                     | Some obj \<Rightarrow> mainline_position hops depths obj (visited @ [ancestor]) src''))))"

fun mainline_positions ::
    "nat \<Rightarrow> byte_string list \<Rightarrow> state_event_reference list \<Rightarrow> (byte_string \<times> nat) list
      \<Rightarrow> auth_chain_event_source \<Rightarrow> (byte_string \<times> nat) list option \<times> auth_chain_event_source" where
  "mainline_positions depth_limit mainline [] positions src = (Some positions, src)"
| "mainline_positions depth_limit mainline (event # events) positions src =
     (if mainline = [] then
        mainline_positions depth_limit mainline events
          (map_emplace (ref_event_id event) mainline_infinity positions) src
      else case value_is_object (ref_event_json event) of
        None \<Rightarrow> (None, src)
      | Some current \<Rightarrow>
          (case mainline_position depth_limit (zip mainline [0..<length mainline]) current [] src of
             (None, src') \<Rightarrow> (None, src')
           | (Some position, src') \<Rightarrow>
               mainline_positions depth_limit mainline events
                 (map_emplace (ref_event_id event) position positions) src'))"

definition mainline_before ::
    "(byte_string \<times> nat) list \<Rightarrow> state_event_reference \<Rightarrow> state_event_reference \<Rightarrow> bool" where
  "mainline_before positions a b =
     (let pos_a = the (map_of positions (ref_event_id a)); pos_b = the (map_of positions (ref_event_id b)) in
      if pos_a \<noteq> pos_b then pos_b < pos_a
      else if ref_origin_server_ts a \<noteq> ref_origin_server_ts b
      then ref_origin_server_ts a < ref_origin_server_ts b
      else ref_event_id a < ref_event_id b)"

definition collect_mainline ::
    "state_map \<Rightarrow> auth_chain_event_source \<Rightarrow> nat \<Rightarrow> byte_string list option \<times> auth_chain_event_source" where
  "collect_mainline resolved src depth_limit =
     (case map_of resolved (state_key_of ''m.room.power_levels'' '''') of
        None \<Rightarrow> (Some [], src)
      | Some power_levels \<Rightarrow>
          if value_has_content (ref_event_json power_levels)
          then collect_mainline_power_events (ref_event_id power_levels)
            (ref_event_json power_levels) src depth_limit
          else (Some [], src))"

text \<open>The events, sorted or as they were, and whether the ordering succeeded.\<close>

definition mainline_order_with_source ::
    "state_event_reference list \<Rightarrow> state_map \<Rightarrow> auth_chain_event_source \<Rightarrow> state_resolution_limits
      \<Rightarrow> bool \<times> state_event_reference list \<times> auth_chain_event_source" where
  "mainline_order_with_source events resolved src limits =
     (case collect_mainline resolved src (limit_mainline_auth_chain_depth limits) of
        (None, src') \<Rightarrow> (False, events, src')
      | (Some mainline, src') \<Rightarrow>
          (case mainline_positions (limit_mainline_auth_chain_depth limits) mainline events [] src' of
             (None, src'') \<Rightarrow> (False, events, src'')
           | (Some positions, src'') \<Rightarrow>
               (\<not> source_missing src'', stable_sort (mainline_before positions) events, src'')))"

definition mainline_order ::
    "state_event_reference list \<Rightarrow> state_map \<Rightarrow> event_json_index \<Rightarrow> state_resolution_limits
      \<Rightarrow> state_event_reference list" where
  "mainline_order events resolved events_by_id limits =
     fst (snd (mainline_order_with_source events resolved
       (new_event_source events_by_id None (limit_auth_chain_walk_events limits) []) limits))"

section \<open>Ranks\<close>

text \<open>
  Both orderings put the larger rank first, then the earlier timestamp, then the smaller event id; the
  rank is a sender's power or a position on the mainline.
\<close>

definition ranked_before ::
    "(state_event_reference \<Rightarrow> 'r::linorder) \<Rightarrow> state_event_reference \<Rightarrow> state_event_reference \<Rightarrow> bool" where
  "ranked_before rank a b \<longleftrightarrow>
     (if rank a \<noteq> rank b then rank b < rank a
      else if ref_origin_server_ts a \<noteq> ref_origin_server_ts b
      then ref_origin_server_ts a < ref_origin_server_ts b
      else ref_event_id a < ref_event_id b)"

lemma ranked_before_total:
  assumes "inj_on ref_event_id A"
  shows "strict_total_on A (ranked_before rank)"
  unfolding strict_total_on_def
proof (intro conjI ballI impI)
  fix x y z
  show "\<not> ranked_before rank x x" by (simp add: ranked_before_def)
  show "ranked_before rank x z" if "ranked_before rank x y" "ranked_before rank y z"
    using that by (auto simp: ranked_before_def split: if_splits)
  assume "x \<in> A" "y \<in> A" "x \<noteq> y"
  then have "ref_event_id x \<noteq> ref_event_id y" using assms by (auto dest: inj_onD)
  then show "ranked_before rank x y \<or> ranked_before rank y x"
    by (auto simp: ranked_before_def)
qed

lemma precedes_ranked:
  "precedes conflicted powers x y =
     ranked_before (\<lambda>e. the (map_of powers (ref_event_id e))) (conflicted ! x) (conflicted ! y)"
  by (simp add: precedes_def ranked_before_def Let_def)

lemma mainline_before_ranked:
  "mainline_before positions = ranked_before (\<lambda>e. the (map_of positions (ref_event_id e)))"
  by (simp add: mainline_before_def ranked_before_def Let_def fun_eq_iff)

lemma ranked_before_cong:
  assumes "rank a = rank' a" "rank b = rank' b"
  shows "ranked_before rank a b = ranked_before rank' a b"
  using assms by (simp add: ranked_before_def)

section \<open>Powers\<close>

text \<open>The context an event's own auth events give, read from a total lookup.\<close>

definition ancestor_context ::
    "(byte_string \<Rightarrow> json option) \<Rightarrow> room_version_policy \<Rightarrow> json \<Rightarrow> auth_ancestor_context" where
  "ancestor_context ev policy event =
     (case value_is_object event of
        None \<Rightarrow> \<lparr>ancestor_power_levels = JNull, ancestor_create = JNull\<rparr>
      | Some obj \<Rightarrow>
          fold (\<lambda>eid ctx. case ev eid of None \<Rightarrow> ctx | Some fetched \<Rightarrow> add_ancestor fetched ctx)
            (event_auth_ids event)
            \<lparr>ancestor_power_levels = JNull,
             ancestor_create =
               (case string_member obj ''room_id'' of
                  None \<Rightarrow> JNull
                | Some room_id \<Rightarrow>
                    if create_event_is_room_id policy then the (ev (''$'' @ tl room_id)) else JNull)\<rparr>)"

definition sender_power ::
    "(byte_string \<Rightarrow> json option) \<Rightarrow> room_version_policy \<Rightarrow> state_event_reference \<Rightarrow> int" where
  "sender_power ev policy event =
     effective_sender_power (ancestor_power_levels (ancestor_context ev policy (ref_event_json event)))
       (ref_sender event) (ancestor_create (ancestor_context ev policy (ref_event_json event))) policy"

lemma scan_ancestors_reads: "scan_ancestors auth ctx src = (r, src') \<Longrightarrow> reads src src'"
proof (induction auth arbitrary: ctx src)
  case (Cons entry auth)
  show ?case
  proof (cases "auth_entry_event_id entry")
    case None
    then show ?thesis using Cons by simp
  next
    case (Some eid)
    obtain x s where f: "find_required src eid = (x, s)" by force
    have rd: "reads src s" by (rule find_required_reads [OF f])
    show ?thesis using Cons Some f rd by (cases x) (auto intro: reads_trans)
  qed
qed simp

lemma scan_ancestors_sound:
  assumes "scan_ancestors auth ctx src = (Some out, src')" "source_ok src"
  shows "out = fold (\<lambda>eid ctx. case source_event src eid of None \<Rightarrow> ctx
      | Some fetched \<Rightarrow> add_ancestor fetched ctx) (List.map_filter auth_entry_event_id auth) ctx"
  using assms
proof (induction auth arbitrary: ctx src)
  case (Cons entry auth)
  show ?case
  proof (cases "auth_entry_event_id entry")
    case None
    then show ?thesis using Cons by simp
  next
    case (Some eid)
    obtain v s where f: "find_required src eid = (Some v, s)"
      and rest: "scan_ancestors auth (add_ancestor v ctx) s = (Some out, src')"
      using Cons.prems(1) Some by (auto split: prod.splits option.splits)
    have rd: "reads src s" by (rule find_required_reads [OF f])
    show ?thesis
      using Cons.IH [OF rest reads_ok [OF rd Cons.prems(2)]] Some rd
        find_required_event [OF f Cons.prems(2)] by simp
  qed
qed simp

lemma implied_create_cases:
  assumes "implied_create obj src policy = (Some create, src')"
  shows "src' = src \<and> create = JNull \<and> (\<not> create_event_is_room_id policy \<or> string_member obj ''room_id'' = None) \<or>
    (\<exists>room_id. create_event_is_room_id policy \<and> string_member obj ''room_id'' = Some room_id \<and>
       find_required src (''$'' @ tl room_id) = (Some create, src'))"
  using assms
  by (auto simp: implied_create_def split: if_splits option.splits prod.splits)

lemma implied_create_reads: "implied_create obj src policy = (r, src') \<Longrightarrow> reads src src'"
  by (auto simp: implied_create_def split: if_splits option.splits prod.splits dest!: find_required_reads)

lemma find_auth_ancestor_context_sound:
  assumes r: "find_auth_ancestor_context event src policy = (Some ctx, src')" and ok: "source_ok src"
  shows "ctx = ancestor_context (source_event src) policy event"
proof (cases "value_is_object event")
  case None
  then show ?thesis using r by (simp add: find_auth_ancestor_context_def ancestor_context_def)
next
  case (Some obj)
  obtain create s where i: "implied_create obj src policy = (Some create, s)"
    using r Some by (auto simp: find_auth_ancestor_context_def Let_def split: prod.splits option.splits)
  have rd: "reads src s" by (rule implied_create_reads [OF i])
  have create: "create = (case string_member obj ''room_id'' of None \<Rightarrow> JNull
      | Some room_id \<Rightarrow> if create_event_is_room_id policy then the (source_event src (''$'' @ tl room_id)) else JNull)"
    using implied_create_cases [OF i] ok find_required_event [of src _ create s]
    by (auto split: option.splits)
  show ?thesis
  proof (cases "array_member obj ''auth_events''")
    case None
    then show ?thesis
      using r Some i create by (simp add: find_auth_ancestor_context_def ancestor_context_def event_auth_ids_def)
  next
    case (Some auth)
    then have "scan_ancestors auth \<lparr>ancestor_power_levels = JNull, ancestor_create = create\<rparr> s = (Some ctx, src')"
      using r \<open>value_is_object event = Some obj\<close> i by (simp add: find_auth_ancestor_context_def)
    then show ?thesis
      using scan_ancestors_sound [OF _ reads_ok [OF rd ok]] Some \<open>value_is_object event = Some obj\<close> rd create
      by (simp add: ancestor_context_def event_auth_ids_def)
  qed
qed

lemma find_auth_ancestor_context_reads:
  assumes "find_auth_ancestor_context event src policy = (r, src')"
  shows "reads src src'"
proof (cases "value_is_object event")
  case None
  then show ?thesis using assms by (simp add: find_auth_ancestor_context_def)
next
  case (Some obj)
  obtain x s where i: "implied_create obj src policy = (x, s)" by force
  have rd: "reads src s" by (rule implied_create_reads [OF i])
  show ?thesis
    using assms Some i rd
    by (cases x) (auto simp: find_auth_ancestor_context_def Let_def split: option.splits
        dest!: scan_ancestors_reads intro: reads_trans)
qed

lemma power_level_from_event_sound:
  assumes "power_level_from_event event src policy = (Some level, src')" "source_ok src"
  shows "level = sender_power (source_event src) policy event"
  using assms find_auth_ancestor_context_sound [of "ref_event_json event" src policy _ src']
  by (auto simp: power_level_from_event_def sender_power_def split: prod.splits option.splits)

lemma power_level_from_event_reads:
  "power_level_from_event event src policy = (r, src') \<Longrightarrow> reads src src'"
  by (auto simp: power_level_from_event_def split: prod.splits option.splits
      dest!: find_auth_ancestor_context_reads)

lemma powers_by_id_sound:
  assumes "powers_by_id events src policy powers = (Some out, src')" "source_ok src"
    and "distinct (map ref_event_id events)" "\<And>e. e \<in> set events \<Longrightarrow> ref_event_id e \<notin> dom (map_of powers)"
  shows "(\<forall>e \<in> set events. map_of out (ref_event_id e) = Some (sender_power (source_event src) policy e)) \<and>
    (\<forall>eid \<in> dom (map_of powers). map_of out eid = map_of powers eid)"
  using assms
proof (induction events arbitrary: src powers)
  case (Cons event events)
  obtain level s where p: "power_level_from_event event src policy = (Some level, s)"
    and rest: "powers_by_id events s policy (map_emplace (ref_event_id event) level powers) = (Some out, src')"
    using Cons.prems(1) by (auto split: prod.splits option.splits)
  have rd: "reads src s" by (rule power_level_from_event_reads [OF p])
  have level: "level = sender_power (source_event src) policy event"
    by (rule power_level_from_event_sound [OF p Cons.prems(2)])
  have fresh: "ref_event_id event \<notin> dom (map_of powers)" using Cons.prems(4) by simp
  have m: "map_of (map_emplace (ref_event_id event) level powers) = (map_of powers)(ref_event_id event \<mapsto> level)"
    using fresh by simp
  have IH: "(\<forall>e \<in> set events. map_of out (ref_event_id e) = Some (sender_power (source_event s) policy e)) \<and>
    (\<forall>eid \<in> dom (map_of (map_emplace (ref_event_id event) level powers)).
       map_of out eid = map_of (map_emplace (ref_event_id event) level powers) eid)"
  proof (rule Cons.IH [OF rest reads_ok [OF rd Cons.prems(2)]])
    show "distinct (map ref_event_id events)" using Cons.prems(3) by simp
    show "ref_event_id e \<notin> dom (map_of (map_emplace (ref_event_id event) level powers))" if "e \<in> set events" for e
      unfolding m using that Cons.prems(3,4) by (auto simp: image_iff)
  qed
  show ?case
    using IH level rd fresh unfolding m by (auto simp: domIff)
qed simp

section \<open>The dependency graph\<close>

lemma index_by_id_eq:
  "index_by_id events i index = Some out \<Longrightarrow>
     out = index @ zip (map ref_event_id events) [i..<i + length events] \<and>
     (distinct (map fst index) \<longrightarrow> distinct (map fst index @ map ref_event_id events))"
proof (induction events arbitrary: i index)
  case (Cons event events)
  then have new: "ref_event_id event \<notin> fst ` set index"
    and rest: "index_by_id events (i + 1) (index @ [(ref_event_id event, i)]) = Some out"
    by (auto split: if_splits)
  have "[i..<i + length (event # events)] = i # [i + 1..<i + 1 + length events]"
    using upt_conv_Cons [of i "i + length (event # events)"] by (simp del: upt_Suc)
  then show ?case using Cons.IH [OF rest] new by (auto simp del: upt_Suc)
qed simp

lemma index_by_id_complete:
  "distinct (map fst index @ map ref_event_id events) \<Longrightarrow> \<exists>out. index_by_id events i index = Some out"
proof (induction events arbitrary: i index)
  case (Cons event events)
  then show ?case using Cons.IH [of "index @ [(ref_event_id event, i)]" "i + 1"] by simp
qed simp

text \<open>Where the events of the list are found.\<close>

definition event_index :: "state_event_reference list \<Rightarrow> (byte_string \<times> nat) list" where
  "event_index events = zip (map ref_event_id events) [0..<length events]"

lemma index_by_id_start:
  assumes "index_by_id events 0 [] = Some index"
  shows "index = event_index events" "distinct (map ref_event_id events)"
  using index_by_id_eq [OF assms] by (simp_all add: event_index_def)

lemma map_of_event_index:
  assumes "distinct (map ref_event_id events)"
  shows "map_of (event_index events) a = Some j \<longleftrightarrow> j < length events \<and> ref_event_id (events ! j) = a"
proof -
  have d: "distinct (map fst (event_index events))" using assms by (simp add: event_index_def)
  have "(a, j) \<in> set (event_index events) \<longleftrightarrow> j < length events \<and> ref_event_id (events ! j) = a"
    by (auto simp: event_index_def set_zip intro!: exI [of _ j])
  then show ?thesis using d by simp
qed

definition dependency_tables :: "state_event_reference list \<Rightarrow> nat list list \<times> int list" where
  "dependency_tables events =
     build_dependencies (event_index events) 0 events
       (replicate (length events) [], replicate (length events) 0)"

definition dependants_of :: "state_event_reference list \<Rightarrow> nat \<Rightarrow> nat list" where
  "dependants_of events i = fst (dependency_tables events) ! i"

text \<open>How often the event at one position cites the one at another.\<close>

definition citations :: "(byte_string \<times> nat) list \<Rightarrow> byte_string list \<Rightarrow> nat \<Rightarrow> nat" where
  "citations index auth_ids j = length (filter (\<lambda>a. map_of index a = Some j) auth_ids)"

lemma citations_simps [simp]:
  "citations index [] j = 0"
  "citations index (a # as) j = (if map_of index a = Some j then 1 else 0) + citations index as j"
  by (simp_all add: citations_def)

lemma add_dependencies_eq:
  assumes "length dependants = n" "length unmet = n" "i < n" "\<forall>a j. map_of index a = Some j \<longrightarrow> j < n"
  shows "case add_dependencies index i auth_ids (dependants, unmet) of (dependants', unmet') \<Rightarrow>
    length dependants' = n \<and> length unmet' = n \<and>
    (\<forall>j < n. \<forall>k. count_list (dependants' ! j) k =
       count_list (dependants ! j) k + (if k = i then citations index auth_ids j else 0)) \<and>
    (\<forall>k < n. unmet' ! k = unmet ! k +
       (if k = i then int (length (filter (\<lambda>a. map_of index a \<noteq> None) auth_ids)) else 0))"
  using assms(1-3)
proof (induction auth_ids arbitrary: dependants unmet)
  case Nil
  then show ?case by simp
next
  case (Cons a auth_ids)
  show ?case
  proof (cases "map_of index a")
    case None
    then show ?thesis using Cons.IH [OF Cons.prems]
      by (cases "add_dependencies index i auth_ids (dependants, unmet)") simp
  next
    case (Some found)
    then have found: "found < n" using assms(4) by blast
    let ?d = "dependants[found := dependants ! found @ [i]]" and ?u = "unmet[i := unmet ! i + 1]"
    have "case add_dependencies index i auth_ids (?d, ?u) of (dependants', unmet') \<Rightarrow>
      length dependants' = n \<and> length unmet' = n \<and>
      (\<forall>j < n. \<forall>k. count_list (dependants' ! j) k =
         count_list (?d ! j) k + (if k = i then citations index auth_ids j else 0)) \<and>
      (\<forall>k < n. unmet' ! k = ?u ! k +
         (if k = i then int (length (filter (\<lambda>a. map_of index a \<noteq> None) auth_ids)) else 0))"
      by (rule Cons.IH) (use Cons.prems in auto)
    then show ?thesis
      using Some found Cons.prems
      by (cases "add_dependencies index i auth_ids (?d, ?u)") (auto simp: nth_list_update)
  qed
qed

lemma build_dependencies_eq:
  assumes "length dependants = n" "length unmet = n" "i + length events \<le> n"
    and "\<forall>a j. map_of index a = Some j \<longrightarrow> j < n"
  shows "case build_dependencies index i events (dependants, unmet) of (dependants', unmet') \<Rightarrow>
    length dependants' = n \<and> length unmet' = n \<and>
    (\<forall>j < n. \<forall>k. count_list (dependants' ! j) k = count_list (dependants ! j) k +
       (if i \<le> k \<and> k < i + length events
        then citations index (event_auth_ids (ref_event_json (events ! (k - i)))) j else 0)) \<and>
    (\<forall>k < n. unmet' ! k = unmet ! k +
       (if i \<le> k \<and> k < i + length events
        then int (length (filter (\<lambda>a. map_of index a \<noteq> None) (event_auth_ids (ref_event_json (events ! (k - i))))))
        else 0))"
  using assms(1-3)
proof (induction events arbitrary: i dependants unmet)
  case (Cons event events)
  obtain d u where du: "add_dependencies index i (event_auth_ids (ref_event_json event)) (dependants, unmet) = (d, u)"
    by force
  have i: "i < n" using Cons.prems(3) by simp
  have add: "length d = n" "length u = n"
    "\<And>j k. j < n \<Longrightarrow> count_list (d ! j) k = count_list (dependants ! j) k +
      (if k = i then citations index (event_auth_ids (ref_event_json event)) j else 0)"
    "\<And>k. k < n \<Longrightarrow> u ! k = unmet ! k +
      (if k = i then int (length (filter (\<lambda>a. map_of index a \<noteq> None) (event_auth_ids (ref_event_json event)))) else 0)"
    using add_dependencies_eq [OF Cons.prems(1,2) i assms(4), where auth_ids = "event_auth_ids (ref_event_json event)"] du
    by simp_all
  obtain d' u' where du': "build_dependencies index (i + 1) events (d, u) = (d', u')" by force
  have IH: "length d' = n" "length u' = n"
    "\<And>j k. j < n \<Longrightarrow> count_list (d' ! j) k = count_list (d ! j) k +
      (if i + 1 \<le> k \<and> k < i + 1 + length events
       then citations index (event_auth_ids (ref_event_json (events ! (k - (i + 1))))) j else 0)"
    "\<And>k. k < n \<Longrightarrow> u' ! k = u ! k +
      (if i + 1 \<le> k \<and> k < i + 1 + length events
       then int (length (filter (\<lambda>a. map_of index a \<noteq> None) (event_auth_ids (ref_event_json (events ! (k - (i + 1)))))))
       else 0)"
    using Cons.IH [OF add(1,2), of "i + 1"] Cons.prems(3) du' by simp_all
  have nth: "(event # events) ! (k - i) = events ! (k - (i + 1))" if "i + 1 \<le> k" for k
    using that by (simp add: nth_Cons')
  have dep: "count_list (d' ! j) k = count_list (dependants ! j) k +
       (if i \<le> k \<and> k < i + length (event # events)
        then citations index (event_auth_ids (ref_event_json ((event # events) ! (k - i)))) j else 0)"
    if "j < n" for j k
    using IH(3) [OF that, of k] add(3) [OF that, of k] nth [of k] by (cases "i < k") auto
  have unm: "u' ! k = unmet ! k +
       (if i \<le> k \<and> k < i + length (event # events)
        then int (length (filter (\<lambda>a. map_of index a \<noteq> None)
          (event_auth_ids (ref_event_json ((event # events) ! (k - i)))))) else 0)"
    if "k < n" for k
    using IH(4) [OF that] add(4) [OF that] nth [of k] by (cases "i < k") auto
  have "build_dependencies index i (event # events) (dependants, unmet) = (d', u')"
    using du du' by simp
  then show ?case
    using IH(1,2) dep unm by simp
qed auto

lemma event_index_bound: "map_of (event_index events) a = Some j \<Longrightarrow> j < length events"
  by (auto simp: event_index_def set_zip dest!: map_of_SomeD)

lemma dependency_tables_eq:
  shows "length (fst (dependency_tables events)) = length events"
    and "length (snd (dependency_tables events)) = length events"
    and "j < length events \<Longrightarrow> count_list (dependants_of events j) k =
      (if k < length events then citations (event_index events) (event_auth_ids (ref_event_json (events ! k))) j else 0)"
    and "k < length events \<Longrightarrow> snd (dependency_tables events) ! k =
      int (length (filter (\<lambda>a. map_of (event_index events) a \<noteq> None) (event_auth_ids (ref_event_json (events ! k)))))"
proof -
  let ?n = "length events"
  have idx: "\<forall>a j. map_of (event_index events) a = Some j \<longrightarrow> j < ?n"
    using event_index_bound by blast
  obtain d u where t: "dependency_tables events = (d, u)" by force
  have b: "case (d, u) of (dependants', unmet') \<Rightarrow>
    length dependants' = ?n \<and> length unmet' = ?n \<and>
    (\<forall>j < ?n. \<forall>k. count_list (dependants' ! j) k = count_list (replicate ?n [] ! j) k +
       (if 0 \<le> k \<and> k < 0 + ?n
        then citations (event_index events) (event_auth_ids (ref_event_json (events ! (k - 0)))) j else 0)) \<and>
    (\<forall>k < ?n. unmet' ! k = replicate ?n 0 ! k +
       (if 0 \<le> k \<and> k < 0 + ?n
        then int (length (filter (\<lambda>a. map_of (event_index events) a \<noteq> None)
          (event_auth_ids (ref_event_json (events ! (k - 0)))))) else 0))"
    unfolding t [symmetric] dependency_tables_def by (rule build_dependencies_eq) (use idx in auto)
  show "length (fst (dependency_tables events)) = ?n" "length (snd (dependency_tables events)) = ?n"
    using b t by simp_all
  show "count_list (dependants_of events j) k =
      (if k < ?n then citations (event_index events) (event_auth_ids (ref_event_json (events ! k))) j else 0)"
    if "j < ?n" using b t that by (simp add: dependants_of_def)
  show "snd (dependency_tables events) ! k =
      int (length (filter (\<lambda>a. map_of (event_index events) a \<noteq> None) (event_auth_ids (ref_event_json (events ! k)))))"
    if "k < ?n" using b t that by simp
qed

interpretation power_graph: kahn_graph "{..<length events}" "dependants_of events" for events
proof
  fix m
  assume "m \<in> {..<length events}"
  then have "count_list (dependants_of events m) k = 0" if "\<not> k < length events" for k
    using dependency_tables_eq(3) [of m events k] that by simp
  then show "set (dependants_of events m) \<subseteq> {..<length events}"
    by (auto simp: count_list_0_iff)
qed simp

lemma sum_citations:
  assumes "\<forall>a j. map_of index a = Some j \<longrightarrow> j < n"
  shows "(\<Sum>j < n. citations index ids j) = length (filter (\<lambda>a. map_of index a \<noteq> None) ids)"
proof (induction ids)
  case (Cons a ids)
  have "(\<Sum>j < n. if map_of index a = Some j then 1 else 0) = (if map_of index a \<noteq> None then 1 else (0::nat))"
    using assms by (cases "map_of index a") auto
  then show ?case using Cons by (simp add: sum.distrib)
qed simp

lemma waiting_start:
  assumes "k < length events"
  shows "int (waiting {..<length events} (dependants_of events) [] k) = snd (dependency_tables events) ! k"
proof -
  have "waiting {..<length events} (dependants_of events) [] k =
      (\<Sum>j < length events. citations (event_index events) (event_auth_ids (ref_event_json (events ! k))) j)"
    unfolding waiting_def using assms by (auto intro!: sum.cong simp: dependency_tables_eq(3))
  then show ?thesis
    using sum_citations [of "event_index events" "length events"] event_index_bound
      dependency_tables_eq(4) [OF assms] by auto
qed

lemma power_graph_edge:
  assumes "distinct (map ref_event_id events)"
  shows "(j, k) \<in> graph_edges {..<length events} (dependants_of events) \<longleftrightarrow>
    j < length events \<and> k < length events \<and>
    ref_event_id (events ! j) \<in> set (event_auth_ids (ref_event_json (events ! k)))"
proof (cases "j < length events")
  case True
  have "k \<in> set (dependants_of events j) \<longleftrightarrow> count_list (dependants_of events j) k \<noteq> 0"
    by (simp add: count_list_0_iff)
  also have "\<dots> \<longleftrightarrow> k < length events \<and>
      ref_event_id (events ! j) \<in> set (event_auth_ids (ref_event_json (events ! k)))"
    using True by (auto simp: dependency_tables_eq(3) citations_def filter_empty_conv map_of_event_index [OF assms])
  finally show ?thesis using True by (auto simp: graph_edges_def)
qed (simp add: graph_edges_def)

section \<open>The run\<close>

lemma release_dependants_sound:
  assumes tot: "strict_total_on {..<n} before" and "length unmet = n" "set ds \<subseteq> {..<n}"
    and "set ready \<subseteq> {..<n}" "sorted_wrt before ready"
    and "\<And>d. d \<in> set ds \<Longrightarrow> int (count_list ds d) \<le> unmet_of unmet d"
  shows "\<exists>ready' unmet'. release_dependants before ds (ready, unmet) = (ready', unmet') \<and> length unmet' = n \<and>
    sorted_wrt before ready' \<and>
    set ready' = set ready \<union> {d \<in> set ds. unmet_of unmet d = int (count_list ds d)} \<and>
    (\<forall>x < n. unmet_of unmet' x = unmet_of unmet x - int (count_list ds x))"
  using assms(2-)
proof (induction ds arbitrary: ready unmet)
  case (Cons d ds)
  let ?left = "unmet_of unmet d - 1"
  let ?unmet = "unmet[d := ?left]"
  let ?ready = "if ?left = 0 then ordered_insert before d ready else ready"
  have d: "d < n" using Cons.prems(2) by simp
  have upd: "unmet_of ?unmet x = (if x = d then ?left else unmet_of unmet x)" for x
    using d Cons.prems(1) by (simp add: unmet_of_def)
  have le: "int (count_list ds x) \<le> unmet_of ?unmet x" if "x \<in> set ds" for x
    using Cons.prems(5) [of x] that by (auto simp: upd split: if_splits)
  have ready: "set ?ready = set ready \<union> (if ?left = 0 then {d} else {})" "sorted_wrt before ?ready"
    using ordered_insert_set [OF tot, of d ready] ordered_insert_sorted [OF tot, of d ready] d
      Cons.prems(3,4) by auto
  have c: "length ?unmet = n" "set ds \<subseteq> {..<n}" "set ?ready \<subseteq> {..<n}"
    unfolding ready(1) using Cons.prems(1-3) d by simp_all
  obtain ready' unmet' where IH: "release_dependants before ds (?ready, ?unmet) = (ready', unmet')"
    "length unmet' = n" "sorted_wrt before ready'"
    "set ready' = set ?ready \<union> {x \<in> set ds. unmet_of ?unmet x = int (count_list ds x)}"
    "\<forall>x < n. unmet_of unmet' x = unmet_of ?unmet x - int (count_list ds x)"
    using Cons.IH [OF c ready(2) le] by blast
  have dd: "int (count_list ds d) \<le> ?left" using Cons.prems(5) [of d] by simp
  have "x \<in> set ready' \<longleftrightarrow> x \<in> set ready \<or> x \<in> set (d # ds) \<and> unmet_of unmet x = int (count_list (d # ds) x)" for x
  proof (cases "x = d")
    case True
    have "d \<in> set ready' \<longleftrightarrow> d \<in> set ready \<or> ?left = 0 \<or> d \<in> set ds \<and> ?left = int (count_list ds d)"
      unfolding IH(4) ready(1) by (simp add: upd)
    also have "\<dots> \<longleftrightarrow> d \<in> set ready \<or> ?left = int (count_list ds d)"
      using dd by (cases "d \<in> set ds") (auto simp: count_list_0_iff)
    finally show ?thesis using True by auto
  next
    case False
    then show ?thesis unfolding IH(4) ready(1) by (simp add: upd)
  qed
  then have "set ready' = set ready \<union> {x \<in> set (d # ds). unmet_of unmet x = int (count_list (d # ds) x)}"
    by blast
  moreover have "\<forall>x < n. unmet_of unmet' x = unmet_of unmet x - int (count_list (d # ds) x)"
    using IH(5) by (simp add: upd)
  moreover have "release_dependants before (d # ds) (ready, unmet) = (ready', unmet')"
    using IH(1) by (simp add: Let_def)
  ultimately show ?case using IH(2,3) by blast
qed simp

lemma power_sort_loop_sound:
  assumes tot: "strict_total_on {..<length events} before"
    and "kahn_state {..<length events} (dependants_of events) emitted ready (unmet_of unmet)"
    and "length unmet = length events" "sorted_wrt before ready"
    and "greedy_order {..<length events} (dependants_of events) before emitted"
  shows "\<exists>degree. kahn_state {..<length events} (dependants_of events)
      (power_sort_loop before (fst (dependency_tables events)) ready unmet emitted) [] degree \<and>
    greedy_order {..<length events} (dependants_of events) before
      (power_sort_loop before (fst (dependency_tables events)) ready unmet emitted)"
  using assms(2-)
proof (induction "length ready + length (filter (\<lambda>u. 0 < u) unmet)" arbitrary: ready unmet emitted
    rule: less_induct)
  case less
  let ?N = "{..<length events}" and ?S = "dependants_of events"
  note st = kahn_stateD [OF less.prems(1)]
  show ?case
  proof (cases ready)
    case Nil
    then show ?thesis using less.prems by auto
  next
    case (Cons chosen rest)
    have N: "chosen \<in> ?N" "set rest \<subseteq> ?N" using st(2) Cons by auto
    have le: "int (count_list (?S chosen) d) \<le> unmet_of unmet d" if "d \<in> set (?S chosen)" for d
    proof -
      have d: "d \<in> ?N" using that power_graph.succs_nodes [OF N(1)] by auto
      have "waiting ?N ?S emitted d = count_list (?S chosen) d + waiting ?N ?S (emitted @ [chosen]) d"
        by (rule power_graph.waiting_snoc) (use st(1) N Cons in auto)
      then show ?thesis using st(3) [OF d] by simp
    qed
    have sorted: "sorted_wrt before rest" "\<forall>x \<in> set rest. before chosen x"
      using less.prems(3) Cons by auto
    obtain ready' unmet' where r: "release_dependants before (?S chosen) (rest, unmet) = (ready', unmet')"
      "length unmet' = length events" "sorted_wrt before ready'"
      "set ready' = set rest \<union> {d \<in> set (?S chosen). unmet_of unmet d = int (count_list (?S chosen) d)}"
      "\<forall>x < length events. unmet_of unmet' x = unmet_of unmet x - int (count_list (?S chosen) x)"
      using release_dependants_sound [OF tot less.prems(2) _ N(2) sorted(1), of "?S chosen"] le
        power_graph.succs_nodes [OF N(1)] by blast
    have "set ready' \<subseteq> ?N" using r(4) N(2) power_graph.succs_nodes [OF N(1)] by auto
    then have dist: "distinct ready'" by (rule sorted_wrt_distinct [OF tot _ r(3)])
    have step: "kahn_state ?N ?S (emitted @ [chosen]) ready' (unmet_of unmet')"
      by (rule power_graph.kahn_step [OF less.prems(1) [unfolded Cons] dist r(4)]) (use r(5) in auto)
    have "before chosen x" if "x \<in> ?N - set (emitted @ [chosen])" "waiting ?N ?S emitted x = 0" for x
      using that st(4) [of x] Cons sorted(2) by auto
    then have greedy: "greedy_order ?N ?S before (emitted @ [chosen])"
      using less.prems(4) by (simp add: greedy_order_snoc)
    have small: "length ready' + length (filter (\<lambda>u. 0 < u) unmet') <
        length ready + length (filter (\<lambda>u. 0 < u) unmet)"
      using release_dependants_measure [of before "?S chosen" rest unmet] r(1) Cons by simp
    have eq: "power_sort_loop before (fst (dependency_tables events)) ready unmet emitted =
        power_sort_loop before (fst (dependency_tables events)) ready' unmet' (emitted @ [chosen])"
      using r(1) Cons by (simp add: dependants_of_def)
    show ?thesis
      unfolding eq by (rule less.hyps [OF small step r(2,3) greedy])
  qed
qed

section \<open>What the power ordering promises\<close>

definition auth_before_citing :: "state_event_reference list \<Rightarrow> bool" where
  "auth_before_citing out \<longleftrightarrow>
     (\<forall>j < length out. \<forall>k < length out.
        ref_event_id (out ! j) \<in> set (event_auth_ids (ref_event_json (out ! k))) \<longrightarrow> j < k)"

text \<open>
  Position \<open>k\<close> holds the first, by rank, of the later events whose auth events in the list all come before
  position \<open>k\<close>.
\<close>

definition smallest_ready_first ::
    "(state_event_reference \<Rightarrow> 'r::linorder) \<Rightarrow> state_event_reference list \<Rightarrow> bool" where
  "smallest_ready_first rank out \<longleftrightarrow>
     (\<forall>k < length out. \<forall>j < length out. k < j \<longrightarrow>
        (\<forall>i < length out. ref_event_id (out ! i) \<in> set (event_auth_ids (ref_event_json (out ! j))) \<longrightarrow> i < k) \<longrightarrow>
        ranked_before rank (out ! k) (out ! j))"

definition power_ordered ::
    "(state_event_reference \<Rightarrow> 'r::linorder) \<Rightarrow> state_event_reference list \<Rightarrow> bool" where
  "power_ordered rank out \<longleftrightarrow> auth_before_citing out \<and> smallest_ready_first rank out"

lemma power_ordered_step:
  assumes xs: "power_ordered rank xs" and ys: "power_ordered rank ys"
    and eq: "set xs = set ys" "distinct xs" "distinct ys"
    and k: "k < length xs" "\<forall>i < k. xs ! i = ys ! i" "xs ! k \<noteq> ys ! k"
  shows "ranked_before rank (ys ! k) (xs ! k)"
proof -
  have len: "length xs = length ys" using eq by (metis distinct_card)
  obtain j where j: "j < length ys" "ys ! j = xs ! k"
    using eq(1) k(1) by (metis in_set_conv_nth)
  have "\<not> j < k" using j k(1,2) eq(2) len by (metis less_imp_not_eq nth_eq_iff_index_eq)
  moreover have "j \<noteq> k" using j(2) k(3) by metis
  ultimately have kj: "k < j" by simp
  have "i < k" if i: "i < length ys" "ref_event_id (ys ! i) \<in> set (event_auth_ids (ref_event_json (ys ! j)))" for i
  proof -
    obtain i' where i': "i' < length xs" "xs ! i' = ys ! i"
      using eq(1) i(1) by (metis in_set_conv_nth)
    have "i' < k"
      using xs i i' j(2) k(1) unfolding power_ordered_def auth_before_citing_def by metis
    then have "ys ! i' = ys ! i" using k(2) i'(2) by simp
    then show ?thesis using \<open>i' < k\<close> i' i(1) eq(3) len by (simp add: nth_eq_iff_index_eq)
  qed
  then show ?thesis
    using ys kj j unfolding power_ordered_def smallest_ready_first_def by (metis order.strict_trans)
qed

lemma power_ordered_unique:
  assumes "power_ordered rank xs" "power_ordered rank ys" "set xs = set ys" "distinct xs" "distinct ys"
  shows "xs = ys"
proof (rule nth_equalityI)
  show len: "length xs = length ys" using assms(3-5) by (metis distinct_card)
  have "i < length xs \<longrightarrow> xs ! i = ys ! i" for i
  proof (induction i rule: less_induct)
    case (less i)
    show ?case
    proof (rule impI, rule ccontr)
      assume i: "i < length xs" "xs ! i \<noteq> ys ! i"
      then have agree: "\<forall>j < i. xs ! j = ys ! j" "\<forall>j < i. ys ! j = xs ! j" using less by auto
      have "ranked_before rank (ys ! i) (xs ! i)"
        by (rule power_ordered_step [OF assms i(1) agree(1) i(2)])
      moreover have "ranked_before rank (xs ! i) (ys ! i)"
        using power_ordered_step [OF assms(2,1) assms(3) [symmetric] assms(5,4) _ agree(2)] i len by metis
      ultimately show False by (auto simp: ranked_before_def split: if_splits)
    qed
  qed
  then show "xs ! i = ys ! i" if "i < length xs" for i using that by blast
qed

lemma greedy_power_ordered:
  fixes events :: "state_event_reference list"
  defines "N \<equiv> {..<length events}" and "S \<equiv> dependants_of events"
  assumes ids: "distinct (map ref_event_id events)"
    and emitted: "distinct emitted" "set emitted = N" "in_topological_order N S emitted"
    and greedy: "greedy_order N S (\<lambda>x y. ranked_before rank (events ! x) (events ! y)) emitted"
  shows "power_ordered rank (map (\<lambda>i. events ! i) emitted)"
proof -
  have cite: "(emitted ! i, emitted ! j) \<in> graph_edges N S \<longleftrightarrow>
      ref_event_id (events ! (emitted ! i)) \<in> set (event_auth_ids (ref_event_json (events ! (emitted ! j))))"
    if "i < length emitted" "j < length emitted" for i j
    using that emitted(2) power_graph_edge [OF ids] nth_mem unfolding N_def S_def by blast
  have first: "i < k" if "emitted ! i \<in> set (take k emitted)" "i < length emitted" for i k
    using that emitted(1) by (auto simp: in_set_conv_nth nth_eq_iff_index_eq)
  have "auth_before_citing (map (\<lambda>i. events ! i) emitted)"
    unfolding auth_before_citing_def
    using cite first emitted(3) by (auto simp: in_topological_order_def)
  moreover have "smallest_ready_first rank (map (\<lambda>i. events ! i) emitted)"
    unfolding smallest_ready_first_def
  proof (intro allI impI)
    fix k j
    assume k: "k < length (map (\<lambda>i. events ! i) emitted)" and j: "j < length (map (\<lambda>i. events ! i) emitted)"
      and kj: "k < j"
      and before: "\<forall>i < length (map (\<lambda>i. events ! i) emitted).
        ref_event_id (map (\<lambda>i. events ! i) emitted ! i) \<in>
          set (event_auth_ids (ref_event_json (map (\<lambda>i. events ! i) emitted ! j))) \<longrightarrow> i < k"
    have "m \<in> set (take k emitted)" if m: "(m, emitted ! j) \<in> graph_edges N S" for m
    proof -
      have "m \<in> set emitted" using m emitted(2) by (simp add: graph_edges_def)
      then obtain i where i: "i < length emitted" "emitted ! i = m" by (auto simp: in_set_conv_nth)
      then have "i < k" using before m cite j by auto
      then show ?thesis using i k by (auto simp: in_set_conv_nth)
    qed
    then have "waiting N S (take k emitted) (emitted ! j) = 0"
      unfolding N_def S_def power_graph.waiting_eq_0 by blast
    moreover have "emitted ! j \<in> N - set (take (Suc k) emitted)"
      using first [of j "Suc k"] j kj emitted(2) by auto
    ultimately show "ranked_before rank (map (\<lambda>i. events ! i) emitted ! k) (map (\<lambda>i. events ! i) emitted ! j)"
      using greedy k j by (simp add: greedy_order_def)
  qed
  ultimately show ?thesis by (simp add: power_ordered_def)
qed

lemma fold_ordered_insert:
  assumes "strict_total_on A lt" "set xs \<subseteq> A" "set ys \<subseteq> A" "sorted_wrt lt ys"
  shows "set (fold (ordered_insert lt) xs ys) = set xs \<union> set ys \<and> sorted_wrt lt (fold (ordered_insert lt) xs ys)"
  using assms(2-)
proof (induction xs arbitrary: ys)
  case (Cons x xs)
  then show ?case
    using ordered_insert_set [OF assms(1), of x ys] ordered_insert_sorted [OF assms(1), of x ys] by auto
qed simp

lemma greedy_order_cong:
  assumes "greedy_order nodes succs before xs" "set xs \<subseteq> nodes"
    and "\<And>x y. x \<in> nodes \<Longrightarrow> y \<in> nodes \<Longrightarrow> before x y \<Longrightarrow> before' x y"
  shows "greedy_order nodes succs before' xs"
  using assms nth_mem unfolding greedy_order_def by (metis Diff_iff subsetD)

text \<open>The loop of the sort as the definition runs it.\<close>

definition power_sort_run :: "(nat \<Rightarrow> nat \<Rightarrow> bool) \<Rightarrow> state_event_reference list \<Rightarrow> nat list" where
  "power_sort_run before events =
     power_sort_loop before (fst (dependency_tables events))
       (fold (ordered_insert before)
         (filter (\<lambda>i. snd (dependency_tables events) ! i = 0) [0..<length events]) [])
       (snd (dependency_tables events)) []"

lemma precedes_total:
  assumes "distinct (map ref_event_id events)"
  shows "strict_total_on {..<length events} (precedes events powers)"
proof -
  have "inj_on ref_event_id (set events)" using assms by (simp add: distinct_map)
  note tot = strict_total_onD [OF ranked_before_total [OF this, of "\<lambda>e. the (map_of powers (ref_event_id e))"]]
  have inj: "events ! x \<noteq> events ! y" if "x \<noteq> y" "x < length events" "y < length events" for x y
    using that assms by (simp add: distinct_map nth_eq_iff_index_eq)
  show ?thesis
    unfolding strict_total_on_def precedes_ranked
  proof (intro conjI ballI impI)
    fix x y z
    assume x: "x \<in> {..<length events}"
    then show "\<not> ranked_before (\<lambda>e. the (map_of powers (ref_event_id e))) (events ! x) (events ! x)"
      using tot(1) by simp
    assume y: "y \<in> {..<length events}"
    show "ranked_before (\<lambda>e. the (map_of powers (ref_event_id e))) (events ! x) (events ! y) \<or>
        ranked_before (\<lambda>e. the (map_of powers (ref_event_id e))) (events ! y) (events ! x)" if "x \<noteq> y"
      using tot(3) inj [OF that] x y by simp
    assume z: "z \<in> {..<length events}"
    show "ranked_before (\<lambda>e. the (map_of powers (ref_event_id e))) (events ! x) (events ! z)"
      if "ranked_before (\<lambda>e. the (map_of powers (ref_event_id e))) (events ! x) (events ! y)"
        "ranked_before (\<lambda>e. the (map_of powers (ref_event_id e))) (events ! y) (events ! z)"
      using tot(2) [of "events ! x" "events ! y" "events ! z"] that x y z by simp
  qed
qed

lemma power_sort_run_sound:
  assumes "strict_total_on {..<length events} before"
  shows "\<exists>degree. kahn_state {..<length events} (dependants_of events) (power_sort_run before events) [] degree"
    and "greedy_order {..<length events} (dependants_of events) before (power_sort_run before events)"
proof -
  let ?N = "{..<length events}" and ?u = "snd (dependency_tables events)"
  let ?zero = "filter (\<lambda>i. ?u ! i = 0) [0..<length events]"
  let ?ready = "fold (ordered_insert before) ?zero []"
  have ready: "set ?ready = set ?zero" "sorted_wrt before ?ready"
    using fold_ordered_insert [OF assms, of ?zero "[]"] by (auto simp: set_eq_iff)
  have len: "length ?u = length events" by (rule dependency_tables_eq(2))
  have unmet: "unmet_of ?u n = int (waiting ?N (dependants_of events) [] n)" if "n \<in> ?N" for n
    using waiting_start [of n events] that len by (simp add: unmet_of_def)
  have "kahn_state ?N (dependants_of events) [] ?ready (unmet_of ?u)"
  proof (rule power_graph.kahn_init)
    show "distinct ?ready" by (rule sorted_wrt_distinct [OF assms _ ready(2)]) (auto simp: ready(1))
    show "set ?ready = {n \<in> ?N. unmet_of ?u n = 0}"
      unfolding ready(1) using len by (auto simp: unmet_of_def)
  qed (rule unmet)
  then have run: "\<exists>degree. kahn_state ?N (dependants_of events) (power_sort_run before events) [] degree \<and>
      greedy_order ?N (dependants_of events) before (power_sort_run before events)"
    unfolding power_sort_run_def
    by (rule power_sort_loop_sound [OF assms _ len ready(2)]) (simp add: greedy_order_def)
  then show "\<exists>degree. kahn_state ?N (dependants_of events) (power_sort_run before events) [] degree"
    and "greedy_order ?N (dependants_of events) before (power_sort_run before events)" by blast+
qed

abbreviation sort_source ::
    "event_json_index \<Rightarrow> event_lookup_fn \<Rightarrow> state_resolution_limits \<Rightarrow> auth_chain_event_source" where
  "sort_source known lookup limits \<equiv> new_event_source known lookup (limit_auth_chain_walk_events limits) []"

lemma reverse_topological_power_sort_eq:
  "reverse_topological_power_sort events known lookup policy limits =
     (if limit_conflicted_state_keys limits < length events then None
      else case fst (powers_by_id events (sort_source known lookup limits) policy []) of
        None \<Rightarrow> None
      | Some powers \<Rightarrow>
          if distinct (map ref_event_id events) \<and>
             length (power_sort_run (precedes events powers) events) = length events
          then Some (map (\<lambda>i. events ! i) (power_sort_run (precedes events powers) events))
          else None)"
proof (cases "distinct (map ref_event_id events)")
  case True
  then obtain index where i: "index_by_id events 0 [] = Some index"
    using index_by_id_complete [of "[]" events 0] by auto
  then have "index = event_index events" by (rule index_by_id_start(1))
  then show ?thesis
    using True i
    by (simp add: reverse_topological_power_sort_def power_sort_run_def dependency_tables_def Let_def
        split: prod.splits option.splits)
next
  case False
  then have "index_by_id events 0 [] = None"
    using index_by_id_start(2) [of events] by (cases "index_by_id events 0 []") auto
  then show ?thesis
    using False by (auto simp: reverse_topological_power_sort_def split: prod.splits option.splits)
qed

lemma reverse_topological_power_sort_sound:
  assumes "reverse_topological_power_sort events known lookup policy limits = Some out"
  shows "mset out = mset events" "distinct (map ref_event_id events)"
    "power_ordered (sender_power (source_event (sort_source known lookup limits)) policy) out"
proof -
  let ?src = "sort_source known lookup limits"
  let ?rank = "sender_power (source_event ?src) policy"
  obtain powers s where p: "powers_by_id events ?src policy [] = (Some powers, s)"
    and ids: "distinct (map ref_event_id events)"
    and len: "length (power_sort_run (precedes events powers) events) = length events"
    and out: "out = map (\<lambda>i. events ! i) (power_sort_run (precedes events powers) events)"
    using assms by (auto simp: reverse_topological_power_sort_eq split: if_splits option.splits)
      (metis prod.collapse)
  let ?run = "power_sort_run (precedes events powers) events"
  note run = power_sort_run_sound [OF precedes_total [OF ids, of powers]]
  obtain degree where k: "kahn_state {..<length events} (dependants_of events) ?run [] degree"
    using run(1) by blast
  have e: "distinct ?run" "set ?run = {..<length events}"
    "in_topological_order {..<length events} (dependants_of events) ?run"
    using power_graph.kahn_emitted [OF k] len by simp_all
  have pw: "\<forall>ev \<in> set events. map_of powers (ref_event_id ev) = Some (?rank ev)"
    using powers_by_id_sound [OF p new_event_source_ok ids] by simp
  have "greedy_order {..<length events} (dependants_of events)
      (\<lambda>x y. ranked_before ?rank (events ! x) (events ! y)) ?run"
  proof (rule greedy_order_cong [OF run(2)])
    show "ranked_before ?rank (events ! x) (events ! y)"
      if "x \<in> {..<length events}" "y \<in> {..<length events}" "precedes events powers x y" for x y
      using that pw unfolding precedes_ranked by (subst ranked_before_cong) auto
  qed (simp add: e(2))
  then show "power_ordered ?rank out"
    unfolding out by (rule greedy_power_ordered [OF ids e])
  show "distinct (map ref_event_id events)" by (fact ids)
  have "mset ?run = mset [0..<length events]"
    using mset_set_set [OF e(1)] mset_set_set [of "[0..<length events]"] e(2) by (simp add: atLeast0LessThan)
  then have "mset out = mset (map (\<lambda>i. events ! i) [0..<length events])"
    unfolding out by (metis mset_map)
  then show "mset out = mset events" by (simp add: map_nth)
qed


text \<open>Which event of the list cites which.\<close>

definition citing :: "state_event_reference list \<Rightarrow> (byte_string \<times> byte_string) set" where
  "citing events =
     {(ref_event_id a, ref_event_id b) | a b.
        a \<in> set events \<and> b \<in> set events \<and> ref_event_id a \<in> set (event_auth_ids (ref_event_json b))}"

lemma acyclic_inv_image: "acyclic r \<Longrightarrow> acyclic (inv_image r f)"
proof (unfold acyclic_def, intro allI notI)
  fix x
  assume r: "\<forall>x. (x, x) \<notin> r\<^sup>+" and "(x, x) \<in> (inv_image r f)\<^sup>+"
  have "(a, b) \<in> (inv_image r f)\<^sup>+ \<Longrightarrow> (f a, f b) \<in> r\<^sup>+" for a b
    by (induction rule: trancl_induct) (auto intro: trancl_into_trancl)
  then show False using r \<open>(x, x) \<in> (inv_image r f)\<^sup>+\<close> by blast
qed

lemma citing_acyclic_iff:
  assumes ids: "distinct (map ref_event_id events)"
  shows "acyclic (graph_edges {..<length events} (dependants_of events)) \<longleftrightarrow> acyclic (citing events)"
proof
  let ?G = "graph_edges {..<length events} (dependants_of events)"
  have edge: "(j, k) \<in> ?G \<longleftrightarrow> j < length events \<and> k < length events \<and>
      ref_event_id (events ! j) \<in> set (event_auth_ids (ref_event_json (events ! k)))" for j k
    by (rule power_graph_edge [OF ids])
  define pos where "pos eid = (the (map_of (event_index events) eid))" for eid
  have pos: "pos (ref_event_id (events ! j)) = j" if "j < length events" for j
    using that map_of_event_index [OF ids, of "ref_event_id (events ! j)" j] by (simp add: pos_def)
  show "acyclic (citing events)" if "acyclic ?G"
  proof (rule acyclic_subset [OF acyclic_inv_image [OF that]])
    show "citing events \<subseteq> inv_image ?G pos"
      unfolding citing_def in_inv_image edge using pos by (auto simp: in_set_conv_nth edge)
  qed
  show "acyclic ?G" if "acyclic (citing events)"
  proof (rule acyclic_subset [OF acyclic_inv_image [OF that, of "\<lambda>i. ref_event_id (events ! i)"]])
    show "?G \<subseteq> inv_image (citing events) (\<lambda>i. ref_event_id (events ! i))"
    proof (clarify)
      fix j k
      assume "(j, k) \<in> ?G"
      then have "events ! j \<in> set events" "events ! k \<in> set events"
        "ref_event_id (events ! j) \<in> set (event_auth_ids (ref_event_json (events ! k)))"
        by (simp_all add: edge)
      then show "(j, k) \<in> inv_image (citing events) (\<lambda>i. ref_event_id (events ! i))"
        unfolding citing_def in_inv_image by blast
    qed
  qed
qed

lemma power_sort_run_complete_iff:
  assumes ids: "distinct (map ref_event_id events)"
  shows "length (power_sort_run (precedes events powers) events) = length events \<longleftrightarrow> acyclic (citing events)"
proof -
  obtain degree where k: "kahn_state {..<length events} (dependants_of events)
      (power_sort_run (precedes events powers) events) [] degree"
    using power_sort_run_sound(1) [OF precedes_total [OF ids, of powers]] by blast
  show ?thesis
    using power_graph.kahn_complete_iff [OF k] citing_acyclic_iff [OF ids] by simp
qed

section \<open>The mainline\<close>

text \<open>The power levels event an event cites, read from a total lookup.\<close>

definition cites_power_levels :: "(byte_string \<Rightarrow> json option) \<Rightarrow> byte_string \<Rightarrow> bool" where
  "cites_power_levels ev eid \<longleftrightarrow>
     (case ev eid of Some (JObject obj) \<Rightarrow> string_member obj ''type'' = Some ''m.room.power_levels'' | _ \<Rightarrow> False)"

definition power_levels_parent :: "(byte_string \<Rightarrow> json option) \<Rightarrow> json_object \<Rightarrow> byte_string option" where
  "power_levels_parent ev obj =
     (case filter (cites_power_levels ev) (event_auth_ids (JObject obj)) of [] \<Rightarrow> None | eid # _ \<Rightarrow> Some eid)"

text \<open>A mainline: each entry is the power levels event the previous one cites, and the last cites none.\<close>

inductive mainline_from ::
    "(byte_string \<Rightarrow> json option) \<Rightarrow> byte_string \<Rightarrow> json_object \<Rightarrow> byte_string list \<Rightarrow> bool"
  for ev :: "byte_string \<Rightarrow> json option" where
  mainline_end: "power_levels_parent ev obj = None \<Longrightarrow> mainline_from ev eid obj [eid]"
| mainline_next: "power_levels_parent ev obj = Some parent \<Longrightarrow> ev parent = Some (JObject obj') \<Longrightarrow>
     mainline_from ev parent obj' rest \<Longrightarrow> mainline_from ev eid obj (eid # rest)"

text \<open>The position an event has: that of the first power levels ancestor on the mainline.\<close>

inductive mainline_at ::
    "(byte_string \<Rightarrow> json option) \<Rightarrow> byte_string list \<Rightarrow> json_object \<Rightarrow> nat \<Rightarrow> bool"
  for ev :: "byte_string \<Rightarrow> json option" and mainline :: "byte_string list" where
  at_none: "power_levels_parent ev obj = None \<Longrightarrow> mainline_at ev mainline obj mainline_infinity"
| at_hit: "power_levels_parent ev obj = Some parent \<Longrightarrow>
     map_of (zip mainline [0..<length mainline]) parent = Some p \<Longrightarrow> mainline_at ev mainline obj p"
| at_step: "power_levels_parent ev obj = Some parent \<Longrightarrow>
     parent \<notin> set mainline \<Longrightarrow> ev parent = Some (JObject obj') \<Longrightarrow>
     mainline_at ev mainline obj' p \<Longrightarrow> mainline_at ev mainline obj p"

inductive_cases mainline_fromE: "mainline_from ev eid obj xs"
inductive_cases mainline_atE: "mainline_at ev mainline obj p"

lemma mainline_hit: "map_of (zip mainline [0..<length mainline]) eid = Some p \<Longrightarrow> eid \<in> set mainline"
  by (auto dest!: map_of_SomeD set_zip_leftD)

lemma mainline_at_deterministic:
  "mainline_at ev mainline obj p \<Longrightarrow> mainline_at ev mainline obj q \<Longrightarrow> p = q"
proof (induction arbitrary: q rule: mainline_at.induct)
  case (at_none obj)
  then show ?case by (auto elim: mainline_atE)
next
  case (at_hit obj parent p)
  from at_hit.prems show ?case by (rule mainline_atE) (use at_hit.hyps in \<open>auto dest: mainline_hit\<close>)
next
  case step: (at_step obj parent obj' p)
  from step.prems show ?case
  proof (cases rule: mainline_at.cases)
    case at_none
    then show ?thesis using step.hyps by simp
  next
    case (at_hit parent')
    then show ?thesis using step.hyps mainline_hit [of mainline parent'] by simp
  next
    case (at_step parent' obj'')
    then have "obj'' = obj'" using step.hyps by simp
    then show ?thesis using at_step(4) step.IH by simp
  qed
qed

lemma mainline_from_deterministic:
  "mainline_from ev eid obj xs \<Longrightarrow> mainline_from ev eid obj ys \<Longrightarrow> xs = ys"
proof (induction arbitrary: ys rule: mainline_from.induct)
  case (mainline_end obj eid)
  then show ?case by (auto elim: mainline_fromE)
next
  case step: (mainline_next obj parent obj' rest eid)
  from step.prems show ?case
  proof (cases rule: mainline_from.cases)
    case mainline_end
    then show ?thesis using step.hyps by simp
  next
    case (mainline_next parent' obj'' rest')
    then have "parent' = parent" "obj'' = obj'" using step.hyps by simp_all
    then show ?thesis using mainline_next step.IH by simp
  qed
qed

lemma power_levels_entries_reads: "power_levels_entries auth found src = (r, src') \<Longrightarrow> reads src src'"
proof (induction auth arbitrary: found src)
  case (Cons entry auth)
  show ?case
  proof (cases "auth_entry_event_id entry = None \<or> auth_entry_event_id entry = Some []")
    case True
    then show ?thesis using Cons.prems by auto
  next
    case False
    then obtain eid where eid: "auth_entry_event_id entry = Some eid" "eid \<noteq> []" by auto
    obtain x s where f: "find_required src eid = (x, s)" by force
    have rd: "reads src s" by (rule find_required_reads [OF f])
    have IH: "power_levels_entries auth found' s = (r, src') \<Longrightarrow> reads src src'" for found'
      using Cons.IH rd by (blast intro: reads_trans)
    show ?thesis
      using Cons.prems eid f rd IH by (auto split: option.splits if_splits)
  qed
qed simp

lemma power_levels_entries_found:
  "power_levels_entries auth (Some eid) src = (Some r, src') \<Longrightarrow> r = Some eid"
  by (induction auth arbitrary: src) (auto split: option.splits if_splits prod.splits)

lemma power_levels_entries_sound:
  assumes "power_levels_entries auth found src = (Some r, src')" "source_ok src"
  shows "r = (case filter (cites_power_levels (source_event src)) (List.map_filter auth_entry_event_id auth) of
      [] \<Rightarrow> found | eid # _ \<Rightarrow> Some eid)"
  using assms
proof (induction auth arbitrary: found src)
  case (Cons entry auth)
  obtain eid where eid: "auth_entry_event_id entry = Some eid" "eid \<noteq> []"
    using Cons.prems(1) by (auto split: option.splits if_splits)
  obtain v s where f: "find_required src eid = (Some v, s)"
    using Cons.prems(1) eid by (auto split: option.splits prod.splits)
  obtain obj ty key where o: "v = JObject obj" "string_member obj ''type'' = Some ty"
    "string_member obj ''state_key'' = Some key"
    using Cons.prems(1) eid f by (auto simp: value_is_object_def split: option.splits json.splits)
  have rd: "reads src s" by (rule find_required_reads [OF f])
  have ok: "source_ok s" by (rule reads_ok [OF rd Cons.prems(2)])
  have ev: "source_event src eid = Some (JObject obj)"
    using find_required_event [OF f Cons.prems(2)] o(1) by simp
  show ?case
  proof (cases "ty = ''m.room.power_levels''")
    case True
    then have none: "found = None" and rest: "power_levels_entries auth (Some eid) s = (Some r, src')"
      using Cons.prems(1) eid f o by (auto simp: value_is_object_def split: if_splits)
    have cite: "cites_power_levels (source_event src) eid" using ev o(2) True by (simp add: cites_power_levels_def)
    have "r = Some eid" by (rule power_levels_entries_found [OF rest])
    then show ?thesis using eid cite by simp
  next
    case False
    then have rest: "power_levels_entries auth found s = (Some r, src')"
      using Cons.prems(1) eid f o by (auto simp: value_is_object_def)
    have "\<not> cites_power_levels (source_event src) eid"
      using ev o(2) False by (simp add: cites_power_levels_def)
    then show ?thesis
      using Cons.IH [OF rest ok] eid rd by simp
  qed
qed simp

lemma power_levels_auth_ancestor_reads:
  "power_levels_auth_ancestor obj src = (r, src') \<Longrightarrow> reads src src'"
  by (auto simp: power_levels_auth_ancestor_def split: option.splits if_splits
      dest!: power_levels_entries_reads)

lemma power_levels_auth_ancestor_sound:
  assumes "power_levels_auth_ancestor obj src = (Some r, src')" "source_ok src"
  shows "power_levels_parent (source_event src) obj = r"
proof -
  obtain auth where "array_member obj ''auth_events'' = Some auth"
    "power_levels_entries auth None src = (Some r, src')"
    using assms(1) by (auto simp: power_levels_auth_ancestor_def split: option.splits if_splits)
  then show ?thesis
    using power_levels_entries_sound [OF _ assms(2)]
    by (simp add: power_levels_parent_def event_auth_ids_def value_is_object_def split: list.splits)
qed

lemma as_power_levels_Some:
  assumes "as_power_levels event = Some obj"
  shows "event = Some (JObject obj)"
  using assms by (auto simp: as_power_levels_def value_is_object_def split: option.splits json.splits if_splits)

lemma mainline_walk_stop:
  "n \<le> length result \<or> eid \<in> set result \<Longrightarrow> mainline_walk n eid obj result src = (None, src)"
  by (subst mainline_walk.simps) auto

lemma mainline_walk_step:
  "\<not> n \<le> length result \<Longrightarrow> eid \<notin> set result \<Longrightarrow> power_levels_auth_ancestor obj src = (x, s) \<Longrightarrow>
    mainline_walk n eid obj result src =
      (case x of
         None \<Rightarrow> (None, s)
       | Some None \<Rightarrow> (Some (result @ [eid]), s)
       | Some (Some a) \<Rightarrow>
           if length (result @ [eid]) = n then (None, s)
           else (case find_required s a of (event, t) \<Rightarrow>
             (case as_power_levels event of
                None \<Rightarrow> (None, t)
              | Some obj' \<Rightarrow> mainline_walk n a obj' (result @ [eid]) t)))"
  by (subst mainline_walk.simps) (simp split: option.splits)

lemma mainline_walk_reads: "mainline_walk n eid obj result src = (r, src') \<Longrightarrow> reads src src'"
proof (induction n eid obj result src rule: mainline_walk.induct)
  case (1 n eid obj result src)
  show ?case
  proof (cases "n \<le> length result \<or> eid \<in> set result")
    case True
    then show ?thesis using "1.prems" mainline_walk_stop by simp
  next
    case False
    then have g: "\<not> n \<le> length result" "eid \<notin> set result" by simp_all
    obtain x s where p: "power_levels_auth_ancestor obj src = (x, s)" by force
    have rd: "reads src s" by (rule power_levels_auth_ancestor_reads [OF p])
    note step = mainline_walk_step [OF g p]
    show ?thesis
    proof (cases "\<exists>a. x = Some (Some a) \<and> length (result @ [eid]) \<noteq> n")
      case False
      then show ?thesis
        using "1.prems" rd unfolding step by (auto split: option.splits if_splits)
    next
      case True
      then obtain a where a: "x = Some (Some a)" "length (result @ [eid]) \<noteq> n" by blast
      obtain event t where f: "find_required s a = (event, t)" by force
      have rd': "reads src t" using rd find_required_reads [OF f] by (rule reads_trans)
      show ?thesis
      proof (cases "as_power_levels event")
        case None
        then show ?thesis using "1.prems" a f rd' unfolding step by simp
      next
        case (Some obj')
        have "mainline_walk n a obj' (result @ [eid]) t = (r, src')"
          using "1.prems" a f Some unfolding step by simp
        then have "reads t src'"
          using "1.IH" [OF g p [symmetric] a(1) refl a(2) f [symmetric] Some] by simp
        with rd' show ?thesis by (rule reads_trans)
      qed
    qed
  qed
qed

lemma mainline_walk_sound:
  assumes "mainline_walk n eid obj result src = (Some out, src')" "source_ok src"
  shows "\<exists>rest. out = result @ rest \<and> mainline_from (source_event src) eid obj rest"
  using assms
proof (induction n eid obj result src rule: mainline_walk.induct)
  case (1 n eid obj result src)
  have guard: "\<not> n \<le> length result" "eid \<notin> set result"
    using "1.prems"(1) mainline_walk_stop [of n result eid obj src] by auto
  obtain x s where p: "power_levels_auth_ancestor obj src = (x, s)" by force
  have rd: "reads src s" by (rule power_levels_auth_ancestor_reads [OF p])
  obtain parent where x: "x = Some parent"
    using "1.prems"(1) unfolding mainline_walk_step [OF guard p] by (cases x) auto
  have parent: "power_levels_parent (source_event src) obj = parent"
    by (rule power_levels_auth_ancestor_sound [OF p [unfolded x] "1.prems"(2)])
  show ?case
  proof (cases parent)
    case None
    then have "out = result @ [eid]"
      using "1.prems"(1) x unfolding mainline_walk_step [OF guard p] by simp
    then show ?thesis using parent None by (auto intro: mainline_end)
  next
    case (Some a)
    obtain event t where f: "find_required s a = (event, t)" by force
    obtain obj' where l: "length (result @ [eid]) \<noteq> n" "as_power_levels event = Some obj'"
      and w: "mainline_walk n a obj' (result @ [eid]) t = (Some out, src')"
      using "1.prems"(1) x Some f unfolding mainline_walk_step [OF guard p]
      by (auto split: option.splits if_splits)
    have rd': "reads src t" using rd find_required_reads [OF f] by (rule reads_trans)
    have ev: "source_event src a = Some (JObject obj')"
      using find_required_event [of s a "JObject obj'" t] f as_power_levels_Some [OF l(2)] rd
        reads_ok [OF rd "1.prems"(2)] by simp
    obtain rest where "out = (result @ [eid]) @ rest" "mainline_from (source_event t) a obj' rest"
      using "1.IH" [OF guard p [symmetric] x Some l(1) f [symmetric] l(2) w reads_ok [OF rd' "1.prems"(2)]] by blast
    then show ?thesis
      using parent Some ev rd' by (auto intro: mainline_next)
  qed
qed

lemma mainline_position_reads:
  "mainline_position hops depths obj visited src = (r, src') \<Longrightarrow> reads src src'"
proof (induction hops arbitrary: obj visited src)
  case (Suc hops)
  obtain x s where p: "power_levels_auth_ancestor obj src = (x, s)" by force
  have rd: "reads src s" by (rule power_levels_auth_ancestor_reads [OF p])
  show ?case
  proof (cases "\<exists>a. x = Some (Some a)")
    case False
    then show ?thesis using Suc.prems p rd by (auto split: option.splits)
  next
    case True
    then obtain a where a: "x = Some (Some a)" by blast
    obtain event t where f: "find_required s a = (event, t)" by force
    have rd': "reads src t" using rd find_required_reads [OF f] by (rule reads_trans)
    have IH: "reads src src'" if "mainline_position hops depths obj' v t = (r, src')" for obj' v
      using rd' Suc.IH [OF that] by (rule reads_trans)
    show ?thesis
      using Suc.prems p rd a f rd' IH by (auto split: option.splits if_splits)
  qed
qed simp

lemma mainline_miss: "map_of (zip mainline [0..<length mainline]) eid = None \<Longrightarrow> eid \<notin> set mainline"
  by (metis map_of_zip_is_None length_upt minus_nat.diff_0)

lemma mainline_position_sound:
  assumes "mainline_position hops (zip mainline [0..<length mainline]) obj visited src = (Some p, src')"
    "source_ok src"
  shows "mainline_at (source_event src) mainline obj p"
  using assms
proof (induction hops arbitrary: obj visited src)
  case (Suc hops)
  obtain x s where anc: "power_levels_auth_ancestor obj src = (x, s)" by force
  have rd: "reads src s" by (rule power_levels_auth_ancestor_reads [OF anc])
  obtain parent where x: "x = Some parent" using Suc.prems(1) anc by (cases x) auto
  have parent: "power_levels_parent (source_event src) obj = parent"
    by (rule power_levels_auth_ancestor_sound [OF anc [unfolded x] Suc.prems(2)])
  show ?case
  proof (cases parent)
    case None
    then show ?thesis using Suc.prems(1) anc x parent by (auto intro: at_none)
  next
    case (Some a)
    show ?thesis
    proof (cases "map_of (zip mainline [0..<length mainline]) a")
      case hit: (Some q)
      then show ?thesis using Suc.prems(1) anc x Some parent by (auto intro: at_hit)
    next
      case None
      obtain event t where f: "find_required s a = (event, t)" by force
      have rd': "reads src t" using rd find_required_reads [OF f] by (rule reads_trans)
      obtain obj' where l: "as_power_levels event = Some obj'"
        and w: "mainline_position hops (zip mainline [0..<length mainline]) obj' (visited @ [a]) t = (Some p, src')"
        using Suc.prems(1) anc x Some None f by (auto split: option.splits if_splits)
      have ev: "source_event src a = Some (JObject obj')"
        using find_required_event [of s a "JObject obj'" t] f as_power_levels_Some [OF l] rd
          reads_ok [OF rd Suc.prems(2)] by simp
      have "mainline_at (source_event t) mainline obj' p"
        by (rule Suc.IH [OF w reads_ok [OF rd' Suc.prems(2)]])
      then show ?thesis
        using at_step [of "source_event src" obj a mainline obj' p] parent Some mainline_miss [OF None] ev rd'
        by simp
    qed
  qed
qed simp

text \<open>The position an event is ordered by: with no mainline every event is infinitely far from it.\<close>

definition has_position ::
    "(byte_string \<Rightarrow> json option) \<Rightarrow> byte_string list \<Rightarrow> state_event_reference \<Rightarrow> nat \<Rightarrow> bool" where
  "has_position ev mainline event p \<longleftrightarrow>
     (if mainline = [] then p = mainline_infinity
      else \<exists>obj. ref_event_json event = JObject obj \<and> mainline_at ev mainline obj p)"

lemma has_position_deterministic:
  "has_position ev mainline event p \<Longrightarrow> has_position ev mainline event q \<Longrightarrow> p = q"
  by (auto simp: has_position_def dest: mainline_at_deterministic split: if_splits)

lemma mainline_positions_reads:
  "mainline_positions n mainline events positions src = (r, src') \<Longrightarrow> reads src src'"
proof (induction events arbitrary: positions src)
  case (Cons event events)
  show ?case
  proof (cases "mainline = [] \<or> value_is_object (ref_event_json event) = None")
    case True
    then show ?thesis using Cons by (auto split: if_splits)
  next
    case False
    then obtain obj where obj: "mainline \<noteq> []" "value_is_object (ref_event_json event) = Some obj" by auto
    obtain x s where p: "mainline_position n (zip mainline [0..<length mainline]) obj [] src = (x, s)" by force
    have rd: "reads src s" by (rule mainline_position_reads [OF p])
    have IH: "reads src src'" if "mainline_positions n mainline events q s = (r, src')" for q
      using rd Cons.IH [OF that] by (rule reads_trans)
    show ?thesis using Cons.prems obj p rd IH by (auto split: option.splits)
  qed
qed simp

lemma mainline_positions_cons:
  assumes "mainline_positions n mainline (event # events) positions src = (Some out, src')" "source_ok src"
  obtains p s where "has_position (source_event src) mainline event p" "reads src s"
    "mainline_positions n mainline events (map_emplace (ref_event_id event) p positions) s = (Some out, src')"
proof (cases "mainline = []")
  case True
  have "has_position (source_event src) mainline event mainline_infinity"
    by (simp add: has_position_def True)
  moreover have "mainline_positions n mainline events
      (map_emplace (ref_event_id event) mainline_infinity positions) src = (Some out, src')"
    using assms(1) True by simp
  ultimately show ?thesis using that [OF _ reads_refl] by simp
next
  case False
  obtain obj where obj: "value_is_object (ref_event_json event) = Some obj"
    using assms(1) False by (cases "value_is_object (ref_event_json event)") simp_all
  obtain x s where xs: "mainline_position n (zip mainline [0..<length mainline]) obj [] src = (x, s)"
    by (cases "mainline_position n (zip mainline [0..<length mainline]) obj [] src")
  obtain p where x: "x = Some p"
    using assms(1) False obj xs by (cases x) simp_all
  note p = xs [unfolded x]
  have rest: "mainline_positions n mainline events (map_emplace (ref_event_id event) p positions) s = (Some out, src')"
    using assms(1) False obj p by simp
  have "ref_event_json event = JObject obj"
    using obj by (auto simp: value_is_object_def split: json.splits)
  then have "has_position (source_event src) mainline event p"
    using mainline_position_sound [OF p assms(2)] False by (simp add: has_position_def)
  then show ?thesis using mainline_position_reads [OF p] rest by (rule that)
qed

lemma mainline_positions_sound:
  assumes "mainline_positions n mainline events positions src = (Some out, src')" "source_ok src"
    "distinct (map ref_event_id events)" "ref_event_id ` set events \<inter> dom (map_of positions) = {}"
  shows "(\<forall>eid p. map_of positions eid = Some p \<longrightarrow> map_of out eid = Some p) \<and>
    (\<forall>event \<in> set events. \<exists>p. map_of out (ref_event_id event) = Some p \<and>
       has_position (source_event src) mainline event p)"
  using assms
proof (induction events arbitrary: positions src)
  case (Cons event events)
  obtain p s where p: "has_position (source_event src) mainline event p" and rd: "reads src s"
    and rest: "mainline_positions n mainline events (map_emplace (ref_event_id event) p positions) s = (Some out, src')"
    by (rule mainline_positions_cons [OF Cons.prems(1,2)])
  have new: "map_of positions (ref_event_id event) = None"
    using Cons.prems(4) by (auto simp: domIff)
  have at: "map_of (map_emplace (ref_event_id event) p positions) =
      (map_of positions)(ref_event_id event \<mapsto> p)"
    using new by (simp add: domIff)
  have ids: "distinct (map ref_event_id events)"
    "ref_event_id ` set events \<inter> dom (map_of (map_emplace (ref_event_id event) p positions)) = {}"
    using Cons.prems(3,4) unfolding at by auto
  have IH: "\<forall>eid q. map_of (map_emplace (ref_event_id event) p positions) eid = Some q \<longrightarrow> map_of out eid = Some q"
    "\<forall>e \<in> set events. \<exists>q. map_of out (ref_event_id e) = Some q \<and> has_position (source_event src) mainline e q"
    using Cons.IH [OF rest reads_ok [OF rd Cons.prems(2)] ids] rd by simp_all
  have "map_of out (ref_event_id event) = Some p" using IH(1) unfolding at by simp
  moreover have "map_of out eid = Some q" if "map_of positions eid = Some q" for eid q
    using IH(1) that new unfolding at by (cases "eid = ref_event_id event") simp_all
  ultimately show ?case using p IH(2) by simp
qed simp

text \<open>The mainline of a state: empty when it has no power levels event to start from.\<close>

definition mainline_of :: "(byte_string \<Rightarrow> json option) \<Rightarrow> state_map \<Rightarrow> byte_string list \<Rightarrow> bool" where
  "mainline_of ev resolved mainline \<longleftrightarrow>
     (case map_of resolved (state_key_of ''m.room.power_levels'' '''') of
        None \<Rightarrow> mainline = []
      | Some head \<Rightarrow>
          if value_has_content (ref_event_json head)
          then \<exists>obj. ref_event_json head = JObject obj \<and> mainline_from ev (ref_event_id head) obj mainline
          else mainline = [])"

lemma mainline_of_deterministic:
  "mainline_of ev resolved xs \<Longrightarrow> mainline_of ev resolved ys \<Longrightarrow> xs = ys"
  by (auto simp: mainline_of_def dest: mainline_from_deterministic split: option.splits if_splits)

lemma collect_mainline_reads: "collect_mainline resolved src n = (r, s) \<Longrightarrow> reads src s"
  by (auto simp: collect_mainline_def collect_mainline_power_events_def
      split: option.splits if_splits dest: mainline_walk_reads)

lemma collect_mainline_sound:
  assumes "collect_mainline resolved src n = (Some mainline, s)" "source_ok src"
  shows "mainline_of (source_event src) resolved mainline"
proof (cases "map_of resolved (state_key_of ''m.room.power_levels'' '''')")
  case None
  then show ?thesis using assms(1) by (simp add: collect_mainline_def mainline_of_def)
next
  case (Some head)
  show ?thesis
  proof (cases "value_has_content (ref_event_json head)")
    case False
    then show ?thesis using assms(1) Some by (simp add: collect_mainline_def mainline_of_def)
  next
    case True
    then obtain obj where obj: "ref_event_json head = JObject obj"
      and w: "mainline_walk n (ref_event_id head) obj [] src = (Some mainline, s)"
      using assms(1) Some
      by (auto simp: collect_mainline_def collect_mainline_power_events_def value_is_object_def
          split: option.splits if_splits json.splits)
    then show ?thesis
      using mainline_walk_sound [OF w assms(2)] Some True by (simp add: mainline_of_def)
  qed
qed

lemma mainline_order_with_source_reads:
  assumes "mainline_order_with_source events resolved src limits = (ok, out, src')"
  shows "reads src src' \<and> mset out = mset events"
proof -
  obtain x s where c: "collect_mainline resolved src (limit_mainline_auth_chain_depth limits) = (x, s)" by force
  have rd: "reads src s" by (rule collect_mainline_reads [OF c])
  show ?thesis
  proof (cases x)
    case None
    then show ?thesis using assms c rd by (simp add: mainline_order_with_source_def)
  next
    case (Some mainline)
    obtain y t where p: "mainline_positions (limit_mainline_auth_chain_depth limits) mainline events [] s = (y, t)"
      by force
    have "reads src t" using rd mainline_positions_reads [OF p] by (rule reads_trans)
    then show ?thesis using assms c p Some by (cases y) (auto simp: mainline_order_with_source_def)
  qed
qed

lemma mainline_order_sound:
  assumes "mainline_order_with_source events resolved src limits = (True, out, src')" "source_ok src"
    "distinct (map ref_event_id events)"
  obtains mainline position where "mainline_of (source_event src) resolved mainline"
    "\<forall>e \<in> set events. has_position (source_event src) mainline e (position e)"
    "sorted_wrt (ranked_before position) out"
proof -
  obtain x s where c: "collect_mainline resolved src (limit_mainline_auth_chain_depth limits) = (x, s)" by force
  obtain mainline where x: "x = Some mainline"
    using assms(1) c by (cases x) (simp_all add: mainline_order_with_source_def)
  have rd: "reads src s" by (rule collect_mainline_reads [OF c])
  obtain y t where p: "mainline_positions (limit_mainline_auth_chain_depth limits) mainline events [] s = (y, t)"
    by force
  obtain positions where y: "y = Some positions"
    using assms(1) c x p by (cases y) (simp_all add: mainline_order_with_source_def)
  have out: "out = stable_sort (mainline_before positions) events"
    using assms(1) c x p y by (simp add: mainline_order_with_source_def)
  have at: "\<forall>e \<in> set events. \<exists>q. map_of positions (ref_event_id e) = Some q \<and>
      has_position (source_event src) mainline e q"
    using mainline_positions_sound [OF p [unfolded y] reads_ok [OF rd assms(2)] assms(3)] rd by simp
  have inj: "inj_on ref_event_id (set events)" "distinct events"
    using assms(3) by (simp_all add: distinct_map)
  let ?position = "\<lambda>e. the (map_of positions (ref_event_id e))"
  have "sorted_wrt (ranked_before ?position) out"
    unfolding out mainline_before_ranked by (rule stable_sort_sorted [OF ranked_before_total [OF inj(1)] inj(2)])
  moreover have "\<forall>e \<in> set events. has_position (source_event src) mainline e (?position e)"
  proof
    fix e assume "e \<in> set events"
    then obtain q where "map_of positions (ref_event_id e) = Some q" "has_position (source_event src) mainline e q"
      using at by blast
    then show "has_position (source_event src) mainline e (?position e)" by simp
  qed
  ultimately show ?thesis
    using that [OF collect_mainline_sound [OF c [unfolded x] assms(2)], of ?position] by simp
qed

text \<open>The order depends on the events, the state and what the lookups answer, not on how the events arrived.\<close>

lemma mainline_order_unique:
  assumes "mainline_order_with_source xs resolved src limits = (True, xs', s)"
    "mainline_order_with_source ys resolved src limits = (True, ys', t)"
    "source_ok src" "distinct (map ref_event_id xs)" "mset ys = mset xs"
  shows "ys' = xs'"
proof -
  have set: "set ys = set xs" using assms(5) by (rule mset_eq_setD)
  have dist: "distinct (map ref_event_id ys)"
    using assms(4) mset_eq_imp_distinct_iff [of "map ref_event_id ys" "map ref_event_id xs"] assms(5) by simp
  obtain m p where a: "mainline_of (source_event src) resolved m"
    "\<forall>e \<in> set xs. has_position (source_event src) m e (p e)" "sorted_wrt (ranked_before p) xs'"
    by (rule mainline_order_sound [OF assms(1,3,4)])
  obtain m' q where b: "mainline_of (source_event src) resolved m'"
    "\<forall>e \<in> set ys. has_position (source_event src) m' e (q e)" "sorted_wrt (ranked_before q) ys'"
    by (rule mainline_order_sound [OF assms(2,3) dist])
  have m: "m' = m" by (rule mainline_of_deterministic [OF b(1) a(1)])
  have pq: "q e = p e" if "e \<in> set xs" for e
    using bspec [OF b(2), of e] bspec [OF a(2), of e] that set m by (auto intro: has_position_deterministic)
  have "mset xs' = mset xs" "mset ys' = mset ys"
    using mainline_order_with_source_reads [OF assms(1)] mainline_order_with_source_reads [OF assms(2)] by simp_all
  then have sets: "set xs' = set xs" "set ys' = set xs" using set mset_eq_setD by blast+
  have cong: "ranked_before p x y" if "x \<in> set ys'" "y \<in> set ys'" "ranked_before q x y" for x y
    using that(3) ranked_before_cong [of q x p y] pq that(1,2) sets(2) by simp
  have "sorted_wrt (ranked_before p) ys'"
    by (rule sorted_wrt_mono_rel [OF cong b(3)])
  moreover have "strict_total_on (set xs) (ranked_before p)"
    using assms(4) by (intro ranked_before_total) (simp add: distinct_map)
  ultimately show ?thesis
    using sorted_wrt_unique [of "set xs" "ranked_before p" xs' ys'] a(3) sets by simp
qed

section \<open>Sample orderings\<close>

definition sample_limits :: state_resolution_limits where
  "sample_limits =
     \<lparr>limit_state_groups = 4, limit_events_per_state_group = 4, limit_conflicted_state_keys = 4,
      limit_mainline_auth_chain_depth = 4, limit_auth_chain_walk_events = 4, limit_total_state_events = 8\<rparr>"

definition sample_event_of :: "byte_string \<Rightarrow> byte_string \<Rightarrow> byte_string list \<Rightarrow> json" where
  "sample_event_of ty key ids =
     JObject [(''type'', JString ty), (''state_key'', JString key), (''auth_events'', JArray (map JString ids)),
       (''content'', JObject [(''users'', JObject [(''@a:x'', JInt 100), (''@b:x'', JInt 50)])])]"

definition sample_ref :: "byte_string \<Rightarrow> byte_string \<Rightarrow> byte_string \<Rightarrow> byte_string \<Rightarrow> byte_string list
    \<Rightarrow> state_event_reference" where
  "sample_ref eid user ty key ids =
     \<lparr>ref_key = state_key_of ty key, ref_event_id = eid, ref_sender = user, ref_origin_server_ts = 0,
      ref_depth = 0, ref_event_json = sample_event_of ty key ids, ref_rejected = False\<rparr>"

definition sample_levels_ref :: "byte_string \<Rightarrow> byte_string list \<Rightarrow> state_event_reference" where
  "sample_levels_ref eid ids = sample_ref eid ''@a:x'' ''m.room.power_levels'' '''' ids"

definition sample_power_events :: "state_event_reference list" where
  "sample_power_events =
     [sample_ref ''$r'' ''@b:x'' ''m.t'' '''' [''$p''], sample_ref ''$q'' ''@a:x'' ''m.t'' '''' [''$p''],
      sample_levels_ref ''$p'' []]"

definition sample_index :: event_json_index where
  "sample_index =
     [(''$p'', ref_event_json (sample_levels_ref ''$p'' [])), (''$o'', ref_event_json (sample_levels_ref ''$o'' [''$p'']))]"

definition sample_policy :: room_version_policy where
  "sample_policy = default_policy ''10''"

definition sample_resolved :: state_map where
  "sample_resolved = [(state_key_of ''m.room.power_levels'' '''', sample_levels_ref ''$o'' [''$p''])]"

definition sample_topics :: "state_event_reference list" where
  "sample_topics =
     [sample_ref ''$r'' ''@b:x'' ''m.t'' '''' [''$o''], sample_ref ''$q'' ''@a:x'' ''m.t'' '''' [''$p'']]"

lemma map_option_obtain:
  assumes "map_option f x = Some y"
  obtains z where "x = Some z" "f z = y"
  using assms by (cases x) auto

lemma sample_power_sort:
  "map_option (map ref_event_id)
     (reverse_topological_power_sort sample_power_events sample_index None sample_policy sample_limits) =
   Some [''$p'', ''$q'', ''$r'']"
  by code_simp

lemma sample_power_sort_rev:
  "map_option (map ref_event_id)
     (reverse_topological_power_sort (rev sample_power_events) sample_index None sample_policy sample_limits) =
   Some [''$p'', ''$q'', ''$r'']"
  by code_simp

lemma sample_mainline:
  "(case mainline_order_with_source sample_topics sample_resolved (sort_source sample_index None sample_limits)
      sample_limits of (ok, out, src) \<Rightarrow> (ok, map ref_event_id out)) = (True, [''$q'', ''$r''])"
  by code_simp

section \<open>Properties\<close>

text \<open>
  C23: the reverse topological power ordering. A sort that succeeds returns a permutation of the events in
  which every event comes after the auth events it cites, and among the events whose cited auth events have
  all been placed the next one is that of the sender with most power, then the oldest, then the one with the
  smallest id, the power being read from the event's own auth events.
\<close>

theorem power_sort_exact:
  assumes "reverse_topological_power_sort events known lookup policy limits = Some out"
  shows "mset out = mset events \<and>
    power_ordered (sender_power (source_event (sort_source known lookup limits)) policy) out"
  using reverse_topological_power_sort_sound [OF assms] by simp

theorem power_sort_exact_witness:
  "\<exists>out. map ref_event_id out = [''$p'', ''$q'', ''$r''] \<and> mset out = mset sample_power_events \<and>
    power_ordered (sender_power (source_event (sort_source sample_index None sample_limits)) sample_policy) out"
proof -
  obtain out where "reverse_topological_power_sort sample_power_events sample_index None sample_policy
      sample_limits = Some out" "map ref_event_id out = [''$p'', ''$q'', ''$r'']"
    by (rule map_option_obtain [OF sample_power_sort])
  then show ?thesis using power_sort_exact [of sample_power_events] by (intro exI [of _ out]) simp
qed

text \<open>
  C24: the power ordering does not depend on the order in which the events are given, which is that of a hash
  container: two sorts of the same events that succeed return the same list.
\<close>

theorem power_sort_deterministic:
  assumes "reverse_topological_power_sort xs known lookup policy limits = Some xs'"
    and "reverse_topological_power_sort ys known lookup policy limits = Some ys'"
    and "mset xs = mset ys"
  shows "xs' = ys'"
proof -
  note x = reverse_topological_power_sort_sound [OF assms(1)]
  note y = reverse_topological_power_sort_sound [OF assms(2)]
  have m: "mset xs' = mset xs" "mset ys' = mset xs" using x(1) y(1) assms(3) by simp_all
  have d: "distinct xs" using x(2) by (simp add: distinct_map)
  show ?thesis
  proof (rule power_ordered_unique [OF x(3) y(3)])
    show "set xs' = set ys'" using m by (metis mset_eq_setD)
    show "distinct xs'" "distinct ys'" using d m mset_eq_imp_distinct_iff by blast+
  qed
qed

theorem power_sort_deterministic_witness:
  "reverse_topological_power_sort sample_power_events sample_index None sample_policy sample_limits =
    reverse_topological_power_sort (rev sample_power_events) sample_index None sample_policy sample_limits"
proof -
  obtain a where a: "reverse_topological_power_sort sample_power_events sample_index None sample_policy
      sample_limits = Some a"
    by (rule map_option_obtain [OF sample_power_sort])
  obtain b where b: "reverse_topological_power_sort (rev sample_power_events) sample_index None sample_policy
      sample_limits = Some b"
    by (rule map_option_obtain [OF sample_power_sort_rev])
  have "mset sample_power_events = mset (rev sample_power_events)" by simp
  from power_sort_deterministic [OF a b this] show ?thesis by (simp only: a b)
qed

text \<open>
  C25: when the power ordering fails. It succeeds exactly when the events are within the limit, the power of
  every sender can be determined, no event id occurs twice and the events do not cite each other in a cycle.
\<close>

theorem power_sort_succeeds_iff:
  "reverse_topological_power_sort events known lookup policy limits \<noteq> None \<longleftrightarrow>
     length events \<le> limit_conflicted_state_keys limits \<and>
     fst (powers_by_id events (sort_source known lookup limits) policy []) \<noteq> None \<and>
     distinct (map ref_event_id events) \<and> acyclic (citing events)"
proof (cases "distinct (map ref_event_id events)")
  case True
  note run = power_sort_run_complete_iff [OF True]
  show ?thesis
    unfolding reverse_topological_power_sort_eq run
    by (cases "fst (powers_by_id events (sort_source known lookup limits) policy [])") auto
next
  case False
  then show ?thesis
    unfolding reverse_topological_power_sort_eq by (simp split: option.split)
qed

text \<open>
  C26: the mainline ordering. An ordering that succeeds returns a permutation of the events sorted by their
  position on the mainline of the resolved power levels, farthest first, then by age, then by id; the
  mainline follows each power levels event to the one it cites, and an event's position is that of its
  first power levels ancestor on it.
\<close>

theorem mainline_order_exact:
  assumes "mainline_order_with_source events resolved src limits = (True, out, src')" "source_ok src"
    "distinct (map ref_event_id events)"
  shows "mset out = mset events \<and>
    (\<exists>mainline position. mainline_of (source_event src) resolved mainline \<and>
       (\<forall>e \<in> set events. has_position (source_event src) mainline e (position e)) \<and>
       sorted_wrt (ranked_before position) out)"
proof -
  obtain mainline position where "mainline_of (source_event src) resolved mainline"
    "\<forall>e \<in> set events. has_position (source_event src) mainline e (position e)"
    "sorted_wrt (ranked_before position) out"
    by (rule mainline_order_sound [OF assms])
  then show ?thesis using mainline_order_with_source_reads [OF assms(1)] by blast
qed

theorem mainline_order_exact_witness:
  "\<exists>out mainline (position :: state_event_reference \<Rightarrow> nat). map ref_event_id out = [''$q'', ''$r''] \<and> mset out = mset sample_topics \<and>
     mainline_of (source_event (sort_source sample_index None sample_limits)) sample_resolved mainline \<and>
     sorted_wrt (ranked_before position) out"
proof -
  obtain out s where o: "mainline_order_with_source sample_topics sample_resolved
      (sort_source sample_index None sample_limits) sample_limits = (True, out, s)"
    "map ref_event_id out = [''$q'', ''$r'']"
    using sample_mainline by (auto split: prod.splits)
  have "distinct (map ref_event_id sample_topics)" by code_simp
  note ok = mainline_order_exact [OF o(1) new_event_source_ok this]
  then obtain mainline and position :: "state_event_reference \<Rightarrow> nat" where
    "mainline_of (source_event (sort_source sample_index None sample_limits)) sample_resolved mainline"
    "sorted_wrt (ranked_before position) out" by blast
  with ok o(2) show ?thesis
    by (intro exI [of _ out] exI [of _ mainline] exI [of _ position]) simp
qed

end
