(* ===== verification/StateResolution.thy ===== *)
theory StateResolution
  imports StateOrdering
begin

text \<open>
  State resolution (\<open>src/src/events/state_resolution.cpp\<close>): the limits on a request, the resolution of the
  first room version by depth, the partition of the groups into unconflicted and conflicted state, and the
  algorithm of the later versions with its iterative auth checks. \<open>order\<close> arguments are the orders in
  which hash containers are visited, one for containers keyed by event ids and one for those keyed by
  state keys; the properties hold for every such order. Logging is left out.
\<close>

section \<open>Requests and results\<close>

record state_resolution_request =
  request_room_version :: byte_string
  request_state_groups :: "state_group list"
  request_event_lookup :: event_lookup_fn
  request_room_id :: byte_string
  request_limits :: state_resolution_limits

record state_resolution_result =
  result_resolved :: bool
  result_state :: "state_event_reference list"
  result_reason :: byte_string

definition resolution_failed :: "byte_string \<Rightarrow> state_resolution_result" where
  "resolution_failed why = \<lparr>result_resolved = False, result_state = [], result_reason = why\<rparr>"

definition resolution_of :: "state_event_reference list \<Rightarrow> state_resolution_result" where
  "resolution_of events = \<lparr>result_resolved = True, result_state = events, result_reason = []\<rparr>"

record visit_orders =
  id_order :: "byte_string list \<Rightarrow> byte_string list"
  key_order :: "state_key list \<Rightarrow> state_key list"

definition orders_ok :: "visit_orders \<Rightarrow> bool" where
  "orders_ok orders \<longleftrightarrow> visits_all (id_order orders) \<and> visits_all (key_order orders)"

definition state_key_matches :: "state_key \<Rightarrow> state_key \<Rightarrow> bool" where
  "state_key_matches left right \<longleftrightarrow>
     key_event_type left = key_event_type right \<and> key_state_key left = key_state_key right"

definition state_group_event :: "state_group \<Rightarrow> state_key \<Rightarrow> state_event_reference option" where
  "state_group_event grp key = find (\<lambda>event. state_key_matches (ref_key event) key) (group_state grp)"

definition state_group_contains :: "state_group \<Rightarrow> state_key \<Rightarrow> bool" where
  "state_group_contains grp key \<longleftrightarrow> state_group_event grp key \<noteq> None"

text \<open>The subtraction is guarded, so the running total never passes its ceiling.\<close>

fun total_events_reason :: "state_resolution_limits \<Rightarrow> state_group list \<Rightarrow> nat \<Rightarrow> byte_string option" where
  "total_events_reason limits [] total_events = None"
| "total_events_reason limits (grp # groups) total_events =
     (if limit_events_per_state_group limits < length (group_state grp)
      then Some ''too many events in state group''
      else if limit_total_state_events limits < total_events \<or>
              limit_total_state_events limits - total_events < length (group_state grp)
      then Some ''too many total state events''
      else total_events_reason limits groups (total_events + length (group_state grp)))"

definition validate_state_resolution_request :: "state_resolution_request \<Rightarrow> byte_string option" where
  "validate_state_resolution_request request =
     (if limit_state_groups (request_limits request) < length (request_state_groups request)
      then Some ''too many state groups''
      else total_events_reason (request_limits request) (request_state_groups request) 0)"

section \<open>The first room version\<close>

definition select_v1_winner ::
    "state_event_reference \<Rightarrow> state_event_reference \<Rightarrow> state_event_reference" where
  "select_v1_winner existing candidate =
     (if ref_depth candidate \<noteq> ref_depth existing
      then (if ref_depth existing < ref_depth candidate then candidate else existing)
      else if ref_event_id candidate < ref_event_id existing then candidate else existing)"

fun resolve_events :: "state_event_reference list \<Rightarrow> state_map \<Rightarrow> byte_string + state_map" where
  "resolve_events [] resolved = Inr resolved"
| "resolve_events (event # events) resolved =
     (if ref_event_id event = [] then Inl ''state event id is required''
      else case map_of resolved (ref_key event) of
        None \<Rightarrow> resolve_events events (map_emplace (ref_key event) event resolved)
      | Some existing \<Rightarrow>
          if ref_event_id existing = ref_event_id event then resolve_events events resolved
          else resolve_events events
            (map_assign (ref_key event) (select_v1_winner existing event) resolved))"

definition group_events :: "state_group list \<Rightarrow> state_event_reference list" where
  "group_events groups = concat (map group_state groups)"

definition resolve_state :: "visit_orders \<Rightarrow> state_resolution_request \<Rightarrow> state_resolution_result" where
  "resolve_state orders request =
     (if request_room_version request = [] then resolution_failed ''room version is required''
      else case validate_state_resolution_request request of
        Some why \<Rightarrow> resolution_failed why
      | None \<Rightarrow>
          if request_state_groups request = [] then resolution_of []
          else (case resolve_events (group_events (request_state_groups request)) [] of
             Inl why \<Rightarrow> resolution_failed why
           | Inr resolved \<Rightarrow> resolution_of (map snd (visit_map (key_order orders) resolved))))"

section \<open>Conflicted and unconflicted state\<close>

record key_tally =
  tally_first_event :: state_event_reference
  tally_event_ids :: "byte_string list"
  tally_groups_containing :: nat
  tally_last_group_counted :: nat

fun partition_too_large :: "state_resolution_limits \<Rightarrow> state_group list \<Rightarrow> nat \<Rightarrow> bool" where
  "partition_too_large limits [] total_events = False"
| "partition_too_large limits (grp # groups) total_events =
     (limit_events_per_state_group limits < length (group_state grp) \<or>
      limit_total_state_events limits < total_events \<or>
      limit_total_state_events limits - total_events < length (group_state grp) \<or>
      partition_too_large limits groups (total_events + length (group_state grp)))"

text \<open>One event of a group counted; no value when there are too many keys.\<close>

definition tally_event ::
    "state_resolution_limits \<Rightarrow> nat \<Rightarrow> state_event_reference \<Rightarrow> (state_key \<times> key_tally) list
      \<Rightarrow> (state_key \<times> key_tally) list option" where
  "tally_event limits group_index event tallies =
     (let inserted = (map_of tallies (ref_key event) = None);
          entry = (case map_of tallies (ref_key event) of
             Some tally \<Rightarrow> tally
           | None \<Rightarrow> \<lparr>tally_first_event = event, tally_event_ids = [], tally_groups_containing = 0,
                     tally_last_group_counted = 0\<rparr>);
          counted = (if inserted \<or> tally_last_group_counted entry \<noteq> group_index
             then entry\<lparr>tally_groups_containing := tally_groups_containing entry + 1,
                        tally_last_group_counted := group_index\<rparr>
             else entry) in
      if limit_conflicted_state_keys limits < length tallies + (if inserted then 1 else 0) then None
      else Some (map_assign (ref_key event)
        (counted\<lparr>tally_event_ids := set_insert (ref_event_id event) (tally_event_ids counted)\<rparr>) tallies))"

fun tally_events ::
    "state_resolution_limits \<Rightarrow> nat \<Rightarrow> state_event_reference list \<Rightarrow> (state_key \<times> key_tally) list
      \<Rightarrow> (state_key \<times> key_tally) list option" where
  "tally_events limits group_index [] tallies = Some tallies"
| "tally_events limits group_index (event # events) tallies =
     (case tally_event limits group_index event tallies of
        None \<Rightarrow> None
      | Some tallies' \<Rightarrow> tally_events limits group_index events tallies')"

fun tally_groups ::
    "state_resolution_limits \<Rightarrow> nat \<Rightarrow> state_group list \<Rightarrow> (state_key \<times> key_tally) list
      \<Rightarrow> (state_key \<times> key_tally) list option" where
  "tally_groups limits group_index [] tallies = Some tallies"
| "tally_groups limits group_index (grp # groups) tallies =
     (case tally_events limits group_index (group_state grp) tallies of
        None \<Rightarrow> None
      | Some tallies' \<Rightarrow> tally_groups limits (group_index + 1) groups tallies')"

definition tally_agrees :: "nat \<Rightarrow> key_tally \<Rightarrow> bool" where
  "tally_agrees groups tally \<longleftrightarrow>
     tally_groups_containing tally = groups \<and> length (tally_event_ids tally) = 1"

definition partition_conflicted_state ::
    "visit_orders \<Rightarrow> state_group list \<Rightarrow> state_resolution_limits \<Rightarrow> state_map \<times> state_map" where
  "partition_conflicted_state orders groups limits =
     (if limit_state_groups limits < length groups \<or> partition_too_large limits groups 0 then ([], [])
      else case tally_groups limits 0 groups [] of
        None \<Rightarrow> ([], [])
      | Some tallies \<Rightarrow>
          (let entries = visit_map (key_order orders) tallies;
               as_map = map (\<lambda>(key, tally). (key, tally_first_event tally)) in
           (as_map (filter (\<lambda>(key, tally). tally_agrees (length groups) tally) entries),
            as_map (filter (\<lambda>(key, tally). \<not> tally_agrees (length groups) tally) entries))))"

definition is_power_event :: "state_event_reference \<Rightarrow> bool" where
  "is_power_event event =
     (let ty = key_event_type (ref_key event) in
      if ty = ''m.room.power_levels'' \<or> ty = ''m.room.join_rules'' then key_state_key (ref_key event) = []
      else if ty \<noteq> ''m.room.member'' then False
      else case event_content_string (ref_event_json event) ''membership'' of
        None \<Rightarrow> False
      | Some membership \<Rightarrow>
          (membership = ''leave'' \<or> membership = ''ban'') \<and> ref_sender event \<noteq> key_state_key (ref_key event))"

fun index_events :: "state_event_reference list \<Rightarrow> event_json_index \<Rightarrow> event_json_index" where
  "index_events [] index = index"
| "index_events (event # events) index =
     index_events events
       (if ref_event_id event \<noteq> [] \<and> value_has_content (ref_event_json event)
        then map_emplace (ref_event_id event) (ref_event_json event) index else index)"

definition build_event_json_index :: "state_group list \<Rightarrow> event_json_index" where
  "build_event_json_index groups = index_events (group_events groups) []"

section \<open>The auth events of a candidate\<close>

text \<open>A reference to an event known only by its id.\<close>

definition materialize_ref ::
    "byte_string \<Rightarrow> auth_chain_event_source \<Rightarrow> state_event_reference option \<times> auth_chain_event_source" where
  "materialize_ref event_id src =
     (case find_required src event_id of
        (None, src') \<Rightarrow> (None, src')
      | (Some event, src') \<Rightarrow>
          (case value_is_object event of
             None \<Rightarrow> (None, src')
           | Some obj \<Rightarrow>
               (case (string_member obj ''type'', string_member obj ''state_key'') of
                  (Some ty, Some key) \<Rightarrow>
                    (Some \<lparr>ref_key = state_key_of ty key, ref_event_id = event_id,
                           ref_sender = (case string_member obj ''sender'' of None \<Rightarrow> [] | Some s \<Rightarrow> s),
                           ref_origin_server_ts =
                             (case object_member obj ''origin_server_ts'' of Some (JInt ts) \<Rightarrow> ts | _ \<Rightarrow> 0),
                           ref_depth = 0, ref_event_json = event, ref_rejected = is_rejected src' event_id\<rparr>, src')
                | _ \<Rightarrow> (None, src'))))"

text \<open>The first accepted auth event of the wanted kind, with its id; null and no id when there is none.\<close>

fun own_auth_entries ::
    "json list \<Rightarrow> state_key \<Rightarrow> auth_chain_event_source \<Rightarrow> (json \<times> byte_string) \<times> auth_chain_event_source" where
  "own_auth_entries [] wanted src = ((JNull, []), src)"
| "own_auth_entries (entry # auth) wanted src =
     (case auth_entry_event_id entry of
        None \<Rightarrow> own_auth_entries auth wanted src
      | Some eid \<Rightarrow>
          (case find_optional src eid of
             (None, src') \<Rightarrow> own_auth_entries auth wanted src'
           | (Some candidate, src') \<Rightarrow>
               if is_rejected src' eid then own_auth_entries auth wanted src'
               else (case value_is_object candidate of
                  None \<Rightarrow> own_auth_entries auth wanted src'
                | Some obj \<Rightarrow>
                    (let ty = (case string_member obj ''type'' of None \<Rightarrow> [] | Some t \<Rightarrow> t);
                         key = (case string_member obj ''state_key'' of None \<Rightarrow> [] | Some k \<Rightarrow> k) in
                     if ty = key_event_type wanted \<and> key = key_state_key wanted
                     then ((candidate, eid), src')
                     else own_auth_entries auth wanted src'))))"

definition find_own_auth_event ::
    "json_object \<Rightarrow> auth_chain_event_source \<Rightarrow> state_key \<Rightarrow> (json \<times> byte_string) \<times> auth_chain_event_source"
where
  "find_own_auth_event event_obj src wanted =
     (case array_member event_obj ''auth_events'' of
        None \<Rightarrow> ((JNull, []), src)
      | Some auth \<Rightarrow> own_auth_entries auth wanted src)"

text \<open>One slot of the map: the running state first, the candidate's own auth events otherwise.\<close>

definition auth_slot ::
    "json_object \<Rightarrow> state_map \<Rightarrow> state_key \<Rightarrow> auth_chain_event_source
      \<Rightarrow> (json \<times> byte_string) \<times> auth_chain_event_source" where
  "auth_slot obj current_state key src =
     (case map_of current_state key of
        Some event \<Rightarrow> ((ref_event_json event, ref_event_id event), src)
      | None \<Rightarrow> find_own_auth_event obj src key)"

text \<open>A slot that is filled only when its key is known.\<close>

definition optional_slot ::
    "json_object \<Rightarrow> state_map \<Rightarrow> state_key option \<Rightarrow> auth_chain_event_source \<Rightarrow> json \<times> auth_chain_event_source"
where
  "optional_slot obj current_state wanted src =
     (case wanted of
        None \<Rightarrow> (JNull, src)
      | Some key \<Rightarrow> (case auth_slot obj current_state key src of ((event, _), src') \<Rightarrow> (event, src')))"

definition invite_token :: "json_object \<Rightarrow> byte_string option" where
  "invite_token obj =
     (case object_member_as_object obj ''content'' of
        None \<Rightarrow> None
      | Some content \<Rightarrow>
          (case object_member_as_object content ''third_party_invite'' of
             None \<Rightarrow> None
           | Some third_party_invite \<Rightarrow>
               (case object_member_as_object third_party_invite ''signed'' of
                  None \<Rightarrow> None
                | Some signed_obj \<Rightarrow> string_member signed_obj ''token'')))"

definition authorising_user :: "json_object \<Rightarrow> byte_string option" where
  "authorising_user obj =
     (case object_member_as_object obj ''content'' of
        None \<Rightarrow> None
      | Some content \<Rightarrow>
          (case (string_member content ''membership'', string_member content ''join_authorised_via_users_server'') of
             (Some membership, Some user) \<Rightarrow> if membership = ''join'' \<and> user \<noteq> [] then Some user else None
           | _ \<Rightarrow> None))"

definition build_auth_event_map_from_state ::
    "json \<Rightarrow> state_map \<Rightarrow> auth_chain_event_source \<Rightarrow> auth_event_map \<times> auth_chain_event_source" where
  "build_auth_event_map_from_state event current_state src =
     (case value_is_object event of
        None \<Rightarrow> (empty_auth_event_map, src)
      | Some obj \<Rightarrow>
          (let member_of = map_option (state_key_of ''m.room.member'');
               target = (case (string_member obj ''state_key'', string_member obj ''type'') of
                  (Some key, Some ty) \<Rightarrow> if ty = ''m.room.member'' then Some key else None
                | _ \<Rightarrow> None);
               is_member = (target \<noteq> None);
               ((create, create_id), s1) = auth_slot obj current_state (state_key_of ''m.room.create'' '''') src;
               ((levels, _), s2) = auth_slot obj current_state (state_key_of ''m.room.power_levels'' '''') s1;
               ((rules, _), s3) = auth_slot obj current_state (state_key_of ''m.room.join_rules'' '''') s2;
               (sender_member, s4) =
                 optional_slot obj current_state (member_of (string_member obj ''sender'')) s3;
               (target_member, s5) = optional_slot obj current_state (member_of target) s4;
               (invite, s6) = optional_slot obj current_state
                 (if is_member then map_option (state_key_of ''m.room.third_party_invite'') (invite_token obj)
                  else None) s5;
               (authorising, s7) = optional_slot obj current_state
                 (if is_member then member_of (authorising_user obj) else None) s6
           in (\<lparr>auth_create = create, auth_create_event_id = create_id, auth_power_levels = levels,
                auth_join_rules = rules, auth_sender_member = sender_member, auth_target_member = target_member,
                auth_authorising_user_member = authorising, auth_third_party_invite = invite\<rparr>, s7)))"

fun apply_iterative_auth_checks ::
    "sodium \<Rightarrow> room_version_policy \<Rightarrow> state_event_reference list \<Rightarrow> state_map \<Rightarrow> auth_chain_event_source
      \<Rightarrow> state_map \<times> auth_chain_event_source" where
  "apply_iterative_auth_checks na policy [] resolved src = (resolved, src)"
| "apply_iterative_auth_checks na policy (event # events) resolved src =
     (if \<not> value_has_content (ref_event_json event)
      then apply_iterative_auth_checks na policy events resolved src
      else case build_auth_event_map_from_state (ref_event_json event) resolved src of
        (auth_map, src') \<Rightarrow>
          apply_iterative_auth_checks na policy events
            (if allowed (authorize_event_against_auth_events na (ref_event_json event) policy auth_map)
             then map_assign (ref_key event) event resolved else resolved) src')"

section \<open>The later room versions\<close>

text \<open>Every distinct event of a conflicted key, in the order of the groups; \<open>seen\<close> pairs keys with event ids.\<close>

fun gather_conflicted ::
    "state_resolution_limits \<Rightarrow> state_map \<Rightarrow> state_event_reference list \<Rightarrow> (state_key \<times> byte_string) list
      \<Rightarrow> state_event_reference list \<Rightarrow> state_event_reference list option" where
  "gather_conflicted limits conflicted [] seen gathered = Some gathered"
| "gather_conflicted limits conflicted (event # events) seen gathered =
     (if map_of conflicted (ref_key event) = None \<or> (ref_key event, ref_event_id event) \<in> set seen
      then gather_conflicted limits conflicted events seen gathered
      else if limit_conflicted_state_keys limits < length (gathered @ [event]) then None
      else gather_conflicted limits conflicted events
        (set_insert (ref_key event, ref_event_id event) seen) (gathered @ [event]))"

fun materialize_all ::
    "byte_string list \<Rightarrow> (byte_string \<times> state_event_reference) list \<Rightarrow> auth_chain_event_source
      \<Rightarrow> (byte_string \<times> state_event_reference) list option \<times> auth_chain_event_source" where
  "materialize_all [] full src = (Some full, src)"
| "materialize_all (eid # ids) full src =
     (if map_of full eid \<noteq> None then materialize_all ids full src
      else case materialize_ref eid src of
        (None, src') \<Rightarrow> (None, src')
      | (Some ref, src') \<Rightarrow> materialize_all ids (map_emplace eid ref full) src')"

fun emplace_events ::
    "state_event_reference list \<Rightarrow> (byte_string \<times> state_event_reference) list
      \<Rightarrow> (byte_string \<times> state_event_reference) list" where
  "emplace_events [] full = full"
| "emplace_events (event # events) full = emplace_events events (map_emplace (ref_event_id event) event full)"

text \<open>The full conflicted set by event id, or why it cannot be built.\<close>

definition full_conflicted_set ::
    "visit_orders \<Rightarrow> state_resolution_request \<Rightarrow> room_version_policy \<Rightarrow> state_event_reference list
      \<Rightarrow> auth_chain_event_source
      \<Rightarrow> (byte_string + (byte_string \<times> state_event_reference) list) \<times> auth_chain_event_source" where
  "full_conflicted_set orders request policy all_conflicted src =
     (let cap = limit_auth_chain_walk_events (request_limits request) in
      case compute_auth_difference (request_state_groups request) src cap of
        (None, s1) \<Rightarrow> (Inl ''state-res v2: missing or unreachable event during auth-chain walk'', s1)
      | (Some difference, s1) \<Rightarrow>
          if source_missing s1
          then (Inl ''state-res v2: missing or unreachable event during auth-chain walk'', s1)
          else (case materialize_all (id_order orders difference) (emplace_events all_conflicted []) s1 of
             (None, s2) \<Rightarrow> (Inl ''state-res v2: auth difference event could not be read'', s2)
           | (Some full, s2) \<Rightarrow>
               if state_resolution_of policy \<noteq> State_v2_1 then (Inr full, s2)
               else (case compute_conflicted_state_subgraph (id_order orders)
                       (fold set_insert (map ref_event_id all_conflicted) []) s2 cap of
                  (None, s3) \<Rightarrow> (Inl ''state-res v2: conflicted state subgraph walk failed'', s3)
                | (Some subgraph, s3) \<Rightarrow>
                    if source_missing s3 then (Inl ''state-res v2: conflicted state subgraph walk failed'', s3)
                    else (case materialize_all (id_order orders subgraph) full s3 of
                       (None, s4) \<Rightarrow> (Inl ''state-res v2: conflicted subgraph event could not be read'', s4)
                     | (Some full', s4) \<Rightarrow> (Inr full', s4)))))"

text \<open>The state the iterative auth checks start from.\<close>

definition starting_state ::
    "state_resolution_request \<Rightarrow> room_version_policy \<Rightarrow> state_map \<Rightarrow> auth_chain_event_source
      \<Rightarrow> (byte_string + state_map) \<times> auth_chain_event_source" where
  "starting_state request policy unconflicted src =
     (let room_id = request_room_id request; create_key = state_key_of ''m.room.create'' '''' in
      if state_resolution_of policy \<noteq> State_v2_1 then (Inr unconflicted, src)
      else if 2 \<le> length room_id \<and> hd room_id = CHR ''!'' then
        (case materialize_ref (''$'' @ tl room_id) src of
           (None, s) \<Rightarrow>
             (Inl ''state-res v2: room v12 create event (derived from room_id) could not be fetched'', s)
         | (Some create, s) \<Rightarrow>
             if source_missing s \<or> ref_key create \<noteq> create_key
             then (Inl ''state-res v2: room v12 create event (derived from room_id) could not be fetched'', s)
             else (Inr [(create_key, create)], s))
      else (case map_of unconflicted create_key of
         Some create \<Rightarrow> (Inr [(create_key, create)], src)
       | None \<Rightarrow> (Inr [], src)))"

fun select_ancestors ::
    "(byte_string \<times> state_event_reference) list \<Rightarrow> byte_string list
      \<Rightarrow> byte_string list \<times> state_event_reference list \<times> byte_string list
      \<Rightarrow> byte_string list \<times> state_event_reference list \<times> byte_string list" where
  "select_ancestors full [] st = st"
| "select_ancestors full (ancestor # ancestors) (selected, chosen, queue) =
     (case map_of full ancestor of
        None \<Rightarrow> select_ancestors full ancestors (selected, chosen, queue)
      | Some event \<Rightarrow>
          if ancestor \<in> set selected then select_ancestors full ancestors (selected, chosen, queue)
          else select_ancestors full ancestors (selected @ [ancestor], chosen @ [event], ancestor # queue))"

definition unselected :: "(byte_string \<times> state_event_reference) list \<Rightarrow> byte_string list \<Rightarrow> nat" where
  "unselected full selected = card (fst ` set full - set selected)"

lemma select_ancestors_measure:
  "select_ancestors full ancestors (selected, chosen, queue) = (selected', chosen', queue') \<Longrightarrow>
     unselected full selected' + length queue' = unselected full selected + length queue"
proof (induction ancestors arbitrary: selected chosen queue)
  case (Cons ancestor ancestors)
  show ?case
  proof (cases "map_of full ancestor = None \<or> ancestor \<in> set selected")
    case True
    then have "select_ancestors full ancestors (selected, chosen, queue) = (selected', chosen', queue')"
      using Cons.prems by (auto split: option.splits)
    then show ?thesis by (rule Cons.IH)
  next
    case False
    then obtain event where event: "map_of full ancestor = Some event" "ancestor \<notin> set selected" by auto
    have next_step: "select_ancestors full ancestors (selected @ [ancestor], chosen @ [event], ancestor # queue) =
        (selected', chosen', queue')"
      using Cons.prems event by simp
    have "ancestor \<in> fst ` set full - set selected"
      using event by (force dest: map_of_SomeD)
    moreover have "fst ` set full - set (selected @ [ancestor]) = fst ` set full - set selected - {ancestor}"
      by auto
    ultimately have "Suc (unselected full (selected @ [ancestor])) = unselected full selected"
      unfolding unselected_def by (metis card_Suc_Diff1 finite_Diff finite_imageI finite_set)
    then show ?thesis using Cons.IH [OF next_step] by simp
  qed
qed simp

text \<open>The queue is kept with its back first; \<open>at\<close> throws for an id outside the set, which no step enqueues.\<close>

function enlarge_power_events ::
    "(byte_string list \<Rightarrow> byte_string list) \<Rightarrow> nat \<Rightarrow> (byte_string \<times> state_event_reference) list
      \<Rightarrow> byte_string list \<Rightarrow> byte_string list \<Rightarrow> state_event_reference list \<Rightarrow> auth_chain_event_source
      \<Rightarrow> (byte_string list \<times> state_event_reference list) option \<times> auth_chain_event_source" where
  "enlarge_power_events order cap full [] selected chosen src = (Some (selected, chosen), src)"
| "enlarge_power_events order cap full (eid # queue) selected chosen src =
     (case map_of full eid of
        None \<Rightarrow> (None, src)
      | Some event \<Rightarrow>
          (case walk_auth_chain (ref_event_json event) src cap of
             (None, src') \<Rightarrow> (None, src')
           | (Some chain, src') \<Rightarrow>
               if source_missing src' then (None, src')
               else (case select_ancestors full (order chain) (selected, chosen, queue) of
                  (selected', chosen', queue') \<Rightarrow>
                    enlarge_power_events order cap full queue' selected' chosen' src')))"
  by pat_completeness auto
termination
  by (relation "measure (\<lambda>(order, cap, full, queue, selected, chosen, src).
        unselected full selected + length queue)")
    (auto dest!: select_ancestors_measure [OF sym])

definition rejected_ids :: "state_event_reference list \<Rightarrow> byte_string list" where
  "rejected_ids events = fold set_insert (map ref_event_id (filter ref_rejected events)) []"

text \<open>
  The ordering and checking of the full conflicted set from a starting state: the partially resolved state
  after the power events, then the state after the remaining events.
\<close>

definition resolve_conflicted ::
    "sodium \<Rightarrow> visit_orders \<Rightarrow> state_resolution_request \<Rightarrow> room_version_policy \<Rightarrow> event_json_index
      \<Rightarrow> (byte_string \<times> state_event_reference) list \<Rightarrow> state_map \<Rightarrow> auth_chain_event_source
      \<Rightarrow> byte_string + state_map" where
  "resolve_conflicted na orders request policy known_index full start src =
     (let limits = request_limits request;
          power_entries = filter (\<lambda>(eid, event). is_power_event event) (visit_map (id_order orders) full);
          selected = map fst power_entries in
      case enlarge_power_events (id_order orders) (limit_auth_chain_walk_events limits) full
          (rev (id_order orders selected)) selected (map snd power_entries) src of
        (None, _) \<Rightarrow> Inl ''state-res v2: enlarge-X auth chain walk failed''
      | (Some (selected', power_events), s1) \<Rightarrow>
          (let remaining_events =
             map snd (filter (\<lambda>(eid, event). eid \<notin> set selected') (visit_map (id_order orders) full)) in
           case reverse_topological_power_sort power_events known_index (request_event_lookup request) policy limits of
             None \<Rightarrow> Inl ''state-res v2: reverse topological power sort failed closed''
           | Some sorted_power \<Rightarrow>
               (case apply_iterative_auth_checks na policy sorted_power start s1 of
                  (partial_state, s2) \<Rightarrow>
                    (case mainline_order_with_source remaining_events partial_state s2 limits of
                       (ordered, sorted_remaining, s3) \<Rightarrow>
                         if \<not> ordered \<or> source_missing s3
                         then Inl ''state-res v2: mainline ordering auth-chain walk failed''
                         else Inr (fst (apply_iterative_auth_checks na policy sorted_remaining partial_state s3))))))"

definition override_state :: "state_map \<Rightarrow> state_map \<Rightarrow> state_map" where
  "override_state unconflicted resolved = fold (\<lambda>(key, event). map_assign key event) unconflicted resolved"

definition resolve_state_v2 ::
    "sodium \<Rightarrow> visit_orders \<Rightarrow> state_resolution_request \<Rightarrow> room_version_policy \<Rightarrow> state_resolution_result" where
  "resolve_state_v2 na orders request policy =
     (case validate_state_resolution_request request of
        Some why \<Rightarrow> resolution_failed why
      | None \<Rightarrow>
          if request_state_groups request = [] then resolution_of []
          else (case partition_conflicted_state orders (request_state_groups request) (request_limits request) of
             (unconflicted, conflicted) \<Rightarrow>
               if unconflicted = [] \<and> conflicted = [] then resolution_failed ''too many state keys''
               else (case gather_conflicted (request_limits request) conflicted
                       (group_events (request_state_groups request)) [] [] of
                  None \<Rightarrow> resolution_failed ''too many conflicted events''
                | Some all_conflicted \<Rightarrow>
                    if all_conflicted = []
                    then resolution_of (map snd (visit_map (key_order orders) unconflicted))
                    else
                      (let known_index = build_event_json_index (request_state_groups request);
                           source = new_event_source known_index (request_event_lookup request)
                             (limit_auth_chain_walk_events (request_limits request))
                             (rejected_ids (group_events (request_state_groups request))) in
                       case full_conflicted_set orders request policy all_conflicted source of
                         (Inl why, _) \<Rightarrow> resolution_failed why
                       | (Inr full, s1) \<Rightarrow>
                           (case starting_state request policy unconflicted s1 of
                              (Inl why, _) \<Rightarrow> resolution_failed why
                            | (Inr start, s2) \<Rightarrow>
                                (case resolve_conflicted na orders request policy known_index full start s2 of
                                   Inl why \<Rightarrow> resolution_failed why
                                 | Inr resolved \<Rightarrow>
                                     resolution_of (map snd (visit_map (key_order orders)
                                       (override_state (visit_map (key_order orders) unconflicted) resolved)))))))))"

definition state_resolution_summary :: "state_resolution_result \<Rightarrow> byte_string" where
  "state_resolution_summary result =
     ''state resolution: resolved='' @ (if result_resolved result then ''true'' else ''false'') @
     '' events='' @ show_nat (length (result_state result)) @ '' reason='' @ result_reason result"

section \<open>The partition\<close>

text \<open>The events of the groups, each with the index of its group.\<close>

fun indexed_events :: "nat \<Rightarrow> state_group list \<Rightarrow> (nat \<times> state_event_reference) list" where
  "indexed_events i [] = []"
| "indexed_events i (grp # groups) = map (Pair i) (group_state grp) @ indexed_events (Suc i) groups"

definition occurrences ::
    "(nat \<times> state_event_reference) list \<Rightarrow> state_key \<Rightarrow> (nat \<times> state_event_reference) list" where
  "occurrences seen key = filter (\<lambda>(i, event). ref_key event = key) seen"

definition tally_matches :: "(nat \<times> state_event_reference) list \<Rightarrow> key_tally \<Rightarrow> bool" where
  "tally_matches occ tally \<longleftrightarrow>
     occ \<noteq> [] \<and> tally_first_event tally = snd (hd occ) \<and>
     set (tally_event_ids tally) = ref_event_id ` snd ` set occ \<and> distinct (tally_event_ids tally) \<and>
     tally_groups_containing tally = card (fst ` set occ) \<and> tally_last_group_counted tally = fst (last occ)"

definition tallied :: "(nat \<times> state_event_reference) list \<Rightarrow> (state_key \<times> key_tally) list \<Rightarrow> bool" where
  "tallied seen tallies \<longleftrightarrow> distinct (map fst tallies) \<and>
     (\<forall>key. case map_of tallies key of
        None \<Rightarrow> occurrences seen key = [] | Some tally \<Rightarrow> tally_matches (occurrences seen key) tally)"

lemma occurrences_snoc [simp]:
  "occurrences (seen @ [(i, event)]) key =
     (if ref_key event = key then occurrences seen key @ [(i, event)] else occurrences seen key)"
  by (simp add: occurrences_def)

lemma tally_event_first:
  assumes "map_of tallies (ref_key event) = None" "tally_event limits i event tallies = Some tallies'"
  shows "tallies' = map_assign (ref_key event)
    \<lparr>tally_first_event = event, tally_event_ids = [ref_event_id event], tally_groups_containing = 1,
     tally_last_group_counted = i\<rparr> tallies"
  using assms by (auto simp: tally_event_def set_insert_def Let_def split: if_splits)

lemma tally_event_again:
  assumes "map_of tallies (ref_key event) = Some tally" "tally_event limits i event tallies = Some tallies'"
  shows "tallies' = map_assign (ref_key event)
    (tally\<lparr>tally_event_ids := set_insert (ref_event_id event) (tally_event_ids tally),
      tally_groups_containing := tally_groups_containing tally +
        (if tally_last_group_counted tally = i then 0 else 1),
      tally_last_group_counted := i\<rparr>) tallies"
  using assms by (cases tally) (auto simp: tally_event_def Let_def split: if_splits)

lemma tally_matches_again:
  assumes m: "tally_matches occ tally" and le: "\<forall>p \<in> set occ. fst p \<le> i" and "sorted (map fst occ)"
  shows "tally_matches (occ @ [(i, event)])
    (tally\<lparr>tally_event_ids := set_insert (ref_event_id event) (tally_event_ids tally),
      tally_groups_containing := tally_groups_containing tally +
        (if tally_last_group_counted tally = i then 0 else 1),
      tally_last_group_counted := i\<rparr>)"
proof -
  have occ: "occ \<noteq> []" "last occ \<in> set occ" using m by (auto simp: tally_matches_def)
  have max: "fst p \<le> fst (last occ)" if p: "p \<in> set occ" for p
  proof -
    obtain k where k: "k < length occ" "occ ! k = p" using p unfolding in_set_conv_nth by blast
    have "map fst occ ! k \<le> map fst occ ! (length occ - 1)"
      using sorted_nth_mono [OF assms(3), of k "length occ - 1"] k by simp
    then show ?thesis using k(1) k(2) [symmetric] occ(1) by (simp add: last_conv_nth)
  qed
  have fresh: "i \<in> fst ` set occ \<longleftrightarrow> fst (last occ) = i"
  proof
    assume "i \<in> fst ` set occ"
    then obtain p where "p \<in> set occ" "i = fst p" by (rule imageE)
    then show "fst (last occ) = i" using max [of p] bspec [OF le occ(2)] by simp
  next
    assume "fst (last occ) = i"
    then show "i \<in> fst ` set occ" using imageI [OF occ(2), of fst] by simp
  qed
  have "card (fst ` set (occ @ [(i, event)])) = card (fst ` set occ) + (if fst (last occ) = i then 0 else 1)"
    using fresh by (simp add: card_insert_if)
  then show ?thesis using m occ by (auto simp: tally_matches_def)
qed

lemma tallied_update:
  assumes t: "tallied seen tallies" and m: "tally_matches (occurrences seen (ref_key event) @ [(i, event)]) tally"
  shows "tallied (seen @ [(i, event)]) (map_assign (ref_key event) tally tallies)"
  unfolding tallied_def
proof (intro conjI allI)
  show "distinct (map fst (map_assign (ref_key event) tally tallies))"
    using t by (simp add: tallied_def)
  fix key
  show "case map_of (map_assign (ref_key event) tally tallies) key of
      None \<Rightarrow> occurrences (seen @ [(i, event)]) key = []
    | Some t \<Rightarrow> tally_matches (occurrences (seen @ [(i, event)]) key) t"
  proof (cases "key = ref_key event")
    case True
    then show ?thesis using m by simp
  next
    case False
    then have same: "occurrences (seen @ [(i, event)]) key = occurrences seen key" by auto
    show ?thesis using t False unfolding same by (simp add: tallied_def)
  qed
qed

lemma tallied_at:
  assumes "tallied seen tallies"
  shows "case map_of tallies key of
    None \<Rightarrow> occurrences seen key = [] | Some tally \<Rightarrow> tally_matches (occurrences seen key) tally"
  using assms unfolding tallied_def by (elim conjE allE [of _ key])

lemma tallied_None: "tallied seen tallies \<Longrightarrow> map_of tallies key = None \<Longrightarrow> occurrences seen key = []"
  using tallied_at [of seen tallies key] by simp

lemma tallied_Some:
  "tallied seen tallies \<Longrightarrow> map_of tallies key = Some tally \<Longrightarrow> tally_matches (occurrences seen key) tally"
  using tallied_at [of seen tallies key] by simp

lemma tallied_step:
  assumes t: "tallied seen tallies" and step: "tally_event limits i event tallies = Some tallies'"
    and le: "\<forall>p \<in> set seen. fst p \<le> i" and sorted: "sorted (map fst seen)"
  shows "tallied (seen @ [(i, event)]) tallies'"
proof (cases "map_of tallies (ref_key event)")
  case None
  have none: "occurrences seen (ref_key event) = []"
    by (rule tallied_None [OF t None])
  show ?thesis
    unfolding tally_event_first [OF None step]
    by (rule tallied_update [OF t]) (simp add: none tally_matches_def)
next
  case (Some tally)
  have m: "tally_matches (occurrences seen (ref_key event)) tally"
    by (rule tallied_Some [OF t Some])
  have sub: "\<forall>p \<in> set (occurrences seen (ref_key event)). fst p \<le> i" using le by (simp add: occurrences_def)
  have "sorted (map fst (occurrences seen (ref_key event)))"
    using sorted unfolding occurrences_def by (rule sorted_filter)
  note again = tally_matches_again [OF m sub this, of event]
  show ?thesis
    unfolding tally_event_again [OF Some step] by (rule tallied_update [OF t again])
qed

lemma tally_events_sound:
  assumes "tally_events limits i events tallies = Some tallies'" "tallied seen tallies"
    "\<forall>p \<in> set seen. fst p \<le> i" "sorted (map fst seen)"
  shows "tallied (seen @ map (Pair i) events) tallies'"
  using assms
proof (induction events arbitrary: seen tallies)
  case (Cons event events)
  obtain mid where mid: "tally_event limits i event tallies = Some mid"
    "tally_events limits i events mid = Some tallies'"
    using Cons.prems(1) by (auto split: option.splits)
  have "tallied ((seen @ [(i, event)]) @ map (Pair i) events) tallies'"
  proof (rule Cons.IH [OF mid(2) tallied_step [OF Cons.prems(2) mid(1) Cons.prems(3,4)]])
    show "\<forall>p \<in> set (seen @ [(i, event)]). fst p \<le> i" using Cons.prems(3) by simp
    show "sorted (map fst (seen @ [(i, event)]))" using Cons.prems(3,4) by (simp add: sorted_append)
  qed
  then show ?case by simp
qed simp

lemma tally_groups_sound:
  assumes "tally_groups limits i groups tallies = Some tallies'" "tallied seen tallies"
    "\<forall>p \<in> set seen. fst p \<le> i" "sorted (map fst seen)"
  shows "tallied (seen @ indexed_events i groups) tallies'"
  using assms
proof (induction groups arbitrary: i seen tallies)
  case (Cons grp groups)
  obtain mid where mid: "tally_events limits i (group_state grp) tallies = Some mid"
    "tally_groups limits (Suc i) groups mid = Some tallies'"
    using Cons.prems(1) by (auto split: option.splits)
  have "tallied ((seen @ map (Pair i) (group_state grp)) @ indexed_events (Suc i) groups) tallies'"
  proof (rule Cons.IH [OF mid(2) tally_events_sound [OF mid(1) Cons.prems(2-4)]])
    show "\<forall>p \<in> set (seen @ map (Pair i) (group_state grp)). fst p \<le> Suc i" using Cons.prems(3) by auto
    have "sorted (map fst (map (Pair i) (group_state grp)))" by (simp add: comp_def map_replicate_const)
    then show "sorted (map fst (seen @ map (Pair i) (group_state grp)))"
      using Cons.prems(3,4) by (auto simp: sorted_append)
  qed
  then show ?case by simp
qed simp

text \<open>The key is held by every group, always by the event with the same id; the event is its first occurrence.\<close>

definition first_of_key :: "state_group list \<Rightarrow> state_key \<Rightarrow> state_event_reference option" where
  "first_of_key groups key = find (\<lambda>event. ref_key event = key) (group_events groups)"

definition agreed_by_all :: "state_group list \<Rightarrow> state_key \<Rightarrow> bool" where
  "agreed_by_all groups key \<longleftrightarrow>
     (\<forall>grp \<in> set groups. state_group_contains grp key) \<and>
     (\<exists>eid. \<forall>event \<in> set (group_events groups). ref_key event = key \<longrightarrow> ref_event_id event = eid)"

lemma state_key_matches_eq [simp]: "state_key_matches left right \<longleftrightarrow> left = right"
  by (auto simp: state_key_matches_def)

lemma state_group_contains_iff:
  "state_group_contains grp key \<longleftrightarrow> (\<exists>event \<in> set (group_state grp). ref_key event = key)"
  by (auto simp: state_group_contains_def state_group_event_def find_None_iff)

lemma group_events_Cons [simp]: "group_events (grp # groups) = group_state grp @ group_events groups"
  by (simp add: group_events_def)

lemma group_events_Nil [simp]: "group_events [] = []"
  by (simp add: group_events_def)

lemma snd_indexed_events: "map snd (indexed_events i groups) = group_events groups"
  by (induction groups arbitrary: i) (simp_all add: comp_def)

lemma indexed_events_groups:
  "fst ` set (occurrences (indexed_events i groups) key) =
     {j. i \<le> j \<and> j < i + length groups \<and> state_group_contains (groups ! (j - i)) key}"
proof (induction groups arbitrary: i)
  case (Cons grp groups)
  have here: "fst ` set (occurrences (map (Pair i) (group_state grp)) key) =
      (if state_group_contains grp key then {i} else {})"
    by (force simp: occurrences_def state_group_contains_iff)
  have "fst ` set (occurrences (indexed_events i (grp # groups)) key) =
      fst ` set (occurrences (map (Pair i) (group_state grp)) key) \<union>
      fst ` set (occurrences (indexed_events (Suc i) groups) key)"
    by (simp add: occurrences_def image_Un)
  also have "\<dots> = (if state_group_contains grp key then {i} else {}) \<union>
      {j. Suc i \<le> j \<and> j < Suc i + length groups \<and> state_group_contains (groups ! (j - Suc i)) key}"
    by (simp only: here Cons.IH)
  also have "\<dots> = {j. i \<le> j \<and> j < i + length (grp # groups) \<and> state_group_contains ((grp # groups) ! (j - i)) key}"
  proof (intro set_eqI)
    fix j
    show "j \<in> (if state_group_contains grp key then {i} else {}) \<union>
        {j. Suc i \<le> j \<and> j < Suc i + length groups \<and> state_group_contains (groups ! (j - Suc i)) key} \<longleftrightarrow>
      j \<in> {j. i \<le> j \<and> j < i + length (grp # groups) \<and> state_group_contains ((grp # groups) ! (j - i)) key}"
    proof (cases "j = i")
      case True
      then show ?thesis by simp
    next
      case False
      then show ?thesis by (auto simp: nth_Cons')
    qed
  qed
  finally show ?case .
qed (simp add: occurrences_def)

lemma all_groups_hold:
  "card (fst ` set (occurrences (indexed_events 0 groups) key)) = length groups \<longleftrightarrow>
     (\<forall>grp \<in> set groups. state_group_contains grp key)"
proof -
  let ?S = "fst ` set (occurrences (indexed_events 0 groups) key)"
  have S: "?S = {j. j < length groups \<and> state_group_contains (groups ! j) key}"
    using indexed_events_groups [of 0 groups key] by simp
  have sub: "?S \<subseteq> {..<length groups}" unfolding S by auto
  have "card ?S = length groups \<longleftrightarrow> ?S = {..<length groups}"
    using card_subset_eq [OF finite_lessThan sub] by auto
  also have "\<dots> \<longleftrightarrow> (\<forall>j < length groups. state_group_contains (groups ! j) key)"
    unfolding S by auto
  also have "\<dots> \<longleftrightarrow> (\<forall>grp \<in> set groups. state_group_contains grp key)"
    by (simp add: all_set_conv_all_nth)
  finally show ?thesis .
qed

lemma occurrences_events: "map snd (occurrences seen key) = filter (\<lambda>e. ref_key e = key) (map snd seen)"
  by (induction seen) (auto simp: occurrences_def)

lemma find_hd_filter: "find P xs = (case filter P xs of [] \<Rightarrow> None | x # _ \<Rightarrow> Some x)"
  by (induction xs) auto

lemma single_id_iff:
  assumes "distinct ids" "set ids = ref_event_id ` set events" "events \<noteq> []"
  shows "length ids = 1 \<longleftrightarrow> (\<exists>eid. \<forall>e \<in> set events. ref_event_id e = eid)"
proof
  assume "length ids = 1"
  then obtain eid where "ids = [eid]" by (cases ids) auto
  then have "\<forall>e \<in> set events. ref_event_id e = eid" using assms(2) by auto
  then show "\<exists>eid. \<forall>e \<in> set events. ref_event_id e = eid" by (rule exI)
next
  assume "\<exists>eid. \<forall>e \<in> set events. ref_event_id e = eid"
  then obtain eid where "\<forall>e \<in> set events. ref_event_id e = eid" by (rule exE)
  then have "set ids = {eid}" using assms(2,3) by (cases events) auto
  then show "length ids = 1" using distinct_card [OF assms(1)] by simp
qed

lemma tally_agrees_iff:
  assumes "tally_matches (occurrences (indexed_events 0 groups) key) tally"
  shows "tally_agrees (length groups) tally \<longleftrightarrow> agreed_by_all groups key"
    "first_of_key groups key = Some (tally_first_event tally)"
proof -
  let ?occ = "occurrences (indexed_events 0 groups) key"
  have events: "map snd ?occ = filter (\<lambda>e. ref_key e = key) (group_events groups)"
    by (simp add: occurrences_events snd_indexed_events)
  have ids: "set (tally_event_ids tally) = ref_event_id ` set (map snd ?occ)" "map snd ?occ \<noteq> []"
    "distinct (tally_event_ids tally)"
    using assms by (simp_all add: tally_matches_def)
  have "length (tally_event_ids tally) = 1 \<longleftrightarrow> (\<exists>eid. \<forall>e \<in> set (map snd ?occ). ref_event_id e = eid)"
    by (rule single_id_iff [OF ids(3,1,2)])
  then have one: "length (tally_event_ids tally) = 1 \<longleftrightarrow>
      (\<exists>eid. \<forall>e \<in> set (group_events groups). ref_key e = key \<longrightarrow> ref_event_id e = eid)"
    unfolding events by (simp add: Ball_def imp_conjL)
  have "tally_groups_containing tally = length groups \<longleftrightarrow> (\<forall>grp \<in> set groups. state_group_contains grp key)"
    using assms all_groups_hold [of groups key] by (simp add: tally_matches_def)
  then show "tally_agrees (length groups) tally \<longleftrightarrow> agreed_by_all groups key"
    using one by (simp add: tally_agrees_def agreed_by_all_def)
  have "hd (map snd ?occ) = tally_first_event tally"
    using assms by (simp add: tally_matches_def hd_map)
  then show "first_of_key groups key = Some (tally_first_event tally)"
    using ids(2) unfolding first_of_key_def find_hd_filter events [symmetric]
    by (cases "map snd ?occ") simp_all
qed

lemma map_of_visit_map:
  assumes "visits_all order" "distinct (map fst m)"
  shows "map_of (visit_map order m) = map_of m"
proof (rule map_of_inject_set [THEN iffD2, OF _ _ visit_map_set [OF assms]])
  show "distinct (map fst (visit_map order m))" using assms by (simp add: visit_map_keys)
qed (rule assms(2))

lemma map_of_map_filter:
  assumes "distinct (map fst entries)"
  shows "map_of (map (\<lambda>(k, v). (k, f v)) (filter (\<lambda>(k, v). P v) entries)) key =
    (case map_of entries key of None \<Rightarrow> None | Some v \<Rightarrow> if P v then Some (f v) else None)"
  using assms
proof (induction entries)
  case (Cons entry entries)
  obtain k v where entry: "entry = (k, v)" by (cases entry)
  have miss: "map_of entries k = None" using Cons.prems entry by (simp add: map_of_eq_None_iff)
  show ?case using Cons miss entry by auto
qed simp

lemma distinct_map_filter:
  "distinct (map fst entries) \<Longrightarrow> distinct (map fst (map (\<lambda>(k, v). (k, f v)) (filter (\<lambda>(k, v). P v) entries)))"
  by (induction entries) (auto, force)

lemma tallied_empty: "tallied [] []"
  by (simp add: tallied_def occurrences_def)

lemma partition_sound:
  assumes p: "partition_conflicted_state orders groups limits = (unconflicted, conflicted)"
    and ok: "orders_ok orders" and some: "unconflicted \<noteq> [] \<or> conflicted \<noteq> []"
  shows "distinct (map fst unconflicted)" "distinct (map fst conflicted)"
    "map_of unconflicted key = (if agreed_by_all groups key then first_of_key groups key else None)"
    "map_of conflicted key = (if agreed_by_all groups key then None else first_of_key groups key)"
proof -
  obtain tallies where t: "tally_groups limits 0 groups [] = Some tallies"
    using p some by (auto simp: partition_conflicted_state_def split: if_splits option.splits)
  let ?entries = "visit_map (key_order orders) tallies"
  have u: "unconflicted = map (\<lambda>(key, tally). (key, tally_first_event tally))
      (filter (\<lambda>(key, tally). tally_agrees (length groups) tally) ?entries)"
    and c: "conflicted = map (\<lambda>(key, tally). (key, tally_first_event tally))
      (filter (\<lambda>(key, tally). \<not> tally_agrees (length groups) tally) ?entries)"
    using p some t by (auto simp: partition_conflicted_state_def Let_def split: if_splits)
  have tallied: "tallied (indexed_events 0 groups) tallies"
    using tally_groups_sound [OF t tallied_empty] by simp
  then have d: "distinct (map fst tallies)" by (simp add: tallied_def)
  have vis: "visits_all (key_order orders)" using ok by (simp add: orders_ok_def)
  have entries: "distinct (map fst ?entries)" "map_of ?entries = map_of tallies"
    using vis d map_of_visit_map by (simp_all add: visit_map_keys)
  show "distinct (map fst unconflicted)" "distinct (map fst conflicted)"
    unfolding u c by (rule distinct_map_filter [OF entries(1)])+
  note maps = map_of_map_filter [OF entries(1), where f = tally_first_event and key = key]
  have "map_of unconflicted key = (if agreed_by_all groups key then first_of_key groups key else None) \<and>
    map_of conflicted key = (if agreed_by_all groups key then None else first_of_key groups key)"
  proof (cases "map_of tallies key")
    case None
    have "first_of_key groups key = None"
      using tallied_None [OF tallied None]
      unfolding first_of_key_def find_hd_filter snd_indexed_events [of 0, symmetric] occurrences_events [symmetric]
      by simp
    then show ?thesis unfolding u c maps entries(2) None by simp
  next
    case (Some tally)
    note iff = tally_agrees_iff [OF tallied_Some [OF tallied Some]]
    show ?thesis unfolding u c maps entries(2) Some by (simp add: iff)
  qed
  then show "map_of unconflicted key = (if agreed_by_all groups key then first_of_key groups key else None)"
    "map_of conflicted key = (if agreed_by_all groups key then None else first_of_key groups key)"
    by (rule conjunct1, rule conjunct2)
qed

section \<open>Authorized states\<close>

lemma own_auth_entries_reads: "own_auth_entries auth wanted src = (r, src') \<Longrightarrow> reads src src'"
proof (induction auth arbitrary: src)
  case (Cons entry auth)
  show ?case
  proof (cases "auth_entry_event_id entry")
    case None
    then show ?thesis using Cons by simp
  next
    case (Some eid)
    obtain x s where f: "find_optional src eid = (x, s)" by force
    have rd: "reads src s" using f unfolding find_optional_def by (rule fetch_reads)
    have IH: "reads src src'" if "own_auth_entries auth wanted s = (r, src')"
      using rd Cons.IH [OF that] by (rule reads_trans)
    show ?thesis
      using Cons.prems Some f rd IH by (auto simp: Let_def split: option.splits if_splits)
  qed
qed simp

lemma auth_slot_reads: "auth_slot obj state key src = (r, src') \<Longrightarrow> reads src src'"
  by (auto simp: auth_slot_def find_own_auth_event_def split: option.splits dest: own_auth_entries_reads)

lemma optional_slot_reads: "optional_slot obj state wanted src = (r, src') \<Longrightarrow> reads src src'"
  by (auto simp: optional_slot_def split: option.splits prod.splits dest: auth_slot_reads)

lemma build_auth_event_map_reads:
  assumes "build_auth_event_map_from_state event state src = (m, src')"
  shows "reads src src'"
proof (cases "value_is_object event")
  case None
  then show ?thesis using assms by (simp add: build_auth_event_map_from_state_def)
next
  case (Some obj)
  show ?thesis
    using assms Some
    by (auto simp: build_auth_event_map_from_state_def Let_def split: prod.splits
        dest!: auth_slot_reads optional_slot_reads) (meson reads_trans)
qed

text \<open>
  The states the iterative auth checks can reach: each step replaces one key by a candidate that the
  authorization rules allow against the state so far and the candidate's own auth events.
\<close>

definition passes_auth ::
    "sodium \<Rightarrow> room_version_policy \<Rightarrow> auth_chain_event_source \<Rightarrow> state_map \<Rightarrow> state_event_reference \<Rightarrow> bool" where
  "passes_auth na policy src state event \<longleftrightarrow>
     value_has_content (ref_event_json event) \<and>
     (\<exists>s. reads src s \<and>
        allowed (authorize_event_against_auth_events na (ref_event_json event) policy
          (fst (build_auth_event_map_from_state (ref_event_json event) state s))))"

inductive authorized_from ::
    "sodium \<Rightarrow> room_version_policy \<Rightarrow> auth_chain_event_source \<Rightarrow> state_event_reference set \<Rightarrow> state_map
      \<Rightarrow> state_map \<Rightarrow> bool"
  for na policy src candidates start where
  authorized_start: "authorized_from na policy src candidates start start"
| authorized_step: "authorized_from na policy src candidates start state \<Longrightarrow> event \<in> candidates \<Longrightarrow>
     passes_auth na policy src state event \<Longrightarrow>
     authorized_from na policy src candidates start (map_assign (ref_key event) event state)"

lemma iterative_checks_authorized:
  assumes "apply_iterative_auth_checks na policy events state s = (state', s')"
    "authorized_from na policy src candidates start state" "set events \<subseteq> candidates" "reads src s"
  shows "authorized_from na policy src candidates start state' \<and> reads src s'"
  using assms
proof (induction events arbitrary: state s)
  case (Cons event events)
  show ?case
  proof (cases "value_has_content (ref_event_json event)")
    case False
    then show ?thesis using Cons by simp
  next
    case True
    obtain m t where b: "build_auth_event_map_from_state (ref_event_json event) state s = (m, t)" by force
    have rd: "reads src t" using Cons.prems(4) build_auth_event_map_reads [OF b] by (rule reads_trans)
    define state1 where "state1 =
      (if allowed (authorize_event_against_auth_events na (ref_event_json event) policy m)
       then map_assign (ref_key event) event state else state)"
    have rest: "apply_iterative_auth_checks na policy events state1 t = (state', s')"
      using Cons.prems(1) True b by (simp add: state1_def)
    have "passes_auth na policy src state event"
      if "allowed (authorize_event_against_auth_events na (ref_event_json event) policy m)"
      unfolding passes_auth_def using True Cons.prems(4) b that by (intro conjI exI [of _ s]) simp_all
    then have "authorized_from na policy src candidates start state1"
      using Cons.prems(2,3) by (auto simp: state1_def intro: authorized_step)
    then show ?thesis
      using Cons.IH [OF rest _ _ rd] Cons.prems(3) by simp
  qed
qed simp

text \<open>Where an event of a reached state comes from, and that states keep their shape.\<close>

definition keyed :: "state_map \<Rightarrow> bool" where
  "keyed state \<longleftrightarrow> distinct (map fst state) \<and> (\<forall>key event. map_of state key = Some event \<longrightarrow> ref_key event = key)"

lemma keyed_assign: "keyed state \<Longrightarrow> keyed (map_assign (ref_key event) event state)"
  by (auto simp: keyed_def)

lemma authorized_keyed: "authorized_from na policy src candidates start state \<Longrightarrow> keyed start \<Longrightarrow> keyed state"
  by (induction rule: authorized_from.induct) (auto intro: keyed_assign)

lemma authorized_origin:
  assumes "authorized_from na policy src candidates start state" "map_of state key = Some event"
  shows "map_of start key = Some event \<or>
    (event \<in> candidates \<and> (\<exists>state'. authorized_from na policy src candidates start state' \<and>
       passes_auth na policy src state' event))"
  using assms
proof (induction arbitrary: key event rule: authorized_from.induct)
  case (authorized_step state new)
  then show ?case by (cases "key = ref_key new") auto
qed simp

section \<open>The full conflicted set\<close>

lemma materialize_ref_reads: "materialize_ref eid src = (r, src') \<Longrightarrow> reads src src'"
  by (auto simp: materialize_ref_def split: prod.splits option.splits dest: find_required_reads)

lemma materialize_ref_sound:
  assumes "materialize_ref eid src = (Some ref, src')" "source_ok src"
  shows "ref_event_id ref = eid" "source_event src eid = Some (ref_event_json ref)"
  using assms
  by (auto simp: materialize_ref_def split: prod.splits option.splits dest: find_required_event)

lemma materialize_all_reads: "materialize_all ids full src = (r, src') \<Longrightarrow> reads src src'"
proof (induction ids arbitrary: full src)
  case (Cons eid ids)
  obtain x s where m: "materialize_ref eid src = (x, s)" by force
  have rd: "reads src s" by (rule materialize_ref_reads [OF m])
  have IH: "reads src src'" if "materialize_all ids full' s = (r, src')" for full'
    using rd Cons.IH [OF that] by (rule reads_trans)
  show ?case using Cons m rd IH by (auto split: if_splits option.splits)
qed simp

lemma materialize_all_sound:
  assumes "materialize_all ids full src = (Some full', src')" "source_ok src" "distinct (map fst full)"
  shows "distinct (map fst full') \<and>
    (\<forall>p \<in> set full'. p \<in> set full \<or> source_event src (ref_event_id (snd p)) = Some (ref_event_json (snd p)))"
  using assms
proof (induction ids arbitrary: full src)
  case (Cons eid ids)
  show ?case
  proof (cases "map_of full eid")
    case (Some x)
    then have "materialize_all ids full src = (Some full', src')" using Cons.prems(1) by simp
    then show ?thesis using Cons.prems(2,3) by (rule Cons.IH)
  next
    case None
    obtain x s where m: "materialize_ref eid src = (x, s)" by force
    have rd: "reads src s" by (rule materialize_ref_reads [OF m])
    obtain ref where x: "x = Some ref" using Cons.prems(1) None m by (cases x) simp_all
    have rest: "materialize_all ids (map_emplace eid ref full) s = (Some full', src')"
      using Cons.prems(1) None m x by simp
    have "distinct (map fst (map_emplace eid ref full))" using Cons.prems(3) by simp
    note IH = Cons.IH [OF rest reads_ok [OF rd Cons.prems(2)] this]
    have ref: "source_event src (ref_event_id ref) = Some (ref_event_json ref)"
      using materialize_ref_sound [OF m [unfolded x] Cons.prems(2)] by simp
    have "p \<in> set full \<or> source_event src (ref_event_id (snd p)) = Some (ref_event_json (snd p))"
      if p: "p \<in> set full'" for p
    proof (cases "p \<in> set (map_emplace eid ref full)")
      case True
      then show ?thesis using map_emplace_in [OF True] ref by auto
    next
      case False
      then show ?thesis using bspec [OF conjunct2 [OF IH] p] rd by simp
    qed
    then show ?thesis using IH by simp
  qed
qed simp

lemma emplace_events_distinct [simp]:
  "distinct (map fst (emplace_events events full)) \<longleftrightarrow> distinct (map fst full)"
  by (induction events arbitrary: full) simp_all

lemma emplace_events_in: "p \<in> set (emplace_events events full) \<Longrightarrow> p \<in> set full \<or> snd p \<in> set events"
proof (induction events arbitrary: full)
  case (Cons event events)
  have "p \<in> set (map_emplace (ref_event_id event) event full) \<or> snd p \<in> set events"
    by (rule Cons.IH) (use Cons.prems in simp)
  then show ?case using map_emplace_in [of p "ref_event_id event" event full] by auto
qed simp

text \<open>The events the checks run over: given by the groups, or read from the source.\<close>

definition candidate :: "state_group list \<Rightarrow> auth_chain_event_source \<Rightarrow> state_event_reference \<Rightarrow> bool" where
  "candidate groups src event \<longleftrightarrow>
     event \<in> set (group_events groups) \<or> source_event src (ref_event_id event) = Some (ref_event_json event)"

lemma gather_conflicted_subset:
  "gather_conflicted limits conflicted events seen gathered = Some out \<Longrightarrow> set out \<subseteq> set gathered \<union> set events"
proof (induction events arbitrary: seen gathered)
  case (Cons event events)
  show ?case
  proof (cases "map_of conflicted (ref_key event) = None \<or> (ref_key event, ref_event_id event) \<in> set seen")
    case True
    then show ?thesis using Cons by auto
  next
    case False
    then have "gather_conflicted limits conflicted events (set_insert (ref_key event, ref_event_id event) seen)
        (gathered @ [event]) = Some out"
      using Cons.prems by (auto split: if_splits)
    from Cons.IH [OF this] show ?thesis by auto
  qed
qed simp

lemma candidates_extend:
  assumes "\<forall>p \<in> set full'. p \<in> set full \<or> source_event src (ref_event_id (snd p)) = Some (ref_event_json (snd p))"
    "snd ` set full \<subseteq> Collect (candidate groups src)"
  shows "snd ` set full' \<subseteq> Collect (candidate groups src)"
proof
  fix event assume "event \<in> snd ` set full'"
  then obtain p where p: "p \<in> set full'" "event = snd p" by (rule imageE)
  from bspec [OF assms(1) p(1)] show "event \<in> Collect (candidate groups src)"
  proof
    assume "p \<in> set full"
    then show ?thesis using assms(2) p(2) by blast
  qed (simp add: candidate_def p(2))
qed

lemma emplaced_candidates:
  assumes "set events \<subseteq> set (group_events groups)"
  shows "snd ` set (emplace_events events []) \<subseteq> Collect (candidate groups src)"
proof
  fix event assume "event \<in> snd ` set (emplace_events events [])"
  then obtain p where "p \<in> set (emplace_events events [])" "event = snd p" by (rule imageE)
  then have "event \<in> set events" using emplace_events_in [of p events "[]"] by simp
  then show "event \<in> Collect (candidate groups src)" using assms by (auto simp: candidate_def)
qed

lemma full_conflicted_set_sound:
  assumes f: "full_conflicted_set orders request policy conflicted src = (Inr full, src')"
    and ok: "source_ok src" and sub: "set conflicted \<subseteq> set (group_events (request_state_groups request))"
  shows "reads src src'" "distinct (map fst full)"
    "snd ` set full \<subseteq> Collect (candidate (request_state_groups request) src)"
proof -
  let ?cap = "limit_auth_chain_walk_events (request_limits request)"
  obtain difference s1 where d: "compute_auth_difference (request_state_groups request) src ?cap = (Some difference, s1)"
    and nm: "\<not> source_missing s1"
    using f by (auto simp: full_conflicted_set_def Let_def split: prod.splits option.splits if_splits)
  have r1: "reads src s1" by (rule compute_auth_difference_reads [OF d])
  obtain full1 s2 where m: "materialize_all (id_order orders difference) (emplace_events conflicted []) s1 =
      (Some full1, s2)"
    using f d nm by (auto simp: full_conflicted_set_def Let_def split: prod.splits option.splits)
  have "distinct (map fst (emplace_events conflicted []))" by simp
  note ms = materialize_all_sound [OF m reads_ok [OF r1 ok] this]
  have r2: "reads src s2" using r1 materialize_all_reads [OF m] by (rule reads_trans)
  have full1: "distinct (map fst full1)"
    "snd ` set full1 \<subseteq> Collect (candidate (request_state_groups request) src)"
    using ms candidates_extend [OF _ emplaced_candidates [OF sub], of full1 src] r1 by simp_all
  have "reads src src' \<and> distinct (map fst full) \<and>
      snd ` set full \<subseteq> Collect (candidate (request_state_groups request) src)"
  proof (cases "state_resolution_of policy = State_v2_1")
    case False
    then have "full = full1" "src' = s2"
      using f d nm m by (simp_all add: full_conflicted_set_def Let_def)
    then show ?thesis using r2 full1 by simp
  next
    case True
    obtain y s3 where c: "compute_conflicted_state_subgraph (id_order orders)
        (fold set_insert (map ref_event_id conflicted) []) s2 ?cap = (y, s3)" by force
    obtain sub_ids where y: "y = Some sub_ids" and nm3: "\<not> source_missing s3"
      and m2: "materialize_all (id_order orders sub_ids) full1 s3 = (Some full, src')"
      using f d nm m True c
      by (auto simp: full_conflicted_set_def Let_def split: prod.splits option.splits if_splits)
    have r3: "reads src s3" using r2 compute_conflicted_state_subgraph_reads [OF c] by (rule reads_trans)
    note ms2 = materialize_all_sound [OF m2 reads_ok [OF r3 ok] full1(1)]
    have "reads src src'" using r3 materialize_all_reads [OF m2] by (rule reads_trans)
    moreover have "snd ` set full \<subseteq> Collect (candidate (request_state_groups request) src)"
      using ms2 candidates_extend [OF _ full1(2), of full] r3 by simp
    ultimately show ?thesis using ms2 full1(1) by simp
  qed
  then show "reads src src'" "distinct (map fst full)"
    "snd ` set full \<subseteq> Collect (candidate (request_state_groups request) src)" by simp_all
qed

section \<open>Resolution of the conflicted events\<close>

lemma select_ancestors_subset:
  "select_ancestors full ancestors (selected, chosen, queue) = (selected', chosen', queue') \<Longrightarrow>
    set chosen \<subseteq> snd ` set full \<Longrightarrow> set chosen' \<subseteq> snd ` set full"
proof (induction ancestors arbitrary: selected chosen queue)
  case (Cons ancestor ancestors)
  show ?case
  proof (cases "map_of full ancestor")
    case None
    then show ?thesis using Cons by simp
  next
    case (Some event)
    then have event: "event \<in> snd ` set full" by (force dest: map_of_SomeD)
    show ?thesis
    proof (cases "ancestor \<in> set selected")
      case True
      then show ?thesis using Cons Some by simp
    next
      case False
      then have "select_ancestors full ancestors (selected @ [ancestor], chosen @ [event], ancestor # queue) =
          (selected', chosen', queue')"
        using Cons.prems(1) Some by simp
      then show ?thesis by (rule Cons.IH) (use Cons.prems(2) event in simp)
    qed
  qed
qed simp

lemma enlarge_sound:
  assumes "enlarge_power_events order cap full queue selected chosen s = (Some (selected', chosen'), s')"
    "set chosen \<subseteq> snd ` set full" "reads src s"
  shows "set chosen' \<subseteq> snd ` set full \<and> reads src s'"
  using assms
proof (induction order cap full queue selected chosen s rule: enlarge_power_events.induct)
  case (2 order cap full eid queue selected chosen s)
  obtain event where event: "map_of full eid = Some event"
    using "2.prems"(1) by (cases "map_of full eid") simp_all
  obtain x t where w: "walk_auth_chain (ref_event_json event) s cap = (x, t)" by force
  obtain chain where x: "x = Some chain" and nm: "\<not> source_missing t"
    using "2.prems"(1) event w by (cases x) (simp_all split: if_splits)
  obtain sel ch q where a: "select_ancestors full (order chain) (selected, chosen, queue) = (sel, ch, q)"
    by (metis prod_cases3)
  have rest: "enlarge_power_events order cap full q sel ch t = (Some (selected', chosen'), s')"
    using "2.prems"(1) event w x nm a by simp
  have rd: "reads src t" using "2.prems"(3) walk_auth_chain_reads [OF w] by (rule reads_trans)
  show ?case
    by (rule "2.IH" [OF event w [symmetric] x nm a [symmetric] refl rest
          select_ancestors_subset [OF a "2.prems"(2)] rd])
qed simp

lemma resolve_conflicted_sound:
  assumes r: "resolve_conflicted na orders request policy known full start s = Inr resolved"
    and ok: "orders_ok orders" and d: "distinct (map fst full)" and rd: "reads src s"
  shows "authorized_from na policy src (snd ` set full) start resolved"
proof -
  let ?limits = "request_limits request"
  let ?entries = "visit_map (id_order orders) full"
  let ?power = "filter (\<lambda>(eid, event). is_power_event event) ?entries"
  have entries: "set ?entries = set full"
    using ok d by (intro visit_map_set) (simp_all add: orders_ok_def)
  obtain x s1 where e: "enlarge_power_events (id_order orders) (limit_auth_chain_walk_events ?limits) full
      (rev (id_order orders (map fst ?power))) (map fst ?power) (map snd ?power) s = (x, s1)" by force
  obtain selected power_events where x: "x = Some (selected, power_events)"
    using r e by (cases x) (auto simp: resolve_conflicted_def Let_def)
  have "set (map snd ?power) \<subseteq> snd ` set full" using entries by auto
  note enl = enlarge_sound [OF e [unfolded x] this rd]
  let ?remaining = "map snd (filter (\<lambda>(eid, event). eid \<notin> set selected) ?entries)"
  obtain power_sorted where p: "reverse_topological_power_sort power_events known (request_event_lookup request)
      policy ?limits = Some power_sorted"
    using r e x by (auto simp: resolve_conflicted_def Let_def split: option.splits)
  have "set power_sorted = set power_events"
    using reverse_topological_power_sort_sound(1) [OF p] by (rule mset_eq_setD)
  then have sub: "set power_sorted \<subseteq> snd ` set full" using enl by simp
  obtain mid s2 where a: "apply_iterative_auth_checks na policy power_sorted start s1 = (mid, s2)" by force
  have mid: "authorized_from na policy src (snd ` set full) start mid" "reads src s2"
    using iterative_checks_authorized [OF a authorized_start sub] enl by simp_all
  obtain ordered rest s3 where m: "mainline_order_with_source ?remaining mid s2 ?limits = (ordered, rest, s3)"
    by (metis prod_cases3)
  have mr: "reads s2 s3" "mset rest = mset ?remaining"
    using mainline_order_with_source_reads [OF m] by simp_all
  have resolved: "resolved = fst (apply_iterative_auth_checks na policy rest mid s3)"
    using r e x p a m by (simp add: resolve_conflicted_def Let_def split: if_splits)
  obtain final s4 where f: "apply_iterative_auth_checks na policy rest mid s3 = (final, s4)" by force
  have "set rest \<subseteq> snd ` set full" using mset_eq_setD [OF mr(2)] entries by auto
  then show ?thesis
    using iterative_checks_authorized [OF f mid(1) _ reads_trans [OF mid(2) mr(1)]] resolved f by simp
qed

section \<open>The starting state and the final one\<close>

lemma starting_state_sound:
  assumes st: "starting_state request policy unconflicted s = (Inr start, s')" and k: "keyed unconflicted"
    and ok: "source_ok s"
  shows "reads s s'" "keyed start"
    "\<forall>key event. map_of start key = Some event \<longrightarrow> map_of unconflicted key = Some event \<or>
       (state_resolution_of policy = State_v2_1 \<and> key = state_key_of ''m.room.create'' '''' \<and>
        ref_event_id event = ''$'' @ tl (request_room_id request) \<and>
        source_event s (ref_event_id event) = Some (ref_event_json event))"
proof -
  let ?create = "state_key_of ''m.room.create'' ''''"
  have one: "keyed [(?create, event)]" if "ref_key event = ?create" for event
    using that by (simp add: keyed_def)
  have "reads s s' \<and> keyed start \<and>
    (\<forall>key event. map_of start key = Some event \<longrightarrow> map_of unconflicted key = Some event \<or>
       (state_resolution_of policy = State_v2_1 \<and> key = ?create \<and>
        ref_event_id event = ''$'' @ tl (request_room_id request) \<and>
        source_event s (ref_event_id event) = Some (ref_event_json event)))"
  proof (cases "state_resolution_of policy = State_v2_1")
    case False
    then show ?thesis using st k by (simp add: starting_state_def Let_def)
  next
    case v: True
    show ?thesis
    proof (cases "2 \<le> length (request_room_id request) \<and> hd (request_room_id request) = CHR ''!''")
      case True
      obtain x t where m: "materialize_ref (''$'' @ tl (request_room_id request)) s = (x, t)" by force
      obtain create where x: "x = Some create" and key: "ref_key create = ?create"
        and start: "start = [(?create, create)]" "s' = t"
        using st v True m by (cases x) (auto simp: starting_state_def Let_def split: if_splits)
      have "ref_event_id create = ''$'' @ tl (request_room_id request)"
        "source_event s (ref_event_id create) = Some (ref_event_json create)"
        using materialize_ref_sound [OF m [unfolded x] ok] by simp_all
      then show ?thesis using start v one [OF key] materialize_ref_reads [OF m] by simp
    next
      case False
      show ?thesis
      proof (cases "map_of unconflicted ?create")
        case None
        then show ?thesis using st v False by (auto simp: starting_state_def Let_def keyed_def)
      next
        case (Some create)
        then have "ref_key create = ?create" using k by (simp add: keyed_def)
        moreover have "start = [(?create, create)]" "s' = s"
          using st v False Some by (auto simp: starting_state_def Let_def)
        ultimately show ?thesis using Some one by simp
      qed
    qed
  qed
  then show "reads s s'" "keyed start"
    "\<forall>key event. map_of start key = Some event \<longrightarrow> map_of unconflicted key = Some event \<or>
       (state_resolution_of policy = State_v2_1 \<and> key = ?create \<and>
        ref_event_id event = ''$'' @ tl (request_room_id request) \<and>
        source_event s (ref_event_id event) = Some (ref_event_json event))"
    by simp_all
qed

lemma map_of_override:
  "distinct (map fst unconflicted) \<Longrightarrow>
    map_of (override_state unconflicted resolved) = map_of resolved ++ map_of unconflicted"
proof (induction unconflicted arbitrary: resolved)
  case (Cons entry unconflicted)
  obtain key event where entry: "entry = (key, event)" by (cases entry)
  then have none: "map_of unconflicted key = None" using Cons.prems by (simp add: map_of_eq_None_iff)
  have "override_state (entry # unconflicted) resolved = override_state unconflicted (map_assign key event resolved)"
    by (simp add: override_state_def entry)
  then have "map_of (override_state (entry # unconflicted) resolved) =
      (map_of resolved)(key \<mapsto> event) ++ map_of unconflicted"
    using Cons.IH [of "map_assign key event resolved"] Cons.prems by (simp add: fun_upd_def)
  also have "\<dots> = map_of resolved ++ map_of (entry # unconflicted)"
  proof
    fix k
    show "((map_of resolved)(key \<mapsto> event) ++ map_of unconflicted) k =
        (map_of resolved ++ map_of (entry # unconflicted)) k"
      using none entry by (cases "k = key") (simp_all add: map_add_def split: option.split)
  qed
  finally show ?case .
qed (simp add: override_state_def)

lemma distinct_override:
  "distinct (map fst resolved) \<Longrightarrow> distinct (map fst (override_state unconflicted resolved))"
  unfolding override_state_def by (induction unconflicted arbitrary: resolved) auto

lemma keyed_override:
  assumes "keyed unconflicted" "keyed resolved"
  shows "keyed (override_state unconflicted resolved)"
  using assms distinct_override [of resolved unconflicted]
  by (auto simp: keyed_def map_of_override map_add_Some_iff simp del: map_of_eq_Some_iff)

section \<open>The resolved state\<close>

definition resolution_source :: "state_resolution_request \<Rightarrow> auth_chain_event_source" where
  "resolution_source request =
     new_event_source (build_event_json_index (request_state_groups request)) (request_event_lookup request)
       (limit_auth_chain_walk_events (request_limits request))
       (rejected_ids (group_events (request_state_groups request)))"

text \<open>
  An event that needs no check: all groups agree on it, or it is the create event the room id names, as the
  groups or the caller's lookup have it.
\<close>

definition trusted_event ::
    "state_resolution_request \<Rightarrow> room_version_policy \<Rightarrow> state_event_reference \<Rightarrow> bool" where
  "trusted_event request policy event \<longleftrightarrow>
     (agreed_by_all (request_state_groups request) (ref_key event) \<and>
      first_of_key (request_state_groups request) (ref_key event) = Some event) \<or>
     (state_resolution_of policy = State_v2_1 \<and> ref_key event = state_key_of ''m.room.create'' '''' \<and>
      ref_event_id event = ''$'' @ tl (request_room_id request) \<and>
      source_event (resolution_source request) (ref_event_id event) = Some (ref_event_json event))"

text \<open>A candidate allowed against a state that was itself reached from trusted events by allowed candidates.\<close>

definition authorized_event ::
    "sodium \<Rightarrow> state_resolution_request \<Rightarrow> room_version_policy \<Rightarrow> state_event_reference \<Rightarrow> bool" where
  "authorized_event na request policy event \<longleftrightarrow>
     (\<exists>start state.
        (\<forall>e \<in> snd ` set start. trusted_event request policy e) \<and>
        authorized_from na policy (resolution_source request)
          (Collect (candidate (request_state_groups request) (resolution_source request))) start state \<and>
        candidate (request_state_groups request) (resolution_source request) event \<and>
        passes_auth na policy (resolution_source request) state event)"

lemma authorized_from_mono:
  "authorized_from na policy src A start state \<Longrightarrow> A \<subseteq> B \<Longrightarrow> authorized_from na policy src B start state"
  by (induction rule: authorized_from.induct) (auto intro: authorized_start authorized_step)

lemma keyed_entry: "keyed state \<Longrightarrow> event \<in> snd ` set state \<Longrightarrow> map_of state (ref_key event) = Some event"
  by (force simp: keyed_def)

lemma partition_keyed:
  assumes "partition_conflicted_state orders groups limits = (unconflicted, conflicted)" "orders_ok orders"
    "unconflicted \<noteq> [] \<or> conflicted \<noteq> []"
  shows "keyed unconflicted"
proof -
  note p = partition_sound [OF assms]
  have "ref_key event = key" if "map_of unconflicted key = Some event" for key event
    using that unfolding p(3) first_of_key_def by (auto simp: find_Some_iff split: if_splits)
  then show ?thesis using p(1) by (simp add: keyed_def)
qed

lemma unconflicted_agreed:
  assumes "partition_conflicted_state orders groups limits = (unconflicted, conflicted)" "orders_ok orders"
    "unconflicted \<noteq> [] \<or> conflicted \<noteq> []"
  shows "map_of unconflicted key = Some event \<longleftrightarrow> agreed_by_all groups key \<and> first_of_key groups key = Some event"
  unfolding partition_sound(3) [OF assms] by simp

lemma unconflicted_trusted:
  assumes "partition_conflicted_state orders (request_state_groups request) limits = (unconflicted, conflicted)"
    "orders_ok orders" "unconflicted \<noteq> [] \<or> conflicted \<noteq> []" "map_of unconflicted key = Some event"
  shows "trusted_event request policy event"
proof -
  have "ref_key event = key" using partition_keyed [OF assms(1-3)] assms(4) by (simp add: keyed_def)
  then show ?thesis using unconflicted_agreed [OF assms(1-3), of key event] assms(4) by (simp add: trusted_event_def)
qed

text \<open>Step 5 of the algorithm on a state reached from the starting one.\<close>

lemma checked_state_sound:
  assumes p: "partition_conflicted_state orders (request_state_groups request) limits = (unconflicted, conflicted)"
      "orders_ok orders" "unconflicted \<noteq> [] \<or> conflicted \<noteq> []"
    and st: "starting_state request policy unconflicted s = (Inr start, s')"
    and s: "source_ok s" "reads (resolution_source request) s"
    and a: "authorized_from na policy (resolution_source request) C start resolved"
    and C: "C \<subseteq> Collect (candidate (request_state_groups request) (resolution_source request))"
    and e: "event \<in> snd ` set (override_state unconflicted resolved)"
  shows "trusted_event request policy event \<or> authorized_event na request policy event"
proof -
  have ku: "keyed unconflicted" by (rule partition_keyed [OF p])
  note start = starting_state_sound [OF st ku s(1)]
  note same = reads_event [OF s(2)]
  have kr: "keyed resolved" by (rule authorized_keyed [OF a start(2)])
  have trusted: "trusted_event request policy x" if x: "map_of start key = Some x" for key x
  proof -
    have key: "ref_key x = key" using start(2) x by (simp add: keyed_def)
    from start(3) [rule_format, OF x] show ?thesis
    proof
      assume "map_of unconflicted key = Some x"
      then show ?thesis by (rule unconflicted_trusted [OF p])
    qed (auto simp: trusted_event_def key same)
  qed
  have "map_of (override_state unconflicted resolved) (ref_key event) = Some event"
    by (rule keyed_entry [OF keyed_override [OF ku kr] e])
  moreover have "distinct (map fst unconflicted)" using ku unfolding keyed_def by (rule conjunct1)
  ultimately have "(map_of resolved ++ map_of unconflicted) (ref_key event) = Some event"
    using map_of_override [of unconflicted resolved] by simp
  then consider "map_of unconflicted (ref_key event) = Some event" | "map_of resolved (ref_key event) = Some event"
    unfolding map_add_Some_iff by (elim disjE conjE)
  then show ?thesis
  proof cases
    case 1
    then show ?thesis using unconflicted_trusted [OF p 1] by simp
  next
    case 2
    from authorized_origin [OF a 2] show ?thesis
    proof (elim disjE conjE exE)
      assume "map_of start (ref_key event) = Some event"
      then show ?thesis by (intro disjI1 trusted)
    next
      fix state assume c: "event \<in> C" "authorized_from na policy (resolution_source request) C start state"
        "passes_auth na policy (resolution_source request) state event"
      have "\<forall>x \<in> snd ` set start. trusted_event request policy x"
        by (rule ballI) (rule trusted [OF keyed_entry [OF start(2)]])
      moreover have "candidate (request_state_groups request) (resolution_source request) event"
        using c(1) C by auto
      ultimately have "authorized_event na request policy event"
        unfolding authorized_event_def using authorized_from_mono [OF c(2) C] c(3)
        by (intro exI [of _ start] exI [of _ state] conjI)
      then show ?thesis by (rule disjI2)
    qed
  qed
qed

text \<open>What a successful resolution has computed.\<close>

lemma resolve_state_v2_cases:
  assumes res: "result_resolved (resolve_state_v2 na orders request policy)" and "request_state_groups request \<noteq> []"
  obtains (agreed) unconflicted conflicted where
    "partition_conflicted_state orders (request_state_groups request) (request_limits request) =
       (unconflicted, conflicted)"
    "unconflicted \<noteq> [] \<or> conflicted \<noteq> []"
    "result_state (resolve_state_v2 na orders request policy) = map snd (visit_map (key_order orders) unconflicted)"
  | (checked) unconflicted conflicted all_conflicted full s1 start s2 resolved where
    "partition_conflicted_state orders (request_state_groups request) (request_limits request) =
       (unconflicted, conflicted)"
    "unconflicted \<noteq> [] \<or> conflicted \<noteq> []"
    "set all_conflicted \<subseteq> set (group_events (request_state_groups request))"
    "full_conflicted_set orders request policy all_conflicted (resolution_source request) = (Inr full, s1)"
    "starting_state request policy unconflicted s1 = (Inr start, s2)"
    "resolve_conflicted na orders request policy (build_event_json_index (request_state_groups request))
       full start s2 = Inr resolved"
    "result_state (resolve_state_v2 na orders request policy) =
       map snd (visit_map (key_order orders)
         (override_state (visit_map (key_order orders) unconflicted) resolved))"
proof -
  obtain unconflicted conflicted where p: "partition_conflicted_state orders (request_state_groups request)
      (request_limits request) = (unconflicted, conflicted)" by force
  have valid: "validate_state_resolution_request request = None"
    using res by (cases "validate_state_resolution_request request")
      (simp_all add: resolve_state_v2_def resolution_failed_def)
  have some: "unconflicted \<noteq> [] \<or> conflicted \<noteq> []"
    using res assms(2) p valid by (auto simp: resolve_state_v2_def resolution_failed_def)
  then have guard: "\<not> (unconflicted = [] \<and> conflicted = [])" by blast
  obtain all_conflicted where g: "gather_conflicted (request_limits request) conflicted
      (group_events (request_state_groups request)) [] [] = Some all_conflicted"
    using res assms(2) p valid guard
    by (cases "gather_conflicted (request_limits request) conflicted
      (group_events (request_state_groups request)) [] []") (simp_all add: resolve_state_v2_def resolution_failed_def)
  show thesis
  proof (cases "all_conflicted = []")
    case True
    then show thesis
      using agreed [OF p some] assms(2) p valid guard g by (simp add: resolve_state_v2_def resolution_of_def)
  next
    case False
    obtain x s1 where f: "full_conflicted_set orders request policy all_conflicted (resolution_source request) = (x, s1)"
      by force
    note step = resolve_state_v2_def resolution_failed_def resolution_of_def Let_def resolution_source_def
    obtain full where x: "x = Inr full"
      using res assms(2) p valid guard g False f by (cases x) (simp_all add: step)
    obtain y s2 where st: "starting_state request policy unconflicted s1 = (y, s2)" by force
    obtain start where y: "y = Inr start"
      using res assms(2) p valid guard g False f x st by (cases y) (simp_all add: step)
    obtain resolved where r: "resolve_conflicted na orders request policy
        (build_event_json_index (request_state_groups request)) full start s2 = Inr resolved"
      using res assms(2) p valid guard g False f x st y
      by (cases "resolve_conflicted na orders request policy
        (build_event_json_index (request_state_groups request)) full start s2") (simp_all add: step)
    have sub: "set all_conflicted \<subseteq> set (group_events (request_state_groups request))"
      using gather_conflicted_subset [OF g] by simp
    show thesis
      using checked [OF p some sub f [unfolded x] st [unfolded y] r]
        assms(2) p valid guard g False f x st y r by (simp add: step)
  qed
qed

lemma visited_state:
  assumes "orders_ok orders" "keyed state"
  shows "distinct (map ref_key (map snd (visit_map (key_order orders) state)))"
    "set (map snd (visit_map (key_order orders) state)) = snd ` set state"
proof -
  have vis: "visits_all (key_order orders)" "distinct (map fst state)"
    using assms by (simp_all add: orders_ok_def keyed_def)
  note set = visit_map_set [OF vis]
  show "set (map snd (visit_map (key_order orders) state)) = snd ` set state" using set by simp
  have "map ref_key (map snd (visit_map (key_order orders) state)) = map fst (visit_map (key_order orders) state)"
    unfolding map_map
  proof (rule map_cong [OF refl])
    fix p assume "p \<in> set (visit_map (key_order orders) state)"
    then have "(fst p, snd p) \<in> set state" using set by simp
    then have "map_of state (fst p) = Some (snd p)" by (rule map_of_is_SomeI [OF vis(2)])
    then show "(ref_key \<circ> snd) p = fst p" using assms(2) by (simp add: keyed_def)
  qed
  then show "distinct (map ref_key (map snd (visit_map (key_order orders) state)))"
    using vis by (simp add: visit_map_keys)
qed

lemma visit_keyed:
  assumes "orders_ok orders" "keyed state"
  shows "keyed (visit_map (key_order orders) state)" "map_of (visit_map (key_order orders) state) = map_of state"
proof -
  have vis: "visits_all (key_order orders)" "distinct (map fst state)"
    using assms by (simp_all add: orders_ok_def keyed_def)
  show eq: "map_of (visit_map (key_order orders) state) = map_of state" by (rule map_of_visit_map [OF vis])
  show "keyed (visit_map (key_order orders) state)"
    using assms(2) vis unfolding keyed_def eq by (simp add: visit_map_keys)
qed

text \<open>The final state as a map: the agreed events override what the checks produced.\<close>

lemma resolve_state_v2_state:
  assumes res: "result_resolved (resolve_state_v2 na orders request policy)" "request_state_groups request \<noteq> []"
    and ok: "orders_ok orders"
  obtains state where "keyed state"
    "result_state (resolve_state_v2 na orders request policy) = map snd (visit_map (key_order orders) state)"
    "\<forall>key event. agreed_by_all (request_state_groups request) key \<and>
       first_of_key (request_state_groups request) key = Some event \<longrightarrow> map_of state key = Some event"
    "\<forall>event \<in> snd ` set state. trusted_event request policy event \<or> authorized_event na request policy event"
  using res
proof (cases rule: resolve_state_v2_cases)
  case (agreed unconflicted conflicted)
  note p = agreed(1) ok agreed(2)
  have k: "keyed unconflicted" by (rule partition_keyed [OF p])
  show thesis
  proof (rule that [OF k agreed(3)])
    show "\<forall>key event. agreed_by_all (request_state_groups request) key \<and>
        first_of_key (request_state_groups request) key = Some event \<longrightarrow> map_of unconflicted key = Some event"
      by (simp add: unconflicted_agreed [OF p])
    show "\<forall>event \<in> snd ` set unconflicted. trusted_event request policy event \<or> authorized_event na request policy event"
      by (intro ballI disjI1) (rule unconflicted_trusted [OF p keyed_entry [OF k]])
  qed
next
  case (checked unconflicted conflicted all_conflicted full s1 start s2 resolved)
  note p = checked(1) ok checked(2)
  have ku: "keyed unconflicted" by (rule partition_keyed [OF p])
  let ?u = "visit_map (key_order orders) unconflicted"
  note u = visit_keyed [OF ok ku]
  have src: "source_ok (resolution_source request)" by (simp add: resolution_source_def)
  note full = full_conflicted_set_sound [OF checked(4) src checked(3)]
  have s1: "source_ok s1" by (rule reads_ok [OF full(1) src])
  note start = starting_state_sound [OF checked(5) ku s1]
  have a: "authorized_from na policy (resolution_source request) (snd ` set full) start resolved"
    by (rule resolve_conflicted_sound [OF checked(6) ok full(2) reads_trans [OF full(1) start(1)]])
  have kr: "keyed resolved" by (rule authorized_keyed [OF a start(2)])
  have over: "map_of (override_state ?u resolved) = map_of resolved ++ map_of unconflicted"
    using map_of_override [of ?u resolved] u by (simp add: keyed_def)
  have same: "map_of (override_state ?u resolved) = map_of (override_state unconflicted resolved)"
    using over map_of_override [of unconflicted resolved] ku by (simp add: keyed_def)
  have ko: "keyed (override_state ?u resolved)" by (rule keyed_override [OF u(1) kr])
  show thesis
  proof (rule that [OF ko checked(7)])
    show "\<forall>key event. agreed_by_all (request_state_groups request) key \<and>
        first_of_key (request_state_groups request) key = Some event \<longrightarrow>
        map_of (override_state ?u resolved) key = Some event"
      unfolding over by (simp add: unconflicted_agreed [OF p, symmetric] map_add_Some_iff del: map_of_eq_Some_iff)
    show "\<forall>event \<in> snd ` set (override_state ?u resolved).
        trusted_event request policy event \<or> authorized_event na request policy event"
    proof
      fix event assume "event \<in> snd ` set (override_state ?u resolved)"
      then have "map_of (override_state unconflicted resolved) (ref_key event) = Some event"
        using keyed_entry [OF ko] same by simp
      then have "event \<in> snd ` set (override_state unconflicted resolved)" by (force dest: map_of_SomeD)
      then show "trusted_event request policy event \<or> authorized_event na request policy event"
        by (rule checked_state_sound [OF p checked(5) s1 full(1) a full(3)])
    qed
  qed
qed

section \<open>The first room version and the limits\<close>

definition v1_preferred :: "state_event_reference \<Rightarrow> state_event_reference \<Rightarrow> bool" where
  "v1_preferred winner other \<longleftrightarrow>
     ref_depth other < ref_depth winner \<or>
     (ref_depth other = ref_depth winner \<and> ref_event_id winner \<le> ref_event_id other)"


lemma v1_preferred_refl [simp]: "v1_preferred x x"
  by (simp add: v1_preferred_def)







lemma total_events_bounds:
  assumes "total_events_reason limits groups n = None" "n \<le> limit_total_state_events limits"
  shows "(\<forall>grp \<in> set groups. length (group_state grp) \<le> limit_events_per_state_group limits) \<and>
    n + length (group_events groups) \<le> limit_total_state_events limits"
  using assms
proof (induction groups arbitrary: n)
  case (Cons grp groups)
  have here: "length (group_state grp) \<le> limit_events_per_state_group limits"
    "n + length (group_state grp) \<le> limit_total_state_events limits"
    "total_events_reason limits groups (n + length (group_state grp)) = None"
    using Cons.prems by (auto split: if_splits)
  show ?case using Cons.IH [OF here(3,2)] here(1) by simp
qed simp

section \<open>A sample resolution\<close>

definition sample_room_event :: "byte_string \<Rightarrow> byte_string \<Rightarrow> json_object \<Rightarrow> byte_string list \<Rightarrow> json" where
  "sample_room_event ty key body ids =
     JObject [(''type'', JString ty), (''state_key'', JString key), (''sender'', JString ''@a:x''),
       (''room_id'', JString ''!r:x''), (''content'', JObject body), (''auth_events'', JArray (map JString ids))]"

definition sample_state_ref ::
    "byte_string \<Rightarrow> byte_string \<Rightarrow> byte_string \<Rightarrow> json_object \<Rightarrow> byte_string list \<Rightarrow> state_event_reference" where
  "sample_state_ref eid ty key body ids =
     \<lparr>ref_key = state_key_of ty key, ref_event_id = eid, ref_sender = ''@a:x'', ref_origin_server_ts = 0,
      ref_depth = 0, ref_event_json = sample_room_event ty key body ids, ref_rejected = False\<rparr>"

definition sample_topic :: "byte_string \<Rightarrow> state_event_reference" where
  "sample_topic eid = sample_state_ref eid ''m.room.topic'' '''' [] [''$p'']"

definition sample_agreed :: "state_event_reference list" where
  "sample_agreed =
     [sample_state_ref ''$c'' ''m.room.create'' '''' [(''creator'', JString ''@a:x'')] [],
      sample_state_ref ''$p'' ''m.room.power_levels'' '''' [(''users'', JObject [(''@a:x'', JInt 100)])] [],
      sample_state_ref ''$m'' ''m.room.member'' ''@a:x'' [(''membership'', JString ''join'')] []]"

definition sample_request :: state_resolution_request where
  "sample_request =
     \<lparr>request_room_version = ''10'',
      request_state_groups =
        [\<lparr>group_id = ''1'', group_state = sample_agreed @ [sample_topic ''$1'']\<rparr>,
         \<lparr>group_id = ''2'', group_state = sample_agreed @ [sample_topic ''$2'']\<rparr>],
      request_event_lookup = None, request_room_id = ''!r:x'', request_limits = sample_limits\<rparr>"

definition sample_orders :: visit_orders where
  "sample_orders = \<lparr>id_order = rev, key_order = rev\<rparr>"

lemma sample_orders_ok: "orders_ok sample_orders"
  by (simp add: sample_orders_def orders_ok_def visits_all_rev)

lemma sample_partition:
  "(case partition_conflicted_state sample_orders (request_state_groups sample_request) sample_limits of
      (unconflicted, conflicted) \<Rightarrow>
        (map ref_event_id (map snd unconflicted), map ref_event_id (map snd conflicted))) =
    ([''$m'', ''$p'', ''$c''], [''$1''])"
  by code_simp

lemma sample_resolution:
  "(case resolve_state_v2 hex_sodium sample_orders sample_request sample_policy of
      r \<Rightarrow> (result_resolved r, map ref_event_id (result_state r), result_reason r)) =
    (True, [''$2'', ''$c'', ''$p'', ''$m''], '''')"
  by code_simp

lemma sample_resolution_v1:
  "(case resolve_state sample_orders sample_request of
      r \<Rightarrow> (result_resolved r, map ref_event_id (result_state r))) = (True, [''$1'', ''$m'', ''$p'', ''$c''])"
  by code_simp

lemma sample_resolved_v2:
  "result_resolved (resolve_state_v2 hex_sodium sample_orders sample_request sample_policy)"
  "map ref_event_id (result_state (resolve_state_v2 hex_sodium sample_orders sample_request sample_policy)) =
    [''$2'', ''$c'', ''$p'', ''$m'']"
  using sample_resolution by simp_all

lemma sample_resolved_v1:
  "result_resolved (resolve_state sample_orders sample_request)"
  "map ref_event_id (result_state (resolve_state sample_orders sample_request)) =
    [''$1'', ''$m'', ''$p'', ''$c'']"
  using sample_resolution_v1 by simp_all

section \<open>Properties\<close>

text \<open>
  C5: no unauthorized event enters the resolved state. Whatever order the hash containers are visited in,
  every event of a resolved state is one all groups agree on, or the create event the room id names (with the
  content the groups or the caller's lookup have under that id), or a candidate the authorization rules
  allowed against a state that was itself reached, from events of the first two kinds, by adding allowed
  candidates only.
\<close>

theorem resolution_authorized:
  assumes "result_resolved (resolve_state_v2 na orders request policy)" "orders_ok orders"
    and "event \<in> set (result_state (resolve_state_v2 na orders request policy))"
  shows "trusted_event request policy event \<or> authorized_event na request policy event"
proof (cases "request_state_groups request = []")
  case True
  then show ?thesis
    using assms(1,3) by (simp add: resolve_state_v2_def resolution_of_def resolution_failed_def split: option.splits)
next
  case False
  obtain state where s: "keyed state"
    "result_state (resolve_state_v2 na orders request policy) = map snd (visit_map (key_order orders) state)"
    "\<forall>event \<in> snd ` set state. trusted_event request policy event \<or> authorized_event na request policy event"
    by (rule resolve_state_v2_state [OF assms(1) False assms(2)])
  have "event \<in> snd ` set state" using assms(3) visited_state(2) [OF assms(2) s(1)] s(2) by simp
  then show ?thesis by (rule bspec [OF s(3)])
qed

theorem resolution_authorized_witness:
  "\<exists>event. ref_event_id event = ''$2'' \<and>
    event \<in> set (result_state (resolve_state_v2 hex_sodium sample_orders sample_request sample_policy)) \<and>
    (trusted_event sample_request sample_policy event \<or> authorized_event hex_sodium sample_request sample_policy event)"
proof -
  have "''$2'' \<in> set (map ref_event_id
      (result_state (resolve_state_v2 hex_sodium sample_orders sample_request sample_policy)))"
    unfolding sample_resolved_v2(2) by simp
  then obtain event where e: "ref_event_id event = ''$2''"
    "event \<in> set (result_state (resolve_state_v2 hex_sodium sample_orders sample_request sample_policy))"
    by auto
  show ?thesis
    by (intro exI [of _ event] conjI e resolution_authorized [OF sample_resolved_v2(1) sample_orders_ok e(2)])
qed

text \<open>
  C6: the resolved state is a state that keeps what is agreed. It holds at most one event per state key, and
  every event that all groups hold for a key is in it.
\<close>

theorem resolution_keeps_agreed_state:
  assumes "result_resolved (resolve_state_v2 na orders request policy)" "orders_ok orders"
  shows "distinct (map ref_key (result_state (resolve_state_v2 na orders request policy))) \<and>
    (\<forall>key event. agreed_by_all (request_state_groups request) key \<and>
       first_of_key (request_state_groups request) key = Some event \<longrightarrow>
       event \<in> set (result_state (resolve_state_v2 na orders request policy)))"
proof (cases "request_state_groups request = []")
  case True
  then have "result_state (resolve_state_v2 na orders request policy) = []"
    by (simp add: resolve_state_v2_def resolution_of_def resolution_failed_def split: option.split)
  then show ?thesis using True by (simp add: first_of_key_def)
next
  case False
  obtain state where s: "keyed state"
    "result_state (resolve_state_v2 na orders request policy) = map snd (visit_map (key_order orders) state)"
    "\<forall>key event. agreed_by_all (request_state_groups request) key \<and>
       first_of_key (request_state_groups request) key = Some event \<longrightarrow> map_of state key = Some event"
    by (rule resolve_state_v2_state [OF assms(1) False assms(2)])
  note v = visited_state [OF assms(2) s(1)]
  have "event \<in> snd ` set state" if "map_of state key = Some event" for key event
    using map_of_SomeD [OF that] by (rule rev_image_eqI) simp
  then show ?thesis using v s(3) unfolding s(2) by blast
qed

theorem resolution_keeps_agreed_state_witness:
  "distinct (map ref_key (result_state (resolve_state_v2 hex_sodium sample_orders sample_request sample_policy)))"
  using resolution_keeps_agreed_state [OF sample_resolved_v2(1) sample_orders_ok] by (rule conjunct1)

text \<open>
  C27: the partition is the one of the specification. Unless it gives up on a limit, its first map holds
  exactly the keys on which all groups hold an event with the same id and its second map all other keys, each
  key once and with its first event, whatever order the hash containers are visited in.
\<close>

theorem partition_exact:
  assumes "partition_conflicted_state orders groups limits = (unconflicted, conflicted)" "orders_ok orders"
    and "(unconflicted, conflicted) \<noteq> ([], [])"
  shows "distinct (map fst unconflicted) \<and> distinct (map fst conflicted) \<and>
    map_of unconflicted key = (if agreed_by_all groups key then first_of_key groups key else None) \<and>
    map_of conflicted key = (if agreed_by_all groups key then None else first_of_key groups key)"
proof -
  have "unconflicted \<noteq> [] \<or> conflicted \<noteq> []" using assms(3) by simp
  then show ?thesis using partition_sound [OF assms(1,2)] by simp
qed

theorem partition_exact_witness:
  "\<exists>unconflicted conflicted.
     partition_conflicted_state sample_orders (request_state_groups sample_request) sample_limits =
       (unconflicted, conflicted) \<and> distinct (map fst unconflicted) \<and> map ref_event_id (map snd conflicted) = [''$1'']"
proof -
  obtain u c where p: "partition_conflicted_state sample_orders (request_state_groups sample_request) sample_limits =
      (u, c)" by force
  have c: "map ref_event_id (map snd c) = [''$1'']" using sample_partition unfolding p by simp
  then have "(u, c) \<noteq> ([], [])" by auto
  from partition_exact [OF p sample_orders_ok this] have "distinct (map fst u)" by (rule conjunct1)
  then show ?thesis using p c by (intro exI [of _ u] exI [of _ c] conjI)
qed



text \<open>
  C29: the limits hold. Neither resolution succeeds on more groups, on a larger group or on more events in
  total than the limits of the request allow.
\<close>

theorem resolution_within_limits:
  assumes "result = resolve_state orders request \<or> result = resolve_state_v2 na orders request policy"
    and "result_resolved result"
  shows "length (request_state_groups request) \<le> limit_state_groups (request_limits request) \<and>
    (\<forall>grp \<in> set (request_state_groups request).
       length (group_state grp) \<le> limit_events_per_state_group (request_limits request)) \<and>
    length (group_events (request_state_groups request)) \<le> limit_total_state_events (request_limits request)"
proof -
  have "validate_state_resolution_request request = None"
    using assms by (cases "validate_state_resolution_request request")
      (auto simp: resolve_state_def resolve_state_v2_def resolution_failed_def split: if_splits)
  then have "length (request_state_groups request) \<le> limit_state_groups (request_limits request)"
    "total_events_reason (request_limits request) (request_state_groups request) 0 = None"
    by (simp_all add: validate_state_resolution_request_def split: if_splits)
  then show ?thesis using total_events_bounds [of "request_limits request" "request_state_groups request" 0] by simp
qed

theorem resolution_within_limits_witness:
  "length (group_events (request_state_groups sample_request)) \<le> 8"
  using resolution_within_limits [OF disjI1 [OF refl] sample_resolved_v1(1)]
  by (simp add: sample_request_def sample_limits_def)

end
