(* ===== verification/StreamToken.thy ===== *)
theory StreamToken
  imports Prelude
begin

text \<open>
  Sync stream tokens (\<open>src/src/sync/StreamToken.cpp\<close>): three 64-bit orderings printed in hexadecimal and
  joined by underscores, and the parser that reads them back. The codec interface of the prelude is
  interpreted on the two functions.
\<close>

unbundle bit_operations_syntax

section \<open>Nibbles\<close>

lemma unat_shift_nibble: "unat (drop_bit 4 (w :: 64 word)) = unat w div 16"
  by (simp add: drop_bit_eq_div unat_div_distrib)

lemma unat_low_nibble: "unat ((w :: 64 word) AND 0xF) = unat w mod 16"
proof -
  have "w AND 0xF = take_bit 4 w" by (simp add: take_bit_eq_mask mask_eq_exp_minus_1)
  then show ?thesis by (simp add: take_bit_eq_mod unat_mod_distrib)
qed

lemma nibble_less: "(w :: 64 word) AND 0xF < 16"
  using unat_low_nibble [of w] by (simp add: word_less_nat_alt)

lemma rejoin_nibble: "push_bit 4 (drop_bit 4 (w :: 64 word)) + (w AND 0xF) = w"
proof -
  have "w AND 0xF = take_bit 4 w" by (simp add: take_bit_eq_mask mask_eq_exp_minus_1)
  then show ?thesis by (simp add: bits_ident)
qed

section \<open>Components\<close>

definition lower_hex_digit :: "64 word \<Rightarrow> char" where
  "lower_hex_digit nibble = ''0123456789abcdef'' ! unat nibble"

function encode_loop :: "64 word \<Rightarrow> byte_string \<Rightarrow> byte_string" where
  "encode_loop remaining result =
     (if 0 < remaining
      then encode_loop (drop_bit 4 remaining) (result @ [lower_hex_digit (remaining AND 0xF)])
      else result)"
  by pat_completeness auto
termination
  by (relation "measure (\<lambda>(remaining, result). unat remaining)")
    (simp_all add: unat_shift_nibble word_less_nat_alt)

declare encode_loop.simps [simp del]

definition encode_component :: "64 word \<Rightarrow> byte_string" where
  "encode_component value = (if value = 0 then ''0'' else rev (encode_loop value []))"

definition token_digit :: "char \<Rightarrow> 64 word option" where
  "token_digit ch =
     (let c = (byte_of ch :: nat) in
      if 48 \<le> c \<and> c \<le> 57 then Some (of_nat (c - 48))
      else if 97 \<le> c \<and> c \<le> 102 then Some (of_nat (c - 97) + 10)
      else if 65 \<le> c \<and> c \<le> 70 then Some (of_nat (c - 65) + 10)
      else None)"

fun decode_loop :: "byte_string \<Rightarrow> 64 word \<Rightarrow> 64 word option" where
  "decode_loop [] result = Some result"
| "decode_loop (ch # rest) result =
     (case token_digit ch of
        None \<Rightarrow> None
      | Some digit \<Rightarrow> decode_loop rest (push_bit 4 result + digit))"

definition decode_component :: "byte_string \<Rightarrow> 64 word option" where
  "decode_component encoded =
     (if encoded = [] \<or> 16 < length encoded then None else decode_loop encoded 0)"

section \<open>Tokens\<close>

record stream_token =
  event_ordering :: "64 word"
  membership_ordering :: "64 word"
  sync_stream_id :: "64 word"

definition encode_stream_token :: "stream_token \<Rightarrow> byte_string" where
  "encode_stream_token token =
     encode_component (event_ordering token) @ ''_'' @ encode_component (membership_ordering token) @ ''_'' @
     encode_component (sync_stream_id token)"

definition decode_stream_token :: "byte_string \<Rightarrow> stream_token option" where
  "decode_stream_token encoded =
     (case find_char CHR ''_'' encoded of
        None \<Rightarrow> None
      | Some first_separator \<Rightarrow>
          (let event_part = take first_separator encoded;
               remainder = drop (first_separator + 1) encoded;
               second_separator = find_char CHR ''_'' remainder;
               membership_part = (case second_separator of None \<Rightarrow> remainder | Some i \<Rightarrow> take i remainder);
               sync_part = (case second_separator of None \<Rightarrow> [] | Some i \<Rightarrow> drop (i + 1) remainder) in
           if event_part = [] \<or> membership_part = [] then None
           else (case (decode_component event_part, decode_component membership_part) of
              (Some event, Some membership) \<Rightarrow>
                if sync_part = []
                then Some \<lparr>event_ordering = event, membership_ordering = membership, sync_stream_id = 0\<rparr>
                else (case decode_component sync_part of
                   None \<Rightarrow> None
                 | Some sid \<Rightarrow>
                     Some \<lparr>event_ordering = event, membership_ordering = membership, sync_stream_id = sid\<rparr>)
            | _ \<Rightarrow> None)))"

definition is_valid_stream_token :: "byte_string \<Rightarrow> bool" where
  "is_valid_stream_token encoded \<longleftrightarrow> decode_stream_token encoded \<noteq> None"

section \<open>Reading a printed component\<close>

lemma token_digit_lower_hex:
  assumes "nibble < 16"
  shows "token_digit (lower_hex_digit nibble) = Some nibble"
proof -
  have "\<forall>k \<in> set [0..<16]. token_digit (lower_hex_digit (of_nat k)) = Some (of_nat k)" by code_simp
  moreover have "unat nibble \<in> set [0..<16]" using assms by (simp add: word_less_nat_alt)
  ultimately have "token_digit (lower_hex_digit (of_nat (unat nibble))) = Some (of_nat (unat nibble))" by (rule bspec)
  then show ?thesis by simp
qed

lemma encode_loop_0 [simp]: "encode_loop 0 acc = acc"
  by (subst encode_loop.simps) simp

lemma encode_loop_step:
  "w \<noteq> 0 \<Longrightarrow> encode_loop w acc = encode_loop (drop_bit 4 w) (acc @ [lower_hex_digit (w AND 0xF)])"
  by (subst encode_loop.simps) (simp add: word_greater_zero_iff)

lemma decode_encode_loop: "decode_loop (rev (encode_loop w acc)) 0 = decode_loop (rev acc) w"
proof (induction w acc rule: encode_loop.induct)
  case (1 w acc)
  show ?case
  proof (cases "w = 0")
    case False
    then have "0 < w" by (simp add: word_greater_zero_iff)
    from "1.IH" [OF this] show ?thesis
      by (simp add: encode_loop_step [OF False] token_digit_lower_hex nibble_less rejoin_nibble)
  qed simp
qed

lemma encode_loop_length: "unat w < 16 ^ n \<Longrightarrow> length (encode_loop w acc) \<le> length acc + n"
proof (induction n arbitrary: w acc)
  case (Suc n)
  show ?case
  proof (cases "w = 0")
    case False
    have "unat (drop_bit 4 w) < 16 ^ n"
      using Suc.prems by (simp add: unat_shift_nibble less_mult_imp_div_less mult.commute)
    from Suc.IH [OF this, of "acc @ [lower_hex_digit (w AND 0xF)]"] show ?thesis
      by (simp add: encode_loop_step [OF False])
  qed simp
qed (simp add: unat_eq_0)

lemma encode_loop_grows: "length acc \<le> length (encode_loop w acc)"
proof (induction w acc rule: encode_loop.induct)
  case (1 w acc)
  then show ?case by (cases "w = 0") (simp_all add: encode_loop_step word_greater_zero_iff)
qed

lemma encode_loop_digits:
  "\<forall>ch \<in> set acc. token_digit ch \<noteq> None \<Longrightarrow> \<forall>ch \<in> set (encode_loop w acc). token_digit ch \<noteq> None"
proof (induction w acc rule: encode_loop.induct)
  case (1 w acc)
  show ?case
  proof (cases "w = 0")
    case False
    then have "0 < w" by (simp add: word_greater_zero_iff)
    then show ?thesis
      unfolding encode_loop_step [OF False]
      by (rule "1.IH") (use "1.prems" in \<open>simp add: token_digit_lower_hex nibble_less\<close>)
  qed (use "1.prems" in simp)
qed

lemma decode_encode_component: "decode_component (encode_component w) = Some w"
proof (cases "w = 0")
  case True
  then show ?thesis by (simp add: encode_component_def decode_component_def token_digit_def)
next
  case False
  have "0 < length (encode_loop w [])"
    using encode_loop_grows [of "[lower_hex_digit (w AND 0xF)]" "drop_bit 4 w"]
    unfolding encode_loop_step [OF False, of "[]"] append_Nil list.size by linarith
  moreover have "length (encode_loop w []) \<le> 16"
    using encode_loop_length [of w 16 "[]"] unsigned_less [of w, where ?'a = nat] by simp
  ultimately show ?thesis
    using False decode_encode_loop [of w "[]"] by (simp add: encode_component_def decode_component_def)
qed

lemma encode_component_nonempty [simp]: "encode_component w \<noteq> []"
  using decode_encode_component [of w] by (auto simp: decode_component_def)

lemma separator_free: "CHR ''_'' \<notin> set (encode_component w)"
proof -
  have "\<forall>ch \<in> set (encode_component w). token_digit ch \<noteq> None"
    using encode_loop_digits [of "[]" w] by (simp add: encode_component_def token_digit_def)
  moreover have "token_digit CHR ''_'' = None" by (simp add: token_digit_def)
  ultimately show ?thesis by auto
qed

lemma decode_encode_stream_token: "decode_stream_token (encode_stream_token token) = Some token"
proof -
  let ?e = "encode_component (event_ordering token)" and ?m = "encode_component (membership_ordering token)"
  let ?s = "encode_component (sync_stream_id token)"
  have first: "find_char CHR ''_'' (?e @ CHR ''_'' # ?m @ CHR ''_'' # ?s) = Some (length ?e)"
    by (rule find_char_append [OF separator_free])
  have second: "find_char CHR ''_'' (?m @ CHR ''_'' # ?s) = Some (length ?m)"
    by (rule find_char_append [OF separator_free])
  show ?thesis
    by (simp add: encode_stream_token_def decode_stream_token_def first second decode_encode_component)
qed

interpretation stream_tokens: codec encode_stream_token decode_stream_token "\<lambda>_. True"
  by unfold_locales (rule decode_encode_stream_token)

section \<open>Properties\<close>

text \<open>
  C32: stream tokens survive a round trip. Every token is read back from its printed form, and two tokens
  with the same printed form are equal.
\<close>

theorem stream_token_roundtrip:
  "decode_stream_token (encode_stream_token token) = Some token \<and>
   (encode_stream_token token = encode_stream_token other \<longleftrightarrow> token = other)"
  using stream_tokens.decode_encode stream_tokens.encode_inject by auto

end
