(* ===== verification/QueryParams.thy ===== *)
theory QueryParams
  imports Prelude
begin

text \<open>
  Percent encoding and the query string of a sync request (\<open>src/src/core/query_params.cpp\<close>). Decoding a
  path component raises an exception on a NUL byte, which is the value \<open>None\<close> here. The codec interface of
  the prelude is interpreted on the path component functions.
\<close>

section \<open>Percent encoding\<close>

definition from_hex :: "char \<Rightarrow> nat option" where
  "from_hex ch =
     (let c = byte_of ch in
      if 48 \<le> c \<and> c \<le> 57 then Some (c - 48)
      else if 97 \<le> c \<and> c \<le> 102 then Some (c - 97 + 10)
      else if 65 \<le> c \<and> c \<le> 70 then Some (c - 65 + 10)
      else None)"

definition is_unreserved_path_byte :: "nat \<Rightarrow> bool" where
  "is_unreserved_path_byte byte \<longleftrightarrow>
     (65 \<le> byte \<and> byte \<le> 90) \<or> (97 \<le> byte \<and> byte \<le> 122) \<or> (48 \<le> byte \<and> byte \<le> 57) \<or>
     byte = 45 \<or> byte = 46 \<or> byte = 95 \<or> byte = 126"

definition path_hex_digit :: "nat \<Rightarrow> char" where
  "path_hex_digit nibble = (if nibble < 10 then char_of (48 + nibble) else char_of (65 + (nibble - 10)))"

text \<open>The byte an escape stands for: both digits are below 16, so the shift and the or are this sum.\<close>

definition escape_byte :: "char \<Rightarrow> char \<Rightarrow> char option" where
  "escape_byte h l =
     (case (from_hex h, from_hex l) of (Some high, Some low) \<Rightarrow> Some (char_of (high * 16 + low)) | _ \<Rightarrow> None)"

fun percent_decode :: "byte_string \<Rightarrow> byte_string" where
  "percent_decode [] = []"
| "percent_decode (c # rest) =
     (if c = CHR ''%'' \<and> 2 \<le> length rest then
        (case escape_byte (rest ! 0) (rest ! 1) of
           Some byte \<Rightarrow> byte # percent_decode (drop 2 rest)
         | None \<Rightarrow> c # percent_decode rest)
      else if c = CHR ''+'' then CHR '' '' # percent_decode rest
      else c # percent_decode rest)"

definition path_component_contains_nul :: "byte_string \<Rightarrow> bool" where
  "path_component_contains_nul encoded \<longleftrightarrow>
     find_char CHR 0x00 encoded \<noteq> None \<or> find_sub ''%00'' encoded \<noteq> None"

fun decode_path_bytes :: "byte_string \<Rightarrow> byte_string" where
  "decode_path_bytes [] = []"
| "decode_path_bytes (c # rest) =
     (if c = CHR ''%'' \<and> 2 \<le> length rest then
        (case escape_byte (rest ! 0) (rest ! 1) of
           Some byte \<Rightarrow> byte # decode_path_bytes (drop 2 rest)
         | None \<Rightarrow> c # decode_path_bytes rest)
      else c # decode_path_bytes rest)"

definition percent_decode_path_component :: "byte_string \<Rightarrow> byte_string option" where
  "percent_decode_path_component encoded =
     (if path_component_contains_nul encoded then None
      else let result = decode_path_bytes encoded in
        if find_char CHR 0x00 result \<noteq> None then None else Some result)"

fun percent_encode_path_component :: "byte_string \<Rightarrow> byte_string" where
  "percent_encode_path_component [] = []"
| "percent_encode_path_component (ch # rest) =
     (if is_unreserved_path_byte (byte_of ch) then [ch]
      else [CHR ''%'', path_hex_digit (byte_of ch div 16), path_hex_digit (byte_of ch mod 16)]) @
     percent_encode_path_component rest"

section \<open>The query of a sync request\<close>

record sync_request =
  since :: "byte_string option"
  timeout :: "64 word option"
  full_state :: "bool option"
  filter_param :: "byte_string option"
  set_presence :: "byte_string option"

definition empty_sync_request :: sync_request where
  "empty_sync_request =
     \<lparr>since = None, timeout = None, full_state = None, filter_param = None, set_presence = None\<rparr>"

text \<open>The overflow check divides in the 64-bit type before it multiplies.\<close>

fun timeout_loop :: "byte_string \<Rightarrow> 64 word \<Rightarrow> 64 word option" where
  "timeout_loop [] result = Some result"
| "timeout_loop (ch # rest) result =
     (if is_digit ch then
        (let digit = of_nat (digit_value ch) in
         if (- 1 - digit) div 10 < result then None
         else timeout_loop rest (result * 10 + digit))
      else None)"

definition apply_param :: "byte_string \<Rightarrow> byte_string \<Rightarrow> sync_request \<Rightarrow> sync_request" where
  "apply_param key val request =
     (if key = ''since'' then request\<lparr>since := Some val\<rparr>
      else if key = ''timeout'' then
        (case timeout_loop val 0 of
           Some result \<Rightarrow> if val \<noteq> [] then request\<lparr>timeout := Some result\<rparr> else request
         | None \<Rightarrow> request)
      else if key = ''full_state'' then request\<lparr>full_state := Some (val = ''true'')\<rparr>
      else if key = ''filter'' then request\<lparr>filter_param := Some val\<rparr>
      else if key = ''set_presence'' then request\<lparr>set_presence := Some val\<rparr>
      else request)"

definition apply_assignment :: "byte_string \<Rightarrow> sync_request \<Rightarrow> sync_request" where
  "apply_assignment param request =
     (case find_char CHR ''='' param of
        None \<Rightarrow> request
      | Some eq_pos \<Rightarrow> apply_param (take eq_pos param) (percent_decode (drop (eq_pos + 1) param)) request)"

text \<open>\<open>query\<close> is what is left from \<open>pos\<close> on.\<close>

function parse_params :: "byte_string \<Rightarrow> sync_request \<Rightarrow> sync_request" where
  "parse_params query request =
     (if query = [] then request
      else case find_char CHR ''&'' query of
        None \<Rightarrow> apply_assignment query request
      | Some amp_pos \<Rightarrow>
          parse_params (drop (amp_pos + 1) query) (apply_assignment (take amp_pos query) request))"
  by pat_completeness auto
termination
  by (relation "measure (\<lambda>(query, request). length query)") auto

declare parse_params.simps [simp del]

definition parse_query_params :: "byte_string \<Rightarrow> sync_request" where
  "parse_query_params target =
     (case find_char CHR ''?'' target of
        None \<Rightarrow> empty_sync_request
      | Some query_start \<Rightarrow> parse_params (drop (query_start + 1) target) empty_sync_request)"

section \<open>Escapes\<close>

lemma from_hex_digit: "n < 16 \<Longrightarrow> from_hex (path_hex_digit n) = Some n"
  by (auto simp: from_hex_def path_hex_digit_def Let_def)

lemma escape_of_byte:
  "escape_byte (path_hex_digit (byte_of ch div 16)) (path_hex_digit (byte_of ch mod 16)) = Some ch"
proof -
  have "byte_of ch < 256" by (rule nat_of_char_less_256)
  then have "byte_of ch div 16 < 16" by (simp add: less_mult_imp_div_less)
  then show ?thesis by (simp add: escape_byte_def from_hex_digit)
qed

lemma hex_digit_byte: "n < 16 \<Longrightarrow> byte_of (path_hex_digit n) = (if n < 10 then 48 + n else 55 + n)"
  by (auto simp: path_hex_digit_def)

lemma decode_encode_path: "decode_path_bytes (percent_encode_path_component s) = s"
proof (induction s)
  case (Cons ch rest)
  show ?case
  proof (cases "is_unreserved_path_byte (byte_of ch)")
    case True
    then have "ch \<noteq> CHR ''%''" by (auto simp: is_unreserved_path_byte_def)
    then show ?thesis using True Cons.IH by simp
  next
    case False
    then show ?thesis using Cons.IH escape_of_byte [of ch] by simp
  qed
qed simp

lemma hex_digit_unreserved: "n < 16 \<Longrightarrow> is_unreserved_path_byte (byte_of (path_hex_digit n))"
  unfolding hex_digit_byte is_unreserved_path_byte_def by (cases "n < 10") simp_all

lemma nibbles: "byte_of ch div 16 < 16" "byte_of ch mod 16 < 16"
  using nat_of_char_less_256 [of ch] by (simp_all add: less_mult_imp_div_less)

lemma unreserved_not_escape: "is_unreserved_path_byte (byte_of c) \<Longrightarrow> c \<noteq> CHR ''%'' \<and> c \<noteq> CHR 0x00"
  by (auto simp: is_unreserved_path_byte_def)

lemma encoded_bytes:
  "\<forall>c \<in> set (percent_encode_path_component s). is_unreserved_path_byte (byte_of c) \<or> c = CHR ''%''"
  by (induction s) (simp_all add: hex_digit_unreserved nibbles)

lemma encoded_escape_free:
  assumes "CHR 0x00 \<notin> set s"
  shows "find_sub ''%00'' (percent_encode_path_component s) = None"
  using assms
proof (induction s)
  case (Cons ch rest)
  have IH: "find_sub ''%00'' (percent_encode_path_component rest) = None" using Cons by simp
  show ?case
  proof (cases "is_unreserved_path_byte (byte_of ch)")
    case True
    then show ?thesis using unreserved_not_escape [OF True] IH by simp
  next
    case False
    let ?h = "path_hex_digit (byte_of ch div 16)" and ?l = "path_hex_digit (byte_of ch mod 16)"
    have plain: "?h \<noteq> CHR ''%''" "?l \<noteq> CHR ''%''"
      using unreserved_not_escape hex_digit_unreserved nibbles by blast+
    have "\<not> (?h = CHR ''0'' \<and> ?l = CHR ''0'')"
    proof
      assume "?h = CHR ''0'' \<and> ?l = CHR ''0''"
      then have "escape_byte CHR ''0'' CHR ''0'' = Some ch" using escape_of_byte [of ch] by simp
      then have "byte_of ch = (byte_of CHR 0x00 :: nat)" by (simp add: escape_byte_def from_hex_def char_of_eq_iff)
      then have "ch = CHR 0x00" by (simp only: of_char_eq_iff)
      then show False using Cons.prems by simp
    qed
    then show ?thesis using False plain IH by auto
  qed
qed simp

lemma decode_encode_path_component:
  "percent_decode_path_component (percent_encode_path_component s) = (if CHR 0x00 \<in> set s then None else Some s)"
proof (cases "CHR 0x00 \<in> set s")
  case True
  then show ?thesis
    by (simp add: percent_decode_path_component_def decode_encode_path find_char_None)
next
  case False
  have "CHR 0x00 \<notin> set (percent_encode_path_component s)"
    using bspec [OF encoded_bytes, of "CHR 0x00" s] unreserved_not_escape [of "CHR 0x00"] by auto
  then show ?thesis
    using False encoded_escape_free [OF False]
    by (simp add: percent_decode_path_component_def path_component_contains_nul_def decode_encode_path
        find_char_None [THEN iffD2])
qed

interpretation path_components: codec percent_encode_path_component percent_decode_path_component
    "\<lambda>s. CHR 0x00 \<notin> set s"
  by unfold_locales (simp add: decode_encode_path_component)

section \<open>Timeouts\<close>

abbreviation decimal_from :: "nat \<Rightarrow> byte_string \<Rightarrow> nat" where
  "decimal_from n ds \<equiv> foldl (\<lambda>acc c. acc * 10 + digit_value c) n ds"

lemma decimal_from_ge: "n \<le> decimal_from n ds"
proof (induction ds arbitrary: n)
  case (Cons d ds)
  have "n \<le> n * 10 + digit_value d" by simp
  also have "\<dots> \<le> decimal_from (n * 10 + digit_value d) ds" by (rule Cons.IH)
  finally show ?case by simp
qed simp

lemma overflow_check:
  fixes r :: "64 word"
  assumes "d < 10"
  shows "(- 1 - of_nat d) div 10 < r \<longleftrightarrow> 2 ^ 64 \<le> unat r * 10 + d"
proof -
  have d: "unat (of_nat d :: 64 word) = d" using assms by (simp add: unat_of_nat)
  have m: "unat (- 1 :: 64 word) = 2 ^ 64 - 1"
    by (simp add: unsigned_minus_1_eq_mask mask_eq_exp_minus_1)
  have "of_nat d \<le> (- 1 :: 64 word)" using assms by (simp add: word_le_nat_alt m d)
  then have "unat (- 1 - of_nat d :: 64 word) = 2 ^ 64 - 1 - d"
    using unat_sub [of "of_nat d" "- 1 :: 64 word"] d m by simp
  then have "unat ((- 1 - of_nat d :: 64 word) div 10) = (2 ^ 64 - 1 - d) div 10"
    by (simp add: unat_div_distrib)
  then have "(- 1 - of_nat d) div 10 < r \<longleftrightarrow> (2 ^ 64 - 1 - d) div 10 < unat r"
    by (simp only: word_less_nat_alt)
  also have "\<dots> \<longleftrightarrow> 2 ^ 64 - 1 - d < unat r * 10"
    by (rule div_less_iff_less_mult) simp
  also have "\<dots> \<longleftrightarrow> 2 ^ 64 \<le> unat r * 10 + d" using assms by simp linarith
  finally show ?thesis .
qed

lemma timeout_loop_exact:
  "timeout_loop ds r =
     (if (\<forall>c \<in> set ds. is_digit c) \<and> decimal_from (unat r) ds < 2 ^ 64
      then Some (of_nat (decimal_from (unat r) ds)) else None)"
proof (induction ds arbitrary: r)
  case (Cons d ds)
  show ?case
  proof (cases "is_digit d")
    case True
    note small = digit_value_less [OF True]
    show ?thesis
    proof (cases "2 ^ 64 \<le> unat r * 10 + digit_value d")
      case over: True
      have "unat r * 10 + digit_value d \<le> decimal_from (unat r * 10 + digit_value d) ds" by (rule decimal_from_ge)
      then have "\<not> decimal_from (unat r * 10 + digit_value d) ds < 2 ^ 64" using over by linarith
      then show ?thesis using True over overflow_check [OF small, of r] by (simp add: Let_def)
    next
      case False
      have "unat (r * 10 + of_nat (digit_value d)) = unat r * 10 + digit_value d"
      proof -
        have eq: "r * 10 + of_nat (digit_value d) = of_nat (unat r * 10 + digit_value d)" by simp
        have "unat (of_nat (unat r * 10 + digit_value d) :: 64 word) = unat r * 10 + digit_value d"
          unfolding unat_of_nat by (rule mod_less) (use False in simp)
        then show ?thesis unfolding eq .
      qed
      then show ?thesis
        using True False overflow_check [OF small, of r] Cons.IH [of "r * 10 + of_nat (digit_value d)"]
        by (simp add: Let_def)
    qed
  next
    case False
    then show ?thesis by simp
  qed
next
  case Nil
  show ?case using unsigned_less [of r, where ?'a = nat] by simp
qed

section \<open>Properties\<close>

text \<open>
  C33: path components survive a round trip. Encoding prints only unreserved bytes and percent signs, decoding
  returns the encoded component, and a component with a NUL byte is refused.
\<close>

theorem path_component_roundtrip:
  "percent_decode_path_component (percent_encode_path_component s) = (if CHR 0x00 \<in> set s then None else Some s) \<and>
   filter (\<lambda>c. is_unreserved_path_byte (byte_of c) = (c = CHR ''%'')) (percent_encode_path_component s) = []"
proof -
  have "\<not> is_unreserved_path_byte (byte_of CHR ''%'')" by (simp add: is_unreserved_path_byte_def)
  then show ?thesis using encoded_bytes [of s] by (auto simp: decode_encode_path_component filter_empty_conv)
qed

text \<open>
  C34: a sync timeout is never a wrapped number. The accumulating loop returns a value exactly when the text
  consists of digits and the number it spells fits into 64 bits, and the value is that number.
\<close>

theorem timeout_exact:
  "timeout_loop ds 0 =
     (if list_all is_digit ds \<and> digits_value ds < 2 ^ 64 then Some (of_nat (digits_value ds)) else None)"
  using timeout_loop_exact [of ds 0] by (simp add: digits_value_def list_all_iff)

end
