(* ===== verification/StateIndex.thy ===== *)
theory StateIndex
  imports Containers
begin

text \<open>
  The current-state table of the in-memory store and its indexes
  (\<open>src/src/database/PersistentStore.cpp\<close>): the position index, the per-room index, the transition index,
  their maintenance by every writer, and the two readers that trust them. A database transaction is known
  here by its outcome only.
\<close>

section \<open>Tables\<close>

record state_row =
  row_room_id :: byte_string
  row_event_type :: byte_string
  row_state_key :: byte_string
  row_event_id :: byte_string

record state_transition =
  transition_row :: state_row
  transition_previous :: byte_string

record state_tables =
  table_rows :: "state_row list"
  position_index :: "(byte_string \<times> nat) list"
  room_index :: "(byte_string \<times> nat list) list"
  indexed_rows :: nat
  transitions :: "state_transition list"
  transition_index :: "(byte_string \<times> nat) list"

definition state_position_key :: "byte_string \<Rightarrow> byte_string \<Rightarrow> byte_string \<Rightarrow> byte_string" where
  "state_position_key room_id event_type state_key =
     room_id @ [CHR 0x00] @ event_type @ [CHR 0x00] @ state_key"

definition state_transition_index_key ::
    "byte_string \<Rightarrow> byte_string \<Rightarrow> byte_string \<Rightarrow> byte_string \<Rightarrow> byte_string" where
  "state_transition_index_key room_id event_type state_key event_id =
     room_id @ [CHR 0x00] @ event_type @ [CHR 0x00] @ state_key @ [CHR 0x00] @ event_id"

definition state_row_is :: "byte_string \<Rightarrow> byte_string \<Rightarrow> byte_string \<Rightarrow> state_row \<Rightarrow> bool" where
  "state_row_is room_id event_type state_key row \<longleftrightarrow>
     row_room_id row = room_id \<and> row_event_type row = event_type \<and> row_state_key row = state_key"

section \<open>The indexes\<close>

definition row_key :: "state_row \<Rightarrow> byte_string" where
  "row_key row = state_position_key (row_room_id row) (row_event_type row) (row_state_key row)"

definition push_position :: "byte_string \<Rightarrow> nat \<Rightarrow> (byte_string \<times> nat list) list \<Rightarrow> (byte_string \<times> nat list) list" where
  "push_position room position index =
     map_assign room ((case map_of index room of None \<Rightarrow> [] | Some ps \<Rightarrow> ps) @ [position]) index"

text \<open>The two insertions a row at a position makes.\<close>

definition index_row :: "nat \<Rightarrow> state_row \<Rightarrow> state_tables \<Rightarrow> state_tables" where
  "index_row position row st =
     st\<lparr>position_index := map_emplace (row_key row) position (position_index st),
        room_index := push_position (row_room_id row) position (room_index st)\<rparr>"

fun index_rows :: "nat \<Rightarrow> state_row list \<Rightarrow> state_tables \<Rightarrow> state_tables" where
  "index_rows position [] st = st"
| "index_rows position (row # rows) st = index_rows (position + 1) rows (index_row position row st)"

definition note_state_row_appended :: "state_tables \<Rightarrow> state_tables" where
  "note_state_row_appended st =
     (if table_rows st = [] \<or> indexed_rows st + 1 \<noteq> length (table_rows st) then st
      else (index_row (length (table_rows st) - 1) (last (table_rows st)) st)
             \<lparr>indexed_rows := length (table_rows st)\<rparr>)"

definition rebuild_state_index :: "state_tables \<Rightarrow> state_tables" where
  "rebuild_state_index st =
     (index_rows 0 (table_rows st) (st\<lparr>position_index := [], room_index := []\<rparr>))
       \<lparr>indexed_rows := length (table_rows st)\<rparr>"

definition scan_state :: "byte_string \<Rightarrow> byte_string \<Rightarrow> byte_string \<Rightarrow> state_row list \<Rightarrow> byte_string option" where
  "scan_state room_id event_type state_key rows =
     map_option row_event_id (find (state_row_is room_id event_type state_key) rows)"

definition find_current_state_event_id ::
    "state_tables \<Rightarrow> byte_string \<Rightarrow> byte_string \<Rightarrow> byte_string \<Rightarrow> byte_string option" where
  "find_current_state_event_id st room_id event_type state_key =
     (if indexed_rows st = length (table_rows st) then
        (case map_of (position_index st) (state_position_key room_id event_type state_key) of
           None \<Rightarrow> None
         | Some position \<Rightarrow>
             if position < length (table_rows st) \<and>
                state_row_is room_id event_type state_key (table_rows st ! position)
             then Some (row_event_id (table_rows st ! position))
             else scan_state room_id event_type state_key (table_rows st))
      else scan_state room_id event_type state_key (table_rows st))"

text \<open>The rows the visitor is called with, in order.\<close>

definition for_each_room_state_row :: "state_tables \<Rightarrow> byte_string \<Rightarrow> state_row list" where
  "for_each_room_state_row st room_id =
     (let scan = filter (\<lambda>row. row_room_id row = room_id) (table_rows st) in
      if indexed_rows st = length (table_rows st) then
        (case map_of (room_index st) room_id of
           None \<Rightarrow> []
         | Some positions \<Rightarrow>
             if list_all (\<lambda>p. p < length (table_rows st) \<and> row_room_id (table_rows st ! p) = room_id) positions
             then map (\<lambda>p. table_rows st ! p) positions
             else scan)
      else scan)"

section \<open>The writers\<close>

fun update_first :: "('a \<Rightarrow> bool) \<Rightarrow> ('a \<Rightarrow> 'a) \<Rightarrow> 'a list \<Rightarrow> 'a list" where
  "update_first P f [] = []"
| "update_first P f (x # xs) = (if P x then f x # xs else x # update_first P f xs)"

text \<open>The row written in place, or appended and indexed.\<close>

definition put_state_row :: "state_row \<Rightarrow> state_tables \<Rightarrow> state_tables" where
  "put_state_row row st =
     (let same = state_row_is (row_room_id row) (row_event_type row) (row_state_key row) in
      if list_ex same (table_rows st)
      then st\<lparr>table_rows := update_first same (\<lambda>r. r\<lparr>row_event_id := row_event_id row\<rparr>) (table_rows st)\<rparr>
      else note_state_row_appended (st\<lparr>table_rows := table_rows st @ [row]\<rparr>))"

definition transition_key :: "state_row \<Rightarrow> byte_string" where
  "transition_key row =
     state_transition_index_key (row_room_id row) (row_event_type row) (row_state_key row) (row_event_id row)"

definition push_transition :: "state_row \<Rightarrow> byte_string \<Rightarrow> state_tables \<Rightarrow> state_tables" where
  "push_transition row previous st =
     st\<lparr>transitions := transitions st @ [\<lparr>transition_row = row, transition_previous = previous\<rparr>],
        transition_index := map_emplace (transition_key row) (length (transitions st)) (transition_index st)\<rparr>"

definition apply_current_state :: "state_tables \<Rightarrow> state_row \<Rightarrow> byte_string \<Rightarrow> state_tables" where
  "apply_current_state st row previous =
     (let st' = put_state_row row st in
      case map_of (transition_index st') (transition_key row) of
        Some index \<Rightarrow>
          if index < length (transitions st')
          then st'\<lparr>transitions := (transitions st')
                 [index := (transitions st' ! index)\<lparr>transition_previous := previous\<rparr>]\<rparr>
          else push_transition row previous st'
      | None \<Rightarrow> push_transition row previous st')"

text \<open>The state part of committing an event together with its state row.\<close>

definition commit_state_row :: "state_tables \<Rightarrow> state_row \<Rightarrow> byte_string \<Rightarrow> state_tables" where
  "commit_state_row st row previous = push_transition row previous (put_state_row row st)"

text \<open>\<open>matches\<close>: the row names a persisted event; \<open>committed\<close>: the transaction succeeded.\<close>

definition store_state :: "bool \<Rightarrow> bool \<Rightarrow> state_tables \<Rightarrow> state_row \<Rightarrow> bool \<times> state_tables" where
  "store_state matches committed st row =
     (let existing = scan_state (row_room_id row) (row_event_type row) (row_state_key row) (table_rows st) in
      if \<not> matches then (False, st)
      else if existing = Some (row_event_id row) then (True, st)
      else if \<not> committed then (False, st)
      else (True, apply_current_state st row (case existing of None \<Rightarrow> [] | Some eid \<Rightarrow> eid)))"

text \<open>The state part of reloading a room: its rows are replaced by a snapshot.\<close>

definition reload_room_state :: "state_tables \<Rightarrow> byte_string \<Rightarrow> state_row list \<Rightarrow> state_tables" where
  "reload_room_state st room_id snapshot =
     rebuild_state_index
       (st\<lparr>table_rows := filter (\<lambda>row. row_room_id row \<noteq> room_id) (table_rows st) @ snapshot\<rparr>)"

fun index_transitions :: "nat \<Rightarrow> state_transition list \<Rightarrow> (byte_string \<times> nat) list \<Rightarrow> (byte_string \<times> nat) list" where
  "index_transitions position [] index = index"
| "index_transitions position (t # ts) index =
     index_transitions (position + 1) ts (map_emplace (transition_key (transition_row t)) position index)"

definition rebuild_state_transition_index :: "state_tables \<Rightarrow> state_tables" where
  "rebuild_state_transition_index st = st\<lparr>transition_index := index_transitions 0 (transitions st) []\<rparr>"

definition find_state_transition ::
    "state_tables \<Rightarrow> byte_string \<Rightarrow> byte_string \<Rightarrow> byte_string \<Rightarrow> byte_string \<Rightarrow> state_transition option" where
  "find_state_transition st room_id event_type state_key event_id =
     map_option (\<lambda>i. transitions st ! i)
       (map_of (transition_index st) (state_transition_index_key room_id event_type state_key event_id))"

section \<open>Indexes in step with the rows\<close>

fun position_of :: "('a \<Rightarrow> bool) \<Rightarrow> 'a list \<Rightarrow> nat option" where
  "position_of P [] = None"
| "position_of P (x # xs) = (if P x then Some 0 else map_option Suc (position_of P xs))"

text \<open>What the two indexes hold: the first position of every key, and all positions of every room.\<close>

definition indexes :: "state_row list \<Rightarrow> state_tables \<Rightarrow> bool" where
  "indexes rows st \<longleftrightarrow>
     (\<forall>key. map_of (position_index st) key = position_of (\<lambda>row. row_key row = key) rows) \<and>
     (\<forall>room. (case map_of (room_index st) room of None \<Rightarrow> [] | Some ps \<Rightarrow> ps) =
        filter (\<lambda>p. row_room_id (rows ! p) = room) [0..<length rows])"

definition in_step :: "state_tables \<Rightarrow> bool" where
  "in_step st \<longleftrightarrow> indexes (table_rows st) st \<and> indexed_rows st = length (table_rows st)"

lemma position_of_snoc [simp]:
  "position_of P (xs @ [x]) =
     (case position_of P xs of Some p \<Rightarrow> Some p | None \<Rightarrow> if P x then Some (length xs) else None)"
  by (induction xs) (auto split: option.splits)

lemma position_of_Some:
  "position_of P xs = Some p \<Longrightarrow> p < length xs \<and> P (xs ! p) \<and> (\<forall>q < p. \<not> P (xs ! q))"
proof (induction xs arbitrary: p)
  case (Cons x xs)
  show ?case
  proof (cases "P x")
    case True
    then show ?thesis using Cons.prems by simp
  next
    case False
    then obtain q where q: "p = Suc q" "position_of P xs = Some q" using Cons.prems by auto
    show ?thesis using Cons.IH [OF q(2)] q(1) False by (auto simp: less_Suc_eq_0_disj)
  qed
qed simp

lemma position_of_None: "position_of P xs = None \<longleftrightarrow> (\<forall>x \<in> set xs. \<not> P x)"
  by (induction xs) auto

lemma find_first: "p < length xs \<Longrightarrow> P (xs ! p) \<Longrightarrow> \<forall>q < p. \<not> P (xs ! q) \<Longrightarrow> find P xs = Some (xs ! p)"
proof (induction xs arbitrary: p)
  case (Cons x xs)
  show ?case
  proof (cases p)
    case 0
    then show ?thesis using Cons.prems by simp
  next
    case (Suc q)
    then have "\<not> P x" "\<forall>r < q. \<not> P (xs ! r)" using Cons.prems(3) by fastforce+
    then show ?thesis using Suc Cons.prems Cons.IH [of q] by simp
  qed
qed simp

lemma indexes_empty: "position_index st = [] \<Longrightarrow> room_index st = [] \<Longrightarrow> indexes [] st"
  by (simp add: indexes_def)

lemma indexesD:
  assumes "indexes rows st"
  shows "map_of (position_index st) key = position_of (\<lambda>row. row_key row = key) rows"
    "(case map_of (room_index st) room of None \<Rightarrow> [] | Some ps \<Rightarrow> ps) =
       filter (\<lambda>p. row_room_id (rows ! p) = room) [0..<length rows]"
  using spec [OF conjunct1 [OF assms [unfolded indexes_def]], of key]
    spec [OF conjunct2 [OF assms [unfolded indexes_def]], of room] by simp_all

lemma room_positions_snoc:
  "filter (\<lambda>p. row_room_id ((rows @ [row]) ! p) = room) [0..<length (rows @ [row])] =
     filter (\<lambda>p. row_room_id (rows ! p) = room) [0..<length rows] @
     (if row_room_id row = room then [length rows] else [])"
proof -
  have "filter (\<lambda>p. row_room_id ((rows @ [row]) ! p) = room) [0..<length rows] =
      filter (\<lambda>p. row_room_id (rows ! p) = room) [0..<length rows]"
    by (rule filter_cong) (simp_all add: nth_append)
  then show ?thesis by simp
qed

lemma index_row_step:
  assumes "indexes rows st"
  shows "indexes (rows @ [row]) (index_row (length rows) row st)"
  unfolding indexes_def
proof (intro conjI allI)
  fix key
  note old = indexesD(1) [OF assms]
  show "map_of (position_index (index_row (length rows) row st)) key =
    position_of (\<lambda>r. row_key r = key) (rows @ [row])"
    using old [of key] old [of "row_key row"]
    by (cases "row_key row = key") (auto simp: index_row_def domIff split: option.splits)
next
  fix room
  show "(case map_of (room_index (index_row (length rows) row st)) room of None \<Rightarrow> [] | Some ps \<Rightarrow> ps) =
      filter (\<lambda>p. row_room_id ((rows @ [row]) ! p) = room) [0..<length (rows @ [row])]"
    unfolding room_positions_snoc
    using indexesD(2) [OF assms, of room] by (simp add: index_row_def push_position_def)
qed

lemma index_row_other [simp]:
  "table_rows (index_row p row st) = table_rows st" "indexed_rows (index_row p row st) = indexed_rows st"
  "transitions (index_row p row st) = transitions st" "transition_index (index_row p row st) = transition_index st"
  by (simp_all add: index_row_def)

lemma index_rows_step: "indexes done st \<Longrightarrow> indexes (done @ rows) (index_rows (length done) rows st)"
proof (induction rows arbitrary: "done" st)
  case (Cons row rows)
  show ?case using Cons.IH [OF index_row_step [OF Cons.prems, of row]] by simp
qed simp

lemma index_rows_other [simp]:
  "table_rows (index_rows p rows st) = table_rows st"
  by (induction rows arbitrary: p st) simp_all

lemma indexes_other [simp]: "indexes rows (st\<lparr>indexed_rows := n\<rparr>) \<longleftrightarrow> indexes rows st"
  "indexes rows (st\<lparr>table_rows := rs\<rparr>) \<longleftrightarrow> indexes rows st"
  "indexes rows (st\<lparr>transitions := ts\<rparr>) \<longleftrightarrow> indexes rows st"
  "indexes rows (st\<lparr>transition_index := ti\<rparr>) \<longleftrightarrow> indexes rows st"
  by (simp_all add: indexes_def)

lemma rebuild_in_step: "in_step (rebuild_state_index st)"
  using index_rows_step [of "[]" "st\<lparr>position_index := [], room_index := []\<rparr>" "table_rows st"]
  by (simp add: in_step_def rebuild_state_index_def indexes_empty)

section \<open>Every writer keeps the indexes in step\<close>

text \<open>The indexes depend on the rooms and keys of the rows only.\<close>

definition row_names :: "state_row \<Rightarrow> byte_string \<times> byte_string \<times> byte_string" where
  "row_names row = (row_room_id row, row_event_type row, row_state_key row)"

lemma position_of_map: "position_of P (map f xs) = position_of (\<lambda>x. P (f x)) xs"
  by (induction xs) simp_all

lemma indexes_cong:
  assumes "map row_names rows = map row_names rows'" "indexes rows st"
  shows "indexes rows' st"
proof -
  have len: "length rows' = length rows" using map_eq_imp_length_eq [OF assms(1)] by simp
  have at: "row_names (rows ! p) = row_names (rows' ! p)" if "p < length rows" for p
    using arg_cong [OF assms(1), of "\<lambda>xs. xs ! p"] that len by simp
  have keys: "map row_key rows = map row_key rows'"
    using len by (intro nth_equalityI) (auto simp: row_key_def row_names_def dest: at)
  have "position_of (\<lambda>row. row_key row = key) rows = position_of (\<lambda>row. row_key row = key) rows'" for key
    using arg_cong [OF keys, of "position_of (\<lambda>k. k = key)"] by (simp add: position_of_map)
  moreover have "filter (\<lambda>p. row_room_id (rows ! p) = room) [0..<length rows] =
      filter (\<lambda>p. row_room_id (rows' ! p) = room) [0..<length rows']" for room
    unfolding len by (rule filter_cong) (use at in \<open>auto simp: row_names_def\<close>)
  ultimately show ?thesis using assms(2) by (simp add: indexes_def)
qed

lemma update_first_names:
  "(\<And>x. row_names (f x) = row_names x) \<Longrightarrow> map row_names (update_first P f rows) = map row_names rows"
  by (induction rows) simp_all

lemma row_names_event [simp]: "row_names (row\<lparr>row_event_id := e\<rparr>) = row_names row"
  by (simp add: row_names_def)

lemma length_update_first [simp]: "length (update_first P f xs) = length xs"
  by (induction xs) simp_all

lemma put_state_row_in_step:
  assumes "in_step st"
  shows "in_step (put_state_row row st)"
proof (cases "list_ex (state_row_is (row_room_id row) (row_event_type row) (row_state_key row)) (table_rows st)")
  case True
  have "indexes (update_first (state_row_is (row_room_id row) (row_event_type row) (row_state_key row))
      (\<lambda>r. r\<lparr>row_event_id := row_event_id row\<rparr>) (table_rows st)) st"
    by (rule indexes_cong [OF update_first_names [symmetric]]) (use assms in \<open>simp_all add: in_step_def\<close>)
  then show ?thesis using True assms by (simp add: put_state_row_def in_step_def)
next
  case False
  have "indexes (table_rows st @ [row]) (index_row (length (table_rows st)) row st)"
    using assms by (intro index_row_step) (simp add: in_step_def)
  then have "indexes (table_rows st @ [row])
      (index_row (length (table_rows st)) row (st\<lparr>table_rows := table_rows st @ [row]\<rparr>))"
    by (simp add: indexes_def index_row_def)
  then show ?thesis
    using False assms by (simp add: put_state_row_def note_state_row_appended_def in_step_def)
qed

lemma in_step_transitions [simp]:
  "in_step (st\<lparr>transitions := ts\<rparr>) \<longleftrightarrow> in_step st" "in_step (push_transition row previous st) \<longleftrightarrow> in_step st"
  by (simp_all add: in_step_def push_transition_def)

lemma apply_current_state_in_step: "in_step st \<Longrightarrow> in_step (apply_current_state st row previous)"
  by (simp add: apply_current_state_def Let_def put_state_row_in_step split: option.split)

lemma commit_state_row_in_step: "in_step st \<Longrightarrow> in_step (commit_state_row st row previous)"
  by (simp add: commit_state_row_def put_state_row_in_step)

lemma reload_in_step: "in_step (reload_room_state st room rows)"
  by (simp add: reload_room_state_def rebuild_in_step)

section \<open>The readers scan\<close>

lemma state_row_is_key: "state_row_is room_id event_type state_key row \<Longrightarrow>
    row_key row = state_position_key room_id event_type state_key"
  by (simp add: state_row_is_def row_key_def)

lemma find_current_is_scan:
  assumes "in_step st"
  shows "find_current_state_event_id st room_id event_type state_key =
    scan_state room_id event_type state_key (table_rows st)"
proof -
  let ?is = "state_row_is room_id event_type state_key" and ?key = "state_position_key room_id event_type state_key"
  let ?rows = "table_rows st"
  have step: "indexed_rows st = length ?rows"
    "map_of (position_index st) ?key = position_of (\<lambda>row. row_key row = ?key) ?rows"
    using assms indexesD(1) by (simp_all add: in_step_def)
  show ?thesis
  proof (cases "position_of (\<lambda>row. row_key row = ?key) ?rows")
    case None
    then have "\<forall>row \<in> set ?rows. \<not> ?is row"
      unfolding position_of_None using state_row_is_key by blast
    then have "find ?is ?rows = None" by (simp add: find_None_iff)
    then show ?thesis using step None by (simp add: find_current_state_event_id_def scan_state_def)
  next
    case (Some p)
    note p = position_of_Some [OF Some]
    show ?thesis
    proof (cases "?is (?rows ! p)")
      case True
      have "\<forall>q < p. \<not> ?is (?rows ! q)" using p state_row_is_key by blast
      then have "find ?is ?rows = Some (?rows ! p)" using p True by (intro find_first) simp_all
      then show ?thesis using step Some p True by (simp add: find_current_state_event_id_def scan_state_def)
    next
      case False
      then show ?thesis using step Some by (simp add: find_current_state_event_id_def)
    qed
  qed
qed

lemma map_nth_filter: "map (\<lambda>p. xs ! p) (filter (\<lambda>p. P (xs ! p)) [0..<length xs]) = filter P xs"
proof -
  have "filter P xs = filter P (map (\<lambda>p. xs ! p) [0..<length xs])" by (simp add: map_nth)
  also have "\<dots> = map (\<lambda>p. xs ! p) (filter (\<lambda>p. P (xs ! p)) [0..<length xs])"
    by (simp add: filter_map comp_def)
  finally show ?thesis by simp
qed

lemma for_each_is_scan:
  assumes "in_step st"
  shows "for_each_room_state_row st room_id = filter (\<lambda>row. row_room_id row = room_id) (table_rows st)"
proof -
  have step: "indexed_rows st = length (table_rows st)"
    "(case map_of (room_index st) room_id of None \<Rightarrow> [] | Some ps \<Rightarrow> ps) =
      filter (\<lambda>p. row_room_id (table_rows st ! p) = room_id) [0..<length (table_rows st)]"
    using assms indexesD(2) by (simp_all add: in_step_def)
  note scan = map_nth_filter [of "table_rows st" "\<lambda>row. row_room_id row = room_id"]
  show ?thesis
  proof (cases "map_of (room_index st) room_id")
    case None
    then have "filter (\<lambda>row. row_room_id row = room_id) (table_rows st) = []" using step(2) scan by simp
    then show ?thesis using None step(1) by (simp add: for_each_room_state_row_def)
  next
    case (Some ps)
    then have "map (\<lambda>p. table_rows st ! p) ps = filter (\<lambda>row. row_room_id row = room_id) (table_rows st)"
      using step(2) scan by simp
    then show ?thesis using Some step(1) by (simp add: for_each_room_state_row_def Let_def)
  qed
qed

section \<open>Reading what was written\<close>

text \<open>A store of current values: what a write changes, and what a sequence of writes leaves.\<close>

locale current_store =
  fixes put :: "'s \<Rightarrow> 'k \<Rightarrow> 'v \<Rightarrow> 's"
    and lookup :: "'s \<Rightarrow> 'k \<Rightarrow> 'v option"
    and ok :: "'s \<Rightarrow> bool"
  assumes ok_put: "ok s \<Longrightarrow> ok (put s k v)"
    and lookup_put: "ok s \<Longrightarrow> lookup (put s k v) = (lookup s)(k \<mapsto> v)"
begin

abbreviation puts :: "('k \<times> 'v) list \<Rightarrow> 's \<Rightarrow> 's" where
  "puts ws s \<equiv> fold (\<lambda>(k, v) s. put s k v) ws s"

lemma ok_puts: "ok s \<Longrightarrow> ok (puts ws s)"
  by (induction ws arbitrary: s) (auto simp: ok_put)

lemma lookup_puts: "ok s \<Longrightarrow> lookup (puts ws s) = lookup s ++ map_of (rev ws)"
  by (induction ws arbitrary: s) (auto simp: ok_put lookup_put)

end

abbreviation names_of :: "byte_string \<times> byte_string \<times> byte_string \<Rightarrow> state_row \<Rightarrow> bool" where
  "names_of names \<equiv> \<lambda>row. row_names row = names"

lemma state_row_is_names: "state_row_is r t k = names_of (r, t, k)"
  by (auto simp: state_row_is_def row_names_def)

lemma find_update_first:
  "map_option row_event_id (find (names_of names)
      (update_first (names_of names') (\<lambda>r. r\<lparr>row_event_id := e\<rparr>) rows)) =
    (if names = names' \<and> list_ex (names_of names') rows then Some e
     else map_option row_event_id (find (names_of names) rows))"
  by (induction rows) auto

lemma put_state_row_scan:
  "map_option row_event_id (find (names_of names) (table_rows (put_state_row row st))) =
    (if names = row_names row then Some (row_event_id row)
     else map_option row_event_id (find (names_of names) (table_rows st)))"
proof -
  have append: "find (names_of names) (rows @ [row]) =
      (case find (names_of names) rows of Some r \<Rightarrow> Some r | None \<Rightarrow> if row_names row = names then Some row else None)"
    for rows by (induction rows) auto
  have same: "state_row_is (row_room_id row) (row_event_type row) (row_state_key row) = names_of (row_names row)"
    by (simp add: state_row_is_names row_names_def)
  have rows: "table_rows (put_state_row row st) =
      (if list_ex (names_of (row_names row)) (table_rows st)
       then update_first (names_of (row_names row)) (\<lambda>r. r\<lparr>row_event_id := row_event_id row\<rparr>) (table_rows st)
       else table_rows st @ [row])"
    by (simp add: put_state_row_def same note_state_row_appended_def)
  show ?thesis
  proof (cases "list_ex (names_of (row_names row)) (table_rows st)")
    case True
    then show ?thesis unfolding rows by (simp add: find_update_first)
  next
    case False
    then have "find (names_of (row_names row)) (table_rows st) = None"
      by (simp add: find_None_iff list_ex_iff)
    then show ?thesis unfolding rows using False append by (auto split: option.splits)
  qed
qed

text \<open>The current state as a map from names to event ids.\<close>

definition current_state_of :: "state_tables \<Rightarrow> byte_string \<times> byte_string \<times> byte_string \<Rightarrow> byte_string option" where
  "current_state_of st = (\<lambda>(r, t, k). find_current_state_event_id st r t k)"

definition write_current_state ::
    "state_tables \<Rightarrow> byte_string \<times> byte_string \<times> byte_string \<Rightarrow> byte_string \<Rightarrow> state_tables" where
  "write_current_state st names eid =
     (case names of (r, t, k) \<Rightarrow>
        snd (store_state True True st
          \<lparr>row_room_id = r, row_event_type = t, row_state_key = k, row_event_id = eid\<rparr>))"

lemma current_state_of_scan:
  "in_step st \<Longrightarrow> current_state_of st names = map_option row_event_id (find (names_of names) (table_rows st))"
  by (cases names) (simp add: current_state_of_def find_current_is_scan scan_state_def state_row_is_names)

lemma apply_current_state_rows [simp]:
  "table_rows (apply_current_state st row previous) = table_rows (put_state_row row st)"
  by (simp add: apply_current_state_def Let_def push_transition_def split: option.split)

lemma write_current_state_in_step: "in_step st \<Longrightarrow> in_step (write_current_state st names eid)"
  by (simp add: write_current_state_def store_state_def Let_def apply_current_state_in_step split: prod.split)

lemma write_current_state_lookup:
  assumes "in_step st"
  shows "current_state_of (write_current_state st names eid) = (current_state_of st)(names \<mapsto> eid)"
proof
  fix n
  obtain r t k where names: "names = (r, t, k)" by (cases names)
  let ?row = "\<lparr>row_room_id = r, row_event_type = t, row_state_key = k, row_event_id = eid\<rparr>"
  have row: "row_names ?row = names" by (simp add: row_names_def names)
  show "current_state_of (write_current_state st names eid) n = ((current_state_of st)(names \<mapsto> eid)) n"
  proof (cases "scan_state r t k (table_rows st) = Some eid")
    case True
    then have "write_current_state st names eid = st"
      by (simp add: write_current_state_def store_state_def names)
    moreover have "current_state_of st names = Some eid"
      using True assms by (simp add: current_state_of_def names find_current_is_scan)
    ultimately show ?thesis by simp
  next
    case False
    define previous where "previous = (case scan_state r t k (table_rows st) of None \<Rightarrow> [] | Some e \<Rightarrow> e)"
    have w: "write_current_state st names eid = apply_current_state st ?row previous"
      using False by (simp add: write_current_state_def store_state_def names previous_def Let_def)
    have "in_step (apply_current_state st ?row previous)" by (rule apply_current_state_in_step [OF assms])
    then show ?thesis
      unfolding w using put_state_row_scan [of n ?row st] assms row
      by (simp add: current_state_of_scan)
  qed
qed

interpretation current_state: current_store write_current_state current_state_of in_step
  by unfold_locales (simp_all add: write_current_state_in_step write_current_state_lookup)

section \<open>Reachable stores\<close>

text \<open>
  The writers: hydration rebuilds, rows are stored or committed with their event, a room is reloaded, and
  storing an event with its bookkeeping applies the rows that state resolution changed.
\<close>

inductive reachable_tables :: "state_tables \<Rightarrow> bool" where
  hydrated: "reachable_tables (rebuild_state_index st)"
| stored: "reachable_tables st \<Longrightarrow> reachable_tables (snd (store_state matches committed st row))"
| committed: "reachable_tables st \<Longrightarrow> reachable_tables (commit_state_row st row previous)"
| reloaded: "reachable_tables st \<Longrightarrow> reachable_tables (reload_room_state st room rows)"
| applied: "reachable_tables st \<Longrightarrow> reachable_tables (apply_current_state st row previous)"

lemma reachable_in_step: "reachable_tables st \<Longrightarrow> in_step st"
proof (induction rule: reachable_tables.induct)
  case (stored st matches committed row)
  then show ?case by (simp add: store_state_def Let_def apply_current_state_in_step)
qed (simp_all add: rebuild_in_step commit_state_row_in_step reload_in_step apply_current_state_in_step)

text \<open>
  A row edited in place, behind the back of the store, is not found: the number of rows is unchanged, the
  index is trusted, and a key it does not hold is reported as absent without a scan.
\<close>

definition edited_tables :: state_tables where
  "edited_tables =
     (rebuild_state_index \<lparr>table_rows = [\<lparr>row_room_id = ''!r'', row_event_type = ''m.a'', row_state_key = '''', row_event_id = ''$1''\<rparr>],
        position_index = [], room_index = [], indexed_rows = 0, transitions = [], transition_index = []\<rparr>)
     \<lparr>table_rows := [\<lparr>row_room_id = ''!r'', row_event_type = ''m.b'', row_state_key = '''', row_event_id = ''$2''\<rparr>]\<rparr>"

lemma edited_row_is_missed:
  "find_current_state_event_id edited_tables ''!r'' ''m.b'' '''' = None"
  "scan_state ''!r'' ''m.b'' '''' (table_rows edited_tables) = Some ''$2''"
  by code_simp+

section \<open>Properties\<close>

text \<open>
  C30: the state indexes refine a scan. In every store reached by hydration, by storing state, by committing
  events with their state and by reloading rooms, in any order and with any outcome of the transactions, the
  two indexed readers return exactly what a scan of the state rows returns, even when names contain NUL bytes.
\<close>

theorem state_index_refines_scan:
  assumes "reachable_tables st"
  shows "find_current_state_event_id st room_id event_type state_key =
      scan_state room_id event_type state_key (table_rows st) \<and>
    for_each_room_state_row st room_id = filter (\<lambda>row. row_room_id row = room_id) (table_rows st)"
  using find_current_is_scan for_each_is_scan reachable_in_step [OF assms] by simp

theorem state_index_refines_scan_witness:
  "for_each_room_state_row (commit_state_row (rebuild_state_index edited_tables)
      \<lparr>row_room_id = ''!s'', row_event_type = ''m.a'', row_state_key = '''', row_event_id = ''$3''\<rparr> '''') ''!s'' =
    [\<lparr>row_room_id = ''!s'', row_event_type = ''m.a'', row_state_key = '''', row_event_id = ''$3''\<rparr>]"
proof -
  let ?st = "commit_state_row (rebuild_state_index edited_tables)
      \<lparr>row_room_id = ''!s'', row_event_type = ''m.a'', row_state_key = '''', row_event_id = ''$3''\<rparr> ''''"
  have "reachable_tables ?st" by (intro reachable_tables.intros)
  then have "for_each_room_state_row ?st ''!s'' = filter (\<lambda>row. row_room_id row = ''!s'') (table_rows ?st)"
    using state_index_refines_scan by blast
  also have "\<dots> = [\<lparr>row_room_id = ''!s'', row_event_type = ''m.a'', row_state_key = '''', row_event_id = ''$3''\<rparr>]"
    by code_simp
  finally show ?thesis .
qed

text \<open>
  C31: the current state is a map. After any sequence of state rows stored into a reachable store whose
  transactions succeed, the lookup returns for every room, type and key the last event stored there, and what
  it returned before for all others.
\<close>

theorem stored_state_is_read_back:
  assumes "reachable_tables st"
  shows "current_state_of (fold (\<lambda>(names, eid) s. write_current_state s names eid) rows st) =
    current_state_of st ++ map_of (rev rows)"
  by (rule current_state.lookup_puts [OF reachable_in_step [OF assms]])

theorem stored_state_is_read_back_witness:
  "current_state_of (fold (\<lambda>(names, eid) s. write_current_state s names eid)
      [((''!r'', ''m.a'', ''''), ''$7''), ((''!r'', ''m.a'', ''''), ''$8'')] (rebuild_state_index edited_tables))
    (''!r'', ''m.a'', '''') = Some ''$8''"
  using stored_state_is_read_back [OF hydrated [of edited_tables],
      of "[((''!r'', ''m.a'', ''''), ''$7''), ((''!r'', ''m.a'', ''''), ''$8'')]"] by simp

end
