(* ===== verification/ServerAcl.thy ===== *)
theory ServerAcl
  imports Redaction StateIndex
begin

text \<open>
  Server access control lists (\<open>src/src/federation/server_acl.cpp\<close>): glob matching, port stripping, the
  decision, and the list of a room read through the state index. \<open>inet_pton\<close> is a parameter, one predicate
  per address family; \<open>std::tolower\<close> is the one of the C locale, which the program never changes. The event
  table is known by its lookup, the JSON text of an event id.
\<close>

section \<open>Glob matching\<close>

definition to_lower_ascii :: "char \<Rightarrow> char" where
  "to_lower_ascii c = (if is_upper_ascii c then char_of (byte_of c + 32) else c)"

definition case_insensitive_equal :: "char \<Rightarrow> char \<Rightarrow> bool" where
  "case_insensitive_equal a b \<longleftrightarrow> to_lower_ascii a = to_lower_ascii b"

fun star_row :: "bool \<Rightarrow> bool list \<Rightarrow> bool list" where
  "star_row carry [] = []"
| "star_row carry (p # previous) = (p \<or> carry) # star_row (p \<or> carry) previous"

text \<open>One pass of the outer loop: \<open>previous\<close> and the result have one entry per prefix of the text.\<close>

definition glob_row :: "byte_string \<Rightarrow> char \<Rightarrow> bool list \<Rightarrow> bool list" where
  "glob_row text pattern_char previous =
     (if pattern_char = CHR ''*'' then star_row False previous
      else if pattern_char = CHR ''?'' then False # butlast previous
      else False # map2 (\<lambda>p c. case_insensitive_equal pattern_char c \<and> p) (butlast previous) text)"

definition glob_match :: "byte_string \<Rightarrow> byte_string \<Rightarrow> bool" where
  "glob_match pattern text =
     (if pattern = [] then text = []
      else fold (glob_row text) pattern (True # replicate (length text) False) ! length text)"

section \<open>Server names\<close>

definition rfind_char :: "char \<Rightarrow> byte_string \<Rightarrow> nat option" where
  "rfind_char c s = map_option (\<lambda>i. length s - 1 - i) (find_char c (rev s))"

definition strip_server_port :: "byte_string \<Rightarrow> byte_string" where
  "strip_server_port server_name =
     (if server_name = [] then []
      else if hd server_name = CHR ''['' then
        (case find_char CHR '']'' server_name of
           None \<Rightarrow> server_name
         | Some close \<Rightarrow> take (close + 1) server_name)
      else (case rfind_char CHR '':'' server_name of
         None \<Rightarrow> server_name
       | Some colon \<Rightarrow>
           if colon = 0 then server_name
           else if list_all is_digit (drop (colon + 1) server_name) then take colon server_name
           else server_name))"

definition host_without_brackets :: "byte_string \<Rightarrow> byte_string" where
  "host_without_brackets host =
     (if 2 \<le> length host \<and> hd host = CHR ''['' \<and> last host = CHR '']'' then butlast (tl host) else host)"

record ip_parser =
  inet_pton4 :: "byte_string \<Rightarrow> bool"
  inet_pton6 :: "byte_string \<Rightarrow> bool"

text \<open>\<open>c_str\<close>: the C function reads up to the first NUL byte.\<close>

definition ip_address_is_valid :: "ip_parser \<Rightarrow> byte_string \<Rightarrow> bool" where
  "ip_address_is_valid ip address =
     (let text = takeWhile (\<lambda>c. c \<noteq> CHR 0x00) address in inet_pton4 ip text \<or> inet_pton6 ip text)"

definition server_name_is_ip_literal :: "ip_parser \<Rightarrow> byte_string \<Rightarrow> bool" where
  "server_name_is_ip_literal ip server_name =
     (let host = strip_server_port server_name in
      host \<noteq> [] \<and> ip_address_is_valid ip (host_without_brackets host))"

section \<open>Lists and decisions\<close>

record server_acl_event =
  acl_allow :: "byte_string list"
  acl_deny :: "byte_string list"
  allow_ip_literals :: bool

datatype server_acl_decision = Acl_allow | Acl_deny

record server_acl_evaluation =
  acl_decision :: server_acl_decision
  acl_rule :: byte_string
  acl_reason :: byte_string

definition string_array_member :: "json_object \<Rightarrow> byte_string \<Rightarrow> byte_string list" where
  "string_array_member obj key =
     (case object_member obj key of
        Some (JArray es) \<Rightarrow> List.map_filter (\<lambda>e. case e of JString s \<Rightarrow> Some s | _ \<Rightarrow> None) es
      | _ \<Rightarrow> [])"

definition parse_server_acl :: "json \<Rightarrow> server_acl_event" where
  "parse_server_acl content =
     (case content of
        JObject obj \<Rightarrow>
          \<lparr>acl_allow = string_array_member obj ''allow'', acl_deny = string_array_member obj ''deny'',
           allow_ip_literals = (case object_member obj ''allow_ip_literals'' of Some (JBool b) \<Rightarrow> b | _ \<Rightarrow> True)\<rparr>
      | _ \<Rightarrow> \<lparr>acl_allow = [], acl_deny = [], allow_ip_literals = True\<rparr>)"

definition acl_denied :: "byte_string \<Rightarrow> byte_string \<Rightarrow> server_acl_evaluation" where
  "acl_denied rule why = \<lparr>acl_decision = Acl_deny, acl_rule = rule, acl_reason = why\<rparr>"

definition evaluate_server_acl :: "ip_parser \<Rightarrow> byte_string \<Rightarrow> server_acl_event \<Rightarrow> server_acl_evaluation" where
  "evaluate_server_acl ip server_name acl =
     (let host = strip_server_port server_name in
      if host = [] then acl_denied ''empty_server_name'' ''server name is empty after port stripping''
      else if \<not> allow_ip_literals acl \<and> server_name_is_ip_literal ip host
      then acl_denied ''allow_ip_literals'' ''server name is an IP literal and allow_ip_literals is false''
      else case find (\<lambda>pattern. glob_match pattern host) (acl_deny acl) of
        Some pattern \<Rightarrow> acl_denied ''deny'' (''server name matches deny list entry: '' @ pattern)
      | None \<Rightarrow>
          (case find (\<lambda>pattern. glob_match pattern host) (acl_allow acl) of
             Some pattern \<Rightarrow>
               \<lparr>acl_decision = Acl_allow, acl_rule = ''allow'',
                acl_reason = ''server name matches allow list entry: '' @ pattern\<rparr>
           | None \<Rightarrow> acl_denied ''allow'' ''server name did not match any allow list entry''))"

definition load_room_server_acl ::
    "yyjson_reader \<Rightarrow> state_tables \<Rightarrow> (byte_string \<Rightarrow> byte_string option) \<Rightarrow> byte_string \<Rightarrow> server_acl_event option" where
  "load_room_server_acl read_raw st events room_id =
     (case find_current_state_event_id st room_id ''m.room.server_acl'' '''' of
        None \<Rightarrow> None
      | Some eid \<Rightarrow>
          if eid = [] then None
          else (case events eid of
             None \<Rightarrow> None
           | Some text \<Rightarrow>
               (case parse_lossless read_raw text of
                  Inl err \<Rightarrow> None
                | Inr parsed \<Rightarrow>
                    (case parsed of
                       JObject obj \<Rightarrow> map_option parse_server_acl (object_member obj ''content'')
                     | _ \<Rightarrow> None))))"

definition room_server_acl_allows ::
    "ip_parser \<Rightarrow> yyjson_reader \<Rightarrow> state_tables \<Rightarrow> (byte_string \<Rightarrow> byte_string option) \<Rightarrow> byte_string
      \<Rightarrow> byte_string \<Rightarrow> bool" where
  "room_server_acl_allows ip read_raw st events room_id server_name =
     (case load_room_server_acl read_raw st events room_id of
        None \<Rightarrow> True
      | Some acl \<Rightarrow> acl_decision (evaluate_server_acl ip server_name acl) = Acl_allow)"

section \<open>What a pattern matches\<close>

text \<open>The text splits into one part per pattern character.\<close>

definition glob_token :: "char \<Rightarrow> byte_string \<Rightarrow> bool" where
  "glob_token c part \<longleftrightarrow>
     (if c = CHR ''*'' then True
      else if c = CHR ''?'' then length part = 1
      else \<exists>d. part = [d] \<and> case_insensitive_equal c d)"

definition glob_matches :: "byte_string \<Rightarrow> byte_string \<Rightarrow> bool" where
  "glob_matches pattern text \<longleftrightarrow> (\<exists>parts. text = concat parts \<and> list_all2 glob_token pattern parts)"

lemma glob_matches_Nil: "glob_matches [] text \<longleftrightarrow> text = []"
  by (simp add: glob_matches_def)

lemma glob_matches_snoc:
  "glob_matches (pattern @ [c]) text \<longleftrightarrow>
     (\<exists>front part. text = front @ part \<and> glob_matches pattern front \<and> glob_token c part)"
proof
  assume "glob_matches (pattern @ [c]) text"
  then obtain parts where p: "text = concat parts" "list_all2 glob_token (pattern @ [c]) parts"
    unfolding glob_matches_def by blast
  then obtain ps part where "parts = ps @ [part]" "list_all2 glob_token pattern ps" "glob_token c part"
    by (auto simp: list_all2_append1 list_all2_Cons1)
  then show "\<exists>front part. text = front @ part \<and> glob_matches pattern front \<and> glob_token c part"
    using p(1) unfolding glob_matches_def by (intro exI [of _ "concat ps"] exI [of _ part]) auto
next
  assume "\<exists>front part. text = front @ part \<and> glob_matches pattern front \<and> glob_token c part"
  then obtain ps part where "text = concat ps @ part" "list_all2 glob_token pattern ps" "glob_token c part"
    unfolding glob_matches_def by blast
  then show "glob_matches (pattern @ [c]) text"
    unfolding glob_matches_def by (intro exI [of _ "ps @ [part]"]) (simp add: list_all2_appendI)
qed

lemma glob_matches_take:
  assumes "i \<le> length text"
  shows "glob_matches (pattern @ [c]) (take i text) \<longleftrightarrow>
    (\<exists>j \<le> i. glob_matches pattern (take j text) \<and> glob_token c (drop j (take i text)))"
proof
  assume "glob_matches (pattern @ [c]) (take i text)"
  then obtain front part where f: "take i text = front @ part" "glob_matches pattern front" "glob_token c part"
    unfolding glob_matches_snoc by blast
  have len: "length front \<le> i" using arg_cong [OF f(1), of length] assms by simp
  have "front = take (length front) text" "part = drop (length front) (take i text)"
    using f(1) len by (metis append_eq_conv_conj min.absorb1 take_take, simp)
  then show "\<exists>j \<le> i. glob_matches pattern (take j text) \<and> glob_token c (drop j (take i text))"
    using f(2,3) len by (intro exI [of _ "length front"]) simp
next
  assume "\<exists>j \<le> i. glob_matches pattern (take j text) \<and> glob_token c (drop j (take i text))"
  then obtain j where j: "j \<le> i" "glob_matches pattern (take j text)" "glob_token c (drop j (take i text))" by blast
  have "take i text = take j text @ drop j (take i text)"
    using append_take_drop_id [of j "take i text"] j(1) by (simp add: min_absorb1)
  then show "glob_matches (pattern @ [c]) (take i text)" unfolding glob_matches_snoc using j(2,3) by blast
qed


section \<open>The table computes the matches\<close>

definition row_for :: "byte_string \<Rightarrow> byte_string \<Rightarrow> bool list \<Rightarrow> bool" where
  "row_for text pattern row \<longleftrightarrow> length row = Suc (length text) \<and>
     (\<forall>i \<le> length text. row ! i \<longleftrightarrow> glob_matches pattern (take i text))"

lemma star_row_nth: "i < length row \<Longrightarrow> star_row carry row ! i \<longleftrightarrow> carry \<or> (\<exists>j \<le> i. row ! j)"
proof (induction row arbitrary: carry i)
  case (Cons p row)
  show ?case
  proof (cases i)
    case (Suc k)
    have "(\<exists>j \<le> Suc k. (p # row) ! j) \<longleftrightarrow> p \<or> (\<exists>j \<le> k. row ! j)"
      by (metis (no_types, lifting) Suc_le_mono nth_Cons_0 nth_Cons_Suc not0_implies_Suc zero_le)
    then show ?thesis using Cons Suc by auto
  qed auto
qed simp

lemma length_star_row [simp]: "length (star_row carry row) = length row"
  by (induction row arbitrary: carry) simp_all

lemma row_for_start: "row_for text [] (True # replicate (length text) False)"
  by (auto simp: row_for_def glob_matches_Nil nth_Cons split: nat.split)

lemma glob_token_length: "c \<noteq> CHR ''*'' \<Longrightarrow> glob_token c part \<Longrightarrow> length part = 1"
  by (auto simp: glob_token_def split: if_splits)

lemma glob_token_single:
  assumes "i < length text" "c \<noteq> CHR ''*''"
  shows "(\<exists>j \<le> Suc i. glob_matches pattern (take j text) \<and> glob_token c (drop j (take (Suc i) text))) \<longleftrightarrow>
    glob_matches pattern (take i text) \<and> glob_token c [text ! i]"
proof
  assume "\<exists>j \<le> Suc i. glob_matches pattern (take j text) \<and> glob_token c (drop j (take (Suc i) text))"
  then obtain j where j: "j \<le> Suc i" "glob_matches pattern (take j text)" "glob_token c (drop j (take (Suc i) text))"
    by blast
  have "length (drop j (take (Suc i) text)) = 1"
    by (rule glob_token_length [OF assms(2) j(3)])
  then have "j = i" using j(1) assms(1) by simp
  then show "glob_matches pattern (take i text) \<and> glob_token c [text ! i]"
    using j assms(1) by (simp add: take_Suc_conv_app_nth)
next
  assume "glob_matches pattern (take i text) \<and> glob_token c [text ! i]"
  then show "\<exists>j \<le> Suc i. glob_matches pattern (take j text) \<and> glob_token c (drop j (take (Suc i) text))"
    using assms(1) by (intro exI [of _ i]) (simp add: take_Suc_conv_app_nth)
qed

lemma glob_token_empty:
  assumes "c \<noteq> CHR ''*''"
  shows "\<not> glob_matches (pattern @ [c]) []"
  using assms glob_matches_take [of 0 "[]" pattern c] by (simp add: glob_token_def)

lemma glob_row_step:
  assumes "row_for text pattern row"
  shows "row_for text (pattern @ [c]) (glob_row text c row)"
proof (cases "c = CHR ''*''")
  case True
  have "star_row False row ! i \<longleftrightarrow> glob_matches (pattern @ [c]) (take i text)" if i: "i \<le> length text" for i
  proof -
    have "star_row False row ! i \<longleftrightarrow> (\<exists>j \<le> i. row ! j)"
      using star_row_nth [of i row False] assms i by (simp add: row_for_def)
    also have "\<dots> \<longleftrightarrow> (\<exists>j \<le> i. glob_matches pattern (take j text))"
      using assms i by (auto simp: row_for_def)
    finally show ?thesis unfolding glob_matches_take [OF i] using True by (simp add: glob_token_def)
  qed
  then show ?thesis using True assms by (simp add: row_for_def glob_row_def)
next
  case False
  have len: "length row = Suc (length text)" "length (butlast row) = length text"
    using assms by (simp_all add: row_for_def)
  have single: "glob_matches (pattern @ [c]) (take (Suc i) text) \<longleftrightarrow> row ! i \<and> glob_token c [text ! i]"
    if "i < length text" for i
    using that glob_matches_take [of "Suc i" "text" pattern c] glob_token_single [OF that False, of pattern] assms
    by (simp add: row_for_def)
  have nth: "glob_row text c row ! Suc i \<longleftrightarrow> row ! i \<and> glob_token c [text ! i]" if "i < length text" for i
    using that False len by (auto simp: glob_row_def glob_token_def nth_butlast)
  have zero: "\<not> glob_row text c row ! 0" using False by (simp add: glob_row_def)
  have "glob_row text c row ! i \<longleftrightarrow> glob_matches (pattern @ [c]) (take i text)" if "i \<le> length text" for i
  proof (cases i)
    case 0
    then show ?thesis using zero glob_token_empty [OF False] by simp
  next
    case (Suc k)
    then show ?thesis using that single [of k] nth [of k] by simp
  qed
  moreover have "length (glob_row text c row) = Suc (length text)"
    using False len by (simp add: glob_row_def)
  ultimately show ?thesis by (simp add: row_for_def)
qed

lemma glob_rows: "row_for text front row \<Longrightarrow> row_for text (front @ pattern) (fold (glob_row text) pattern row)"
proof (induction pattern arbitrary: front row)
  case (Cons c pattern)
  show ?case using Cons.IH [OF glob_row_step [OF Cons.prems, of c]] by simp
qed simp

lemma glob_match_iff: "glob_match pattern text \<longleftrightarrow> glob_matches pattern text"
proof (cases "pattern = []")
  case True
  then show ?thesis by (simp add: glob_match_def glob_matches_Nil)
next
  case False
  have "row_for text pattern (fold (glob_row text) pattern (True # replicate (length text) False))"
    using glob_rows [OF row_for_start, of "text" pattern] by simp
  then show ?thesis using False by (simp add: glob_match_def row_for_def)
qed

text \<open>The list of a room, found by a scan of the state rows.\<close>

definition scanned_acl ::
    "yyjson_reader \<Rightarrow> state_row list \<Rightarrow> (byte_string \<Rightarrow> byte_string option) \<Rightarrow> byte_string \<Rightarrow> server_acl_event option" where
  "scanned_acl read_raw rows events room_id =
     (case scan_state room_id ''m.room.server_acl'' '''' rows of
        None \<Rightarrow> None
      | Some eid \<Rightarrow>
          if eid = [] then None
          else (case events eid of
             None \<Rightarrow> None
           | Some text \<Rightarrow>
               (case parse_lossless read_raw text of
                  Inr (JObject obj) \<Rightarrow> map_option parse_server_acl (object_member obj ''content'')
                | _ \<Rightarrow> None)))"

definition acl_admits :: "ip_parser \<Rightarrow> byte_string \<Rightarrow> server_acl_event \<Rightarrow> bool" where
  "acl_admits ip host rules \<longleftrightarrow>
     host \<noteq> [] \<and> (server_name_is_ip_literal ip host \<longrightarrow> allow_ip_literals rules) \<and>
     (\<forall>pattern \<in> set (acl_deny rules). \<not> glob_matches pattern host) \<and>
     (\<exists>pattern \<in> set (acl_allow rules). glob_matches pattern host)"

lemma evaluate_admits:
  "acl_decision (evaluate_server_acl ip server_name rules) = Acl_allow \<longleftrightarrow>
     acl_admits ip (strip_server_port server_name) rules"
proof -
  let ?host = "strip_server_port server_name"
  have deny: "find (\<lambda>pattern. glob_matches pattern ?host) ps = None \<longleftrightarrow> (\<forall>p \<in> set ps. \<not> glob_matches p ?host)" for ps
    by (auto simp: find_None_iff)
  show ?thesis
    unfolding evaluate_server_acl_def glob_match_iff Let_def acl_admits_def
    using deny [of "acl_deny rules"] deny [of "acl_allow rules"]
    by (cases "find (\<lambda>pattern. glob_matches pattern ?host) (acl_deny rules)";
        cases "find (\<lambda>pattern. glob_matches pattern ?host) (acl_allow rules)") (auto simp: acl_denied_def)
qed

lemma load_is_scan:
  "in_step st \<Longrightarrow> load_room_server_acl read_raw st events room_id = scanned_acl read_raw (table_rows st) events room_id"
  unfolding load_room_server_acl_def scanned_acl_def
  by (simp add: find_current_is_scan split: option.split sum.split json.split)

definition sample_acl_tables :: state_tables where
  "sample_acl_tables = rebuild_state_index
     \<lparr>table_rows = [\<lparr>row_room_id = ''!r'', row_event_type = ''m.room.server_acl'', row_state_key = '''',
        row_event_id = ''$2''\<rparr>],
      position_index = [], room_index = [], indexed_rows = 0, transitions = [], transition_index = []\<rparr>"

definition sample_acl_reader :: yyjson_reader where
  "sample_acl_reader s =
     Inr (length s, Yy_obj [(''content'', Yy_obj [(''allow'', Yy_arr [Yy_str ''*'']), (''deny'', Yy_arr [Yy_str ''*.bad''])])])"

definition sample_ip_parser :: ip_parser where
  "sample_ip_parser = \<lparr>inet_pton4 = (\<lambda>_. False), inet_pton6 = (\<lambda>_. False)\<rparr>"

lemma sample_acl_parsed:
  "parse_lossless sample_acl_reader ''acl'' = Inr (JObject [(''content'',
     JObject [(''allow'', JArray [JString ''*'']), (''deny'', JArray [JString ''*.bad''])])])"
proof -
  have "utf8_is_valid ''acl''" "\<not> input_is_blank ''acl''" by code_simp+
  then show ?thesis
    by (simp add: parse_lossless_def parse_with_raw_numbers_def sample_acl_reader_def convert_yyjson_value.simps
        max_depth_def max_object_members_def)
qed

lemma sample_acl_scanned:
  "scanned_acl sample_acl_reader (table_rows sample_acl_tables) (\<lambda>_. Some ''acl'') ''!r'' =
     Some \<lparr>acl_allow = [''*''], acl_deny = [''*.bad''], allow_ip_literals = True\<rparr>"
proof -
  have "scan_state ''!r'' ''m.room.server_acl'' '''' (table_rows sample_acl_tables) = Some ''$2''" by code_simp
  then show ?thesis
    by (simp add: scanned_acl_def sample_acl_parsed parse_server_acl_def string_array_member_def object_member_def
        List.map_filter_def)
qed

lemma sample_acl_reachable: "reachable_tables sample_acl_tables"
  unfolding sample_acl_tables_def by (rule hydrated)

lemma sample_acl_allows:
  "room_server_acl_allows sample_ip_parser sample_acl_reader sample_acl_tables (\<lambda>_. Some ''acl'') ''!r'' ''ok.Org:8448''"
proof -
  have "acl_decision (evaluate_server_acl sample_ip_parser ''ok.Org:8448''
      \<lparr>acl_allow = [''*''], acl_deny = [''*.bad''], allow_ip_literals = True\<rparr>) = Acl_allow" by code_simp
  then show ?thesis
    by (simp add: room_server_acl_allows_def load_is_scan [OF reachable_in_step [OF sample_acl_reachable]]
        sample_acl_scanned)
qed

section \<open>Properties\<close>

text \<open>
  C36: glob matching. The table-based matcher accepts a text exactly when it splits into one part for each
  character of the pattern: anything for a star, one character for a question mark, and otherwise one
  character equal up to case.
\<close>

theorem glob_match_exact:
  "glob_match pattern text \<longleftrightarrow> (\<exists>parts. text = concat parts \<and> list_all2 glob_token pattern parts)"
  by (simp add: glob_match_iff glob_matches_def)

text \<open>
  C35: access of a server to a room. In a reachable store, a room without a readable list admits every server.
  Otherwise a server is admitted exactly when its name without the port is not empty, is no address literal
  the list excludes, matches no entry of the deny list and matches an entry of the allow list.
\<close>

theorem server_acl_decision:
  assumes "reachable_tables st"
  shows "room_server_acl_allows ip read_raw st events room_id server_name \<longleftrightarrow>
    (case scanned_acl read_raw (table_rows st) events room_id of
       None \<Rightarrow> True
     | Some rules \<Rightarrow> acl_admits ip (strip_server_port server_name) rules)"
  unfolding room_server_acl_allows_def load_is_scan [OF reachable_in_step [OF assms]]
  by (cases "scanned_acl read_raw (table_rows st) events room_id") (simp_all add: evaluate_admits)

theorem server_acl_decision_witness:
  "acl_admits sample_ip_parser ''ok.Org'' \<lparr>acl_allow = [''*''], acl_deny = [''*.bad''], allow_ip_literals = True\<rparr>"
proof -
  have "strip_server_port ''ok.Org:8448'' = ''ok.Org''" by code_simp
  then show ?thesis
    using server_acl_decision [OF sample_acl_reachable, of sample_ip_parser sample_acl_reader "\<lambda>_. Some ''acl''"
        "''!r''" "''ok.Org:8448''"] sample_acl_allows sample_acl_scanned by simp
qed

end
