(* ===== verification/EventTable.thy ===== *)
theory EventTable
  imports Events Containers
begin

text \<open>
  The in-memory event table (\<open>src/src/database/EventTable.cpp\<close> and its header): the rows, the index by id, the
  stream order, the stream order of each room, the timeline of each room by time, the children of each
  relation target and the greatest timestamp of each room, with every writer that maintains them and the
  readers that trust them. A loop over a hash container takes its visit order as a parameter.
\<close>

section \<open>Rows\<close>

record persistent_event =
  pe_event_id :: byte_string
  pe_room_id :: byte_string
  pe_sender :: byte_string
  pe_json :: byte_string
  pe_depth :: "64 word"
  pe_stream_ordering :: "64 word"
  pe_prev_event_ids :: "byte_string list"
  pe_auth_event_ids :: "byte_string list"
  pe_signatures :: "event_signature list"
  pe_status :: byte_string

datatype relation_kind = Rel_replace | Rel_thread | Rel_reference

text \<open>The sort key of a row of the time index, compared member by member.\<close>

datatype time_entry =
  Time_entry (entry_ts: int) (entry_depth: "64 word") (entry_ordering: "64 word") (entry_position: nat)

instantiation time_entry :: linorder
begin

definition less_time_entry :: "time_entry \<Rightarrow> time_entry \<Rightarrow> bool" where
  "a < b \<longleftrightarrow>
     (if entry_ts a \<noteq> entry_ts b then entry_ts a < entry_ts b
      else if entry_depth a \<noteq> entry_depth b then entry_depth a < entry_depth b
      else if entry_ordering a \<noteq> entry_ordering b then entry_ordering a < entry_ordering b
      else entry_position a < entry_position b)"

definition less_eq_time_entry :: "time_entry \<Rightarrow> time_entry \<Rightarrow> bool" where
  "a \<le> b \<longleftrightarrow> a = b \<or> (a :: time_entry) < b"

instance
proof
  fix a b c :: time_entry
  show "a < b \<longleftrightarrow> a \<le> b \<and> \<not> b \<le> a"
    by (auto simp: less_time_entry_def less_eq_time_entry_def split: if_splits)
  show "a \<le> a" by (simp add: less_eq_time_entry_def)
  show "a \<le> b \<Longrightarrow> b \<le> c \<Longrightarrow> a \<le> c"
    by (auto simp: less_time_entry_def less_eq_time_entry_def split: if_splits)
  show "a \<le> b \<Longrightarrow> b \<le> a \<Longrightarrow> a = b"
    by (auto simp: less_time_entry_def less_eq_time_entry_def split: if_splits)
  show "a \<le> b \<or> b \<le> a"
    by (cases a; cases b) (auto simp: less_time_entry_def less_eq_time_entry_def)
qed

end

section \<open>A member of a JSON text\<close>

definition is_json_space :: "char \<Rightarrow> bool" where
  "is_json_space c \<longleftrightarrow> c \<in> {CHR '' '', CHR 0x09, CHR 0x0A, CHR 0x0D}"

text \<open>From after an opening quote: the raw characters up to the closing one, and what follows it.\<close>

fun string_span :: "byte_string \<Rightarrow> (byte_string \<times> byte_string) option" where
  "string_span [] = None"
| "string_span (c # rest) =
     (if c = CHR 0x22 then Some ([], rest)
      else if c = CHR 0x5C then
        (case rest of
           [] \<Rightarrow> None
         | e # rest' \<Rightarrow> map_option (\<lambda>(s, r). (c # e # s, r)) (string_span rest'))
      else map_option (\<lambda>(s, r). (c # s, r)) (string_span rest))"

lemma string_span_length: "string_span s = Some (a, r) \<Longrightarrow> length r < length s"
  by (induction s arbitrary: a r rule: string_span.induct) (fastforce split: if_splits list.splits)+

text \<open>The integer after a member name; the outer \<open>None\<close> means that the string was no member name.\<close>

definition member_integer :: "byte_string \<Rightarrow> int option option" where
  "member_integer rest =
     (case dropWhile is_json_space rest of
        [] \<Rightarrow> None
      | c # after_colon \<Rightarrow>
          if c \<noteq> CHR '':'' then None
          else
            (let begin_text = dropWhile is_json_space after_colon;
                 sign = (if begin_text \<noteq> [] \<and> hd begin_text = CHR ''-'' then 1 else 0);
                 ds = takeWhile is_digit (drop sign begin_text);
                 after = drop (sign + length ds) begin_text
             in if ds = [] \<or> (after \<noteq> [] \<and> hd after \<in> {CHR ''.'', CHR ''e'', CHR ''E''}) then Some None
                else case from_chars_int64 (take (sign + length ds) begin_text) of
                  (ec, consumed, v) \<Rightarrow>
                    if ec \<noteq> Errc_ok \<or> consumed \<noteq> sign + length ds then Some None else Some (Some v)))"

function scan_members :: "byte_string \<Rightarrow> 32 word \<Rightarrow> byte_string \<Rightarrow> int option" where
  "scan_members key level json =
     (case json of
        [] \<Rightarrow> None
      | c # rest \<Rightarrow>
          if c = CHR ''{'' \<or> c = CHR ''['' then scan_members key (level + 1) rest
          else if c = CHR ''}'' \<or> c = CHR '']'' then
            (if level = 0 then None else scan_members key (level - 1) rest)
          else if c \<noteq> CHR 0x22 then scan_members key level rest
          else
            (case string_span rest of
               None \<Rightarrow> None
             | Some (s, rest') \<Rightarrow>
                 if level \<noteq> 1 \<or> s \<noteq> key then scan_members key level rest'
                 else
                   (case member_integer rest' of
                      None \<Rightarrow> scan_members key level rest'
                    | Some v \<Rightarrow> v)))"
  by pat_completeness auto
termination
  by (relation "measure (\<lambda>(key, level, json). length json)") (auto dest: string_span_length)

declare scan_members.simps [simp del]

definition top_level_integer :: "byte_string \<Rightarrow> byte_string \<Rightarrow> int option" where
  "top_level_integer json key = scan_members key 0 json"

section \<open>What the indexes are keyed on\<close>

definition relation_kind_of :: "byte_string \<Rightarrow> relation_kind option" where
  "relation_kind_of rel_type =
     (if rel_type = ''m.replace'' then Some Rel_replace
      else if rel_type = ''m.thread'' then Some Rel_thread
      else if rel_type = ''m.reference'' then Some Rel_reference
      else None)"

definition relation_key_for :: "yyjson_reader \<Rightarrow> persistent_event \<Rightarrow> (byte_string \<times> relation_kind) option" where
  "relation_key_for read_raw row =
     (if find_sub (CHR 0x22 # ''m.relates_to'' @ [CHR 0x22]) (pe_json row) = None then None
      else case parse_lossless read_raw (pe_json row) of
        Inr (JObject event) \<Rightarrow>
          (case Option.bind (object_member_as_object event ''content'')
                  (\<lambda>content. object_member_as_object content ''m.relates_to'') of
             None \<Rightarrow> None
           | Some relates \<Rightarrow>
               (case (string_member relates ''event_id'', string_member relates ''rel_type'') of
                  (Some target, Some rel_type) \<Rightarrow>
                    if target = [] \<or> max_id_length_bytes < length target then None
                    else map_option (Pair target) (relation_kind_of rel_type)
                | _ \<Rightarrow> None))
      | _ \<Rightarrow> None)"

definition time_entry_for :: "persistent_event \<Rightarrow> nat \<Rightarrow> time_entry option" where
  "time_entry_for row position =
     (if pe_status row \<in> {''outlier'', ''rejected'', ''soft_failed''} then None
      else map_option (\<lambda>ts. Time_entry ts (pe_depth row) (pe_stream_ordering row) position)
             (top_level_integer (pe_json row) ''origin_server_ts''))"

definition latest_ts_of :: "persistent_event \<Rightarrow> int" where
  "latest_ts_of row =
     (case top_level_integer (pe_json row) ''origin_server_ts'' of
        Some ts \<Rightarrow> if 0 < ts then ts else 0
      | None \<Rightarrow> 0)"

section \<open>The table\<close>

record event_table =
  ev_rows :: "persistent_event list"
  by_id :: "(byte_string \<times> nat) list"
  stream_order :: "nat list"
  by_room_stream :: "(byte_string \<times> nat list) list"
  by_room_time :: "(byte_string \<times> time_entry list) list"
  relation_children :: "(byte_string \<times> nat list list) list"
  room_latest_ts :: "(byte_string \<times> int) list"

definition empty_event_table :: event_table where
  "empty_event_table =
     \<lparr>ev_rows = [], by_id = [], stream_order = [], by_room_stream = [], by_room_time = [],
      relation_children = [], room_latest_ts = []\<rparr>"

definition kind_index :: "relation_kind \<Rightarrow> nat" where
  "kind_index kind = (case kind of Rel_replace \<Rightarrow> 0 | Rel_thread \<Rightarrow> 1 | Rel_reference \<Rightarrow> 2)"

text \<open>\<open>erase\<close> of a key; the list an entry holds, empty when there is none.\<close>

definition map_erase :: "'k \<Rightarrow> ('k \<times> 'v) list \<Rightarrow> ('k \<times> 'v) list" where
  "map_erase k m = filter (\<lambda>e. fst e \<noteq> k) m"

definition held_list :: "('k \<times> 'v list) list \<Rightarrow> 'k \<Rightarrow> 'v list" where
  "held_list m k = (case map_of m k of None \<Rightarrow> [] | Some xs \<Rightarrow> xs)"

text \<open>Insertion at \<open>upper_bound\<close>, and the merge of two sorted runs that prefers the first.\<close>

definition upper_insert :: "('a \<Rightarrow> 'k::linorder) \<Rightarrow> 'a \<Rightarrow> 'a list \<Rightarrow> 'a list" where
  "upper_insert key x xs =
     (let at = length (takeWhile (\<lambda>y. key y \<le> key x) xs) in take at xs @ x # drop at xs)"

fun inplace_merge :: "('a \<Rightarrow> 'k::linorder) \<Rightarrow> 'a list \<Rightarrow> 'a list \<Rightarrow> 'a list" where
  "inplace_merge key [] ys = ys"
| "inplace_merge key xs [] = xs"
| "inplace_merge key (x # xs) (y # ys) =
     (if key y < key x then y # inplace_merge key (x # xs) ys else x # inplace_merge key xs (y # ys))"

definition row_ordering :: "event_table \<Rightarrow> nat \<Rightarrow> 64 word" where
  "row_ordering t position = pe_stream_ordering (ev_rows t ! position)"

subsection \<open>Entering and leaving the indexes\<close>

definition index_relation :: "nat \<Rightarrow> byte_string \<times> relation_kind \<Rightarrow> event_table \<Rightarrow> event_table" where
  "index_relation position key t =
     (case key of (target, kind) \<Rightarrow>
        (let children = (case map_of (relation_children t) target of None \<Rightarrow> [[], [], []] | Some ls \<Rightarrow> ls);
             i = kind_index kind in
         t\<lparr>relation_children :=
             map_assign target (children[i := children ! i @ [position]]) (relation_children t)\<rparr>))"

definition unindex_relation :: "nat \<Rightarrow> byte_string \<times> relation_kind \<Rightarrow> event_table \<Rightarrow> event_table" where
  "unindex_relation position key t =
     (case key of (target, kind) \<Rightarrow>
        (case map_of (relation_children t) target of
           None \<Rightarrow> t
         | Some children \<Rightarrow>
             (let i = kind_index kind;
                  children' = children[i := filter (\<lambda>p. p \<noteq> position) (children ! i)] in
              t\<lparr>relation_children :=
                  (if list_all (\<lambda>l. l = []) children' then map_erase target (relation_children t)
                   else map_assign target children' (relation_children t))\<rparr>)))"

definition index_time :: "nat \<Rightarrow> event_table \<Rightarrow> event_table" where
  "index_time position t =
     (let row = ev_rows t ! position in
      case time_entry_for row position of
        None \<Rightarrow> t
      | Some entry \<Rightarrow>
          (let entries = held_list (by_room_time t) (pe_room_id row);
               entries' = (if entries = [] \<or> last entries \<le> entry then entries @ [entry]
                           else upper_insert (\<lambda>e. e) entry entries) in
           t\<lparr>by_room_time := map_assign (pe_room_id row) entries' (by_room_time t)\<rparr>))"

definition erase_at_lower_bound :: "time_entry \<Rightarrow> time_entry list \<Rightarrow> time_entry list" where
  "erase_at_lower_bound entry entries =
     (let at = length (takeWhile (\<lambda>e. e < entry) entries) in
      if at < length entries \<and> entries ! at = entry then take at entries @ drop (at + 1) entries else entries)"

definition unindex_time :: "byte_string \<Rightarrow> time_entry option \<Rightarrow> event_table \<Rightarrow> event_table" where
  "unindex_time room_id entry t =
     (case entry of
        None \<Rightarrow> t
      | Some e \<Rightarrow>
          (case map_of (by_room_time t) room_id of
             None \<Rightarrow> t
           | Some entries \<Rightarrow>
               (let entries' = erase_at_lower_bound e entries in
                t\<lparr>by_room_time :=
                    (if entries' = [] then map_erase room_id (by_room_time t)
                     else map_assign room_id entries' (by_room_time t))\<rparr>)))"

text \<open>The position put after every position whose row has no greater stream ordering.\<close>

definition enter_stream :: "event_table \<Rightarrow> nat \<Rightarrow> nat list \<Rightarrow> nat list" where
  "enter_stream t position positions =
     (if positions = [] \<or> row_ordering t (last positions) \<le> row_ordering t position then positions @ [position]
      else upper_insert (row_ordering t) position positions)"

definition index_stream :: "nat \<Rightarrow> event_table \<Rightarrow> event_table" where
  "index_stream position t =
     (let room = pe_room_id (ev_rows t ! position) in
      t\<lparr>by_room_stream :=
          map_assign room (enter_stream t position (held_list (by_room_stream t) room)) (by_room_stream t)\<rparr>)"

definition unindex_stream :: "byte_string \<Rightarrow> nat \<Rightarrow> 64 word \<Rightarrow> event_table \<Rightarrow> event_table" where
  "unindex_stream room_id position order_no t =
     (case map_of (by_room_stream t) room_id of
        None \<Rightarrow> t
      | Some positions \<Rightarrow>
          (let below = takeWhile (\<lambda>p. row_ordering t p < order_no) positions;
               rest = drop (length below) positions;
               same = takeWhile (\<lambda>p. row_ordering t p \<le> order_no) rest;
               positions' = below @ remove1 position same @ drop (length same) rest in
           t\<lparr>by_room_stream :=
               (if positions' = [] then map_erase room_id (by_room_stream t)
                else map_assign room_id positions' (by_room_stream t))\<rparr>))"

definition recompute_latest_ts :: "byte_string \<Rightarrow> event_table \<Rightarrow> event_table" where
  "recompute_latest_ts room_id t =
     (let latest = fold (\<lambda>p. max (latest_ts_of (ev_rows t ! p))) (held_list (by_room_stream t) room_id) 0 in
      t\<lparr>room_latest_ts :=
          (if 0 < latest then map_assign room_id latest (room_latest_ts t)
           else map_erase room_id (room_latest_ts t))\<rparr>)"

definition raise_latest_ts :: "persistent_event \<Rightarrow> event_table \<Rightarrow> event_table" where
  "raise_latest_ts row t =
     (let latest = latest_ts_of row in
      if 0 < latest
      then t\<lparr>room_latest_ts :=
               map_assign (pe_room_id row)
                 (case map_of (room_latest_ts t) (pe_room_id row) of None \<Rightarrow> latest | Some held \<Rightarrow> max held latest)
                 (room_latest_ts t)\<rparr>
      else t)"

definition enter_relation :: "yyjson_reader \<Rightarrow> nat \<Rightarrow> event_table \<Rightarrow> event_table" where
  "enter_relation read_raw position t =
     (case relation_key_for read_raw (ev_rows t ! position) of
        None \<Rightarrow> t
      | Some key \<Rightarrow> index_relation position key t)"

subsection \<open>Writers\<close>

definition insert_event :: "yyjson_reader \<Rightarrow> persistent_event \<Rightarrow> event_table \<Rightarrow> bool \<times> event_table" where
  "insert_event read_raw event t =
     (if pe_event_id event \<in> set (map fst (by_id t)) then (False, t)
      else
        (let position = length (ev_rows t);
             t1 = t\<lparr>by_id := map_emplace (pe_event_id event) position (by_id t), ev_rows := ev_rows t @ [event]\<rparr>;
             t2 = index_time position t1;
             t3 = index_stream position t2;
             t4 = raise_latest_ts event t3;
             t5 = enter_relation read_raw position t4 in
         (True, t5\<lparr>stream_order := enter_stream t5 position (stream_order t5)\<rparr>)))"

text \<open>The orders in which the loops over the touched rooms visit their hash containers.\<close>

record room_orders =
  order_streams :: "byte_string list \<Rightarrow> byte_string list"
  order_times :: "byte_string list \<Rightarrow> byte_string list"
  order_losing :: "byte_string list \<Rightarrow> byte_string list"

definition add_row :: "persistent_event \<Rightarrow> event_table \<Rightarrow> event_table" where
  "add_row event t =
     (if pe_event_id event \<in> set (map fst (by_id t)) then t
      else
        (let t1 = raise_latest_ts event
                    (t\<lparr>by_id := map_emplace (pe_event_id event) (length (ev_rows t)) (by_id t)\<rparr>) in
         t1\<lparr>ev_rows := ev_rows t1 @ [event]\<rparr>))"

text \<open>Rows put on the end of the lists of their rooms, with the size each touched list had before.\<close>

definition append_to_room ::
    "byte_string \<Rightarrow> 'a \<Rightarrow> (byte_string \<times> 'a list) list \<times> (byte_string \<times> nat) list
      \<Rightarrow> (byte_string \<times> 'a list) list \<times> (byte_string \<times> nat) list" where
  "append_to_room room x = (\<lambda>(m, touched).
     (map_assign room (held_list m room @ [x]) m, map_emplace room (length (held_list m room)) touched))"

definition merge_tail :: "('a \<Rightarrow> 'k::linorder) \<Rightarrow> nat \<Rightarrow> 'a list \<Rightarrow> 'a list" where
  "merge_tail key old_size xs = inplace_merge key (take old_size xs) (sort_key key (drop old_size xs))"

definition merge_rooms ::
    "(byte_string list \<Rightarrow> byte_string list) \<Rightarrow> ('a \<Rightarrow> 'k::linorder)
      \<Rightarrow> (byte_string \<times> 'a list) list \<times> (byte_string \<times> nat) list \<Rightarrow> (byte_string \<times> 'a list) list" where
  "merge_rooms order key = (\<lambda>(m, touched).
     fold (\<lambda>(room, old_size) m. map_assign room (merge_tail key old_size (held_list m room)) m)
       (visit_map order touched) m)"

definition append_time_entry ::
    "event_table \<Rightarrow> nat \<Rightarrow> (byte_string \<times> time_entry list) list \<times> (byte_string \<times> nat) list
      \<Rightarrow> (byte_string \<times> time_entry list) list \<times> (byte_string \<times> nat) list" where
  "append_time_entry t position acc =
     (case time_entry_for (ev_rows t ! position) position of
        None \<Rightarrow> acc
      | Some entry \<Rightarrow> append_to_room (pe_room_id (ev_rows t ! position)) entry acc)"

definition insert_all_events ::
    "yyjson_reader \<Rightarrow> room_orders \<Rightarrow> persistent_event list \<Rightarrow> event_table \<Rightarrow> nat \<times> event_table" where
  "insert_all_events read_raw orders events t =
     (let first_added = length (ev_rows t);
          t1 = fold add_row events t;
          added = [first_added ..< length (ev_rows t1)];
          streams = fold (\<lambda>p. append_to_room (pe_room_id (ev_rows t1 ! p)) p) added (by_room_stream t1, []);
          times = fold (append_time_entry t1) added (by_room_time t1, []);
          t2 = t1\<lparr>stream_order := merge_tail (row_ordering t1) (length (stream_order t1)) (stream_order t1 @ added),
                  by_room_stream := merge_rooms (order_streams orders) (row_ordering t1) streams,
                  by_room_time := merge_rooms (order_times orders) (\<lambda>e. e) times\<rparr>
      in (length (ev_rows t1) - first_added, fold (enter_relation read_raw) added t2))"

text \<open>The position each row has after the marked rows are gone; \<open>None\<close> for a marked row.\<close>

fun remap_from :: "nat \<Rightarrow> bool list \<Rightarrow> nat option list" where
  "remap_from kept [] = []"
| "remap_from kept (gone # rest) =
     (if gone then None # remap_from kept rest else Some kept # remap_from (kept + 1) rest)"

definition keep_unmarked :: "bool list \<Rightarrow> 'a list \<Rightarrow> 'a list" where
  "keep_unmarked removed rows = map fst (filter (\<lambda>(_, gone). \<not> gone) (zip rows removed))"

definition renumber :: "nat option list \<Rightarrow> nat list \<Rightarrow> nat list" where
  "renumber remap positions = List.map_filter (\<lambda>p. remap ! p) positions"

definition renumber_entry :: "nat option list \<Rightarrow> time_entry \<Rightarrow> time_entry option" where
  "renumber_entry remap entry =
     map_option (Time_entry (entry_ts entry) (entry_depth entry) (entry_ordering entry)) (remap ! entry_position entry)"

definition erase_marked :: "room_orders \<Rightarrow> bool list \<Rightarrow> event_table \<Rightarrow> nat \<times> event_table" where
  "erase_marked orders removed t =
     (let remap = remap_from 0 removed;
          losing = fold (\<lambda>(row, gone) rooms. if gone then set_insert (pe_room_id row) rooms else rooms)
                     (zip (ev_rows t) removed) [];
          rows' = keep_unmarked removed (ev_rows t);
          t1 = t\<lparr>ev_rows := rows',
                 by_id := List.map_filter (\<lambda>(k, p). map_option (Pair k) (remap ! p)) (by_id t),
                 stream_order := renumber remap (stream_order t),
                 by_room_stream := filter (\<lambda>(_, ps). ps \<noteq> [])
                   (map (\<lambda>(room, ps). (room, renumber remap ps)) (by_room_stream t)),
                 by_room_time := filter (\<lambda>(_, es). es \<noteq> [])
                   (map (\<lambda>(room, es). (room, List.map_filter (renumber_entry remap) es)) (by_room_time t)),
                 relation_children := filter (\<lambda>(_, ls). \<not> list_all (\<lambda>l. l = []) ls)
                   (map (\<lambda>(target, ls). (target, map (renumber remap) ls)) (relation_children t))\<rparr>
      in (length (ev_rows t) - length rows', fold recompute_latest_ts (order_losing orders losing) t1))"

definition erase_events_if :: "room_orders \<Rightarrow> (persistent_event \<Rightarrow> bool) \<Rightarrow> event_table \<Rightarrow> nat \<times> event_table" where
  "erase_events_if orders predicate t =
     (let removed = map predicate (ev_rows t) in
      if list_ex (\<lambda>b. b) removed then erase_marked orders removed t else (0, t))"

text \<open>\<open>position\<close> is the one an iterator of the table names.\<close>

definition modify_event ::
    "yyjson_reader \<Rightarrow> nat \<Rightarrow> (persistent_event \<Rightarrow> persistent_event) \<Rightarrow> event_table \<Rightarrow> event_table" where
  "modify_event read_raw position mutation t =
     (let old = ev_rows t ! position;
          new = (mutation old)\<lparr>pe_event_id := pe_event_id old, pe_stream_ordering := pe_stream_ordering old\<rparr>;
          moved = (pe_room_id new \<noteq> pe_room_id old);
          t1 = t\<lparr>ev_rows := (ev_rows t)[position := new]\<rparr>;
          t2 = (if moved
                then index_stream position
                       (unindex_stream (pe_room_id old) position (pe_stream_ordering old) t1)
                else t1);
          t3 = (if moved \<or> time_entry_for new position \<noteq> time_entry_for old position
                then index_time position (unindex_time (pe_room_id old) (time_entry_for old position) t2)
                else t2);
          t4 = (if moved \<or> latest_ts_of new \<noteq> latest_ts_of old
                then recompute_latest_ts (pe_room_id new) (recompute_latest_ts (pe_room_id old) t3)
                else t3);
          before = relation_key_for read_raw old;
          after = relation_key_for read_raw new
      in if after = before then t4
         else
           (let t5 = (case before of None \<Rightarrow> t4 | Some key \<Rightarrow> unindex_relation position key t4) in
            case after of None \<Rightarrow> t5 | Some key \<Rightarrow> index_relation position key t5))"

definition extract_events :: "event_table \<Rightarrow> persistent_event list \<times> event_table" where
  "extract_events t = (ev_rows t, empty_event_table)"

subsection \<open>Readers\<close>

definition find_event_row :: "event_table \<Rightarrow> byte_string \<Rightarrow> persistent_event option" where
  "find_event_row t event_id = map_option (\<lambda>p. ev_rows t ! p) (map_of (by_id t) event_id)"

definition find_event_in_room :: "event_table \<Rightarrow> byte_string \<Rightarrow> byte_string \<Rightarrow> persistent_event option" where
  "find_event_in_room t room_id event_id =
     (case find_event_row t event_id of
        None \<Rightarrow> None
      | Some row \<Rightarrow> if pe_room_id row = room_id then Some row else None)"

definition in_stream_order :: "event_table \<Rightarrow> persistent_event list" where
  "in_stream_order t = map (\<lambda>p. ev_rows t ! p) (stream_order t)"

definition room_in_stream_order :: "event_table \<Rightarrow> byte_string \<Rightarrow> persistent_event list" where
  "room_in_stream_order t room_id = map (\<lambda>p. ev_rows t ! p) (held_list (by_room_stream t) room_id)"

definition room_latest_origin_server_ts :: "event_table \<Rightarrow> byte_string \<Rightarrow> int" where
  "room_latest_origin_server_ts t room_id = (case map_of (room_latest_ts t) room_id of None \<Rightarrow> 0 | Some ts \<Rightarrow> ts)"

text \<open>The search loop of both directions: the row found, if any, and whether the cap stopped it.\<close>

fun offer_rows ::
    "(persistent_event \<Rightarrow> bool) \<Rightarrow> nat \<Rightarrow> persistent_event list \<Rightarrow> persistent_event option \<times> bool" where
  "offer_rows accept budget [] = (None, False)"
| "offer_rows accept budget (row # rows) =
     (if budget = 0 then (None, True)
      else if accept row then (Some row, False)
      else offer_rows accept (budget - 1) rows)"

definition nearest_by_time ::
    "event_table \<Rightarrow> byte_string \<Rightarrow> int \<Rightarrow> bool \<Rightarrow> (persistent_event \<Rightarrow> bool) \<Rightarrow> nat
      \<Rightarrow> persistent_event option \<times> bool" where
  "nearest_by_time t room_id ts forwards accept max_examined =
     (case map_of (by_room_time t) room_id of
        None \<Rightarrow> (None, False)
      | Some entries \<Rightarrow>
          (let row = (\<lambda>e. ev_rows t ! entry_position e) in
           if forwards
           then offer_rows accept max_examined (map row (dropWhile (\<lambda>e. entry_ts e < ts) entries))
           else offer_rows accept max_examined (map row (rev (takeWhile (\<lambda>e. entry_ts e \<le> ts) entries)))))"

text \<open>The rows the visitor is called with, and whether the cap stopped the walk.\<close>

definition walk_room_newest_first :: "event_table \<Rightarrow> byte_string \<Rightarrow> nat \<Rightarrow> persistent_event list \<times> bool" where
  "walk_room_newest_first t room_id max_examined =
     (let rows = map (\<lambda>e. ev_rows t ! entry_position e) (rev (held_list (by_room_time t) room_id)) in
      (take max_examined rows, max_examined < length rows))"

definition relation_child_count :: "event_table \<Rightarrow> byte_string \<Rightarrow> relation_kind \<Rightarrow> nat" where
  "relation_child_count t target kind =
     (case map_of (relation_children t) target of None \<Rightarrow> 0 | Some children \<Rightarrow> length (children ! kind_index kind))"

definition for_each_relation_child_newest_first ::
    "event_table \<Rightarrow> byte_string \<Rightarrow> relation_kind \<Rightarrow> nat \<Rightarrow> persistent_event list \<times> bool" where
  "for_each_relation_child_newest_first t target kind max_examined =
     (case map_of (relation_children t) target of
        None \<Rightarrow> ([], False)
      | Some children \<Rightarrow>
          (let rows = map (\<lambda>p. ev_rows t ! p) (rev (children ! kind_index kind)) in
           (take max_examined rows, max_examined < length rows)))"

end
