(* ===== verification/EventTableIndex.thy ===== *)
theory EventTableIndex
  imports EventTable
begin

text \<open>
  Proofs about the event table: sorted insertion and merging, indexes that hold a list per key, one lemma per
  writer that keeps every index exact, and what the readers return in a reachable table. The interface
  \<open>keyed_table\<close> is interpreted on the table.
\<close>

section \<open>Sorted insertion and merging\<close>

lemma mset_inplace_merge [simp]: "mset (inplace_merge f xs ys) = mset xs + mset ys"
  by (induction f xs ys rule: inplace_merge.induct) simp_all

lemma set_inplace_merge [simp]: "set (inplace_merge f xs ys) = set xs \<union> set ys"
  by (induction f xs ys rule: inplace_merge.induct) auto

lemma sorted_inplace_merge:
  "sorted (map f xs) \<Longrightarrow> sorted (map f ys) \<Longrightarrow> sorted (map f (inplace_merge f xs ys))"
  by (induction f xs ys rule: inplace_merge.induct) (fastforce+)

lemma filter_inplace_merge:
  assumes "sorted (map f xs)" "sorted (map f ys)"
  shows "filter (\<lambda>z. c = f z) (inplace_merge f xs ys) = filter (\<lambda>z. c = f z) xs @ filter (\<lambda>z. c = f z) ys"
  using assms
proof (induction f xs ys rule: inplace_merge.induct)
  case (3 f x xs y ys)
  show ?case
  proof (cases "f y < f x")
    case True
    have "filter (\<lambda>z. c = f z) (x # xs) = []" if "c = f y"
      using True 3(3) that by (fastforce simp: filter_empty_conv)
    then show ?thesis using 3 True by auto
  next
    case False
    then show ?thesis using 3 by auto
  qed
qed simp_all

lemma filter_same_key [simp]: "filter (\<lambda>y. k = f y) (sort_key f xs) = filter (\<lambda>y. k = f y) xs"
  using sort_key_stable [of f k xs] by (simp add: eq_commute [of k])

lemma inplace_merge_sort: "inplace_merge f (sort_key f xs) (sort_key f ys) = sort_key f (xs @ ys)"
  by (rule properties_for_sort_key [symmetric])
    (simp_all add: filter_inplace_merge sorted_inplace_merge)

lemma merge_tail_sort:
  "length (sort_key f xs) = n \<Longrightarrow> merge_tail f n (sort_key f xs @ ys) = sort_key f (xs @ ys)"
  by (auto simp: merge_tail_def inplace_merge_sort)

lemma upper_insert_split: "upper_insert f x xs = takeWhile (\<lambda>y. f y \<le> f x) xs @ x # dropWhile (\<lambda>y. f y \<le> f x) xs"
  by (simp add: upper_insert_def Let_def takeWhile_eq_take [symmetric] dropWhile_eq_drop)

lemma upper_insert_merge:
  "sorted (map f xs) \<Longrightarrow> upper_insert f x xs = inplace_merge f xs [x]"
  unfolding upper_insert_split
proof (induction xs)
  case (Cons y ys)
  then show ?case by (cases ys) (auto simp: not_le)
qed simp

lemma upper_insert_last:
  "xs = [] \<or> f (last xs) \<le> f x \<Longrightarrow> sorted (map f xs) \<Longrightarrow> xs @ [x] = inplace_merge f xs [x]"
proof (induction xs)
  case (Cons y ys)
  then show ?case by (cases ys) auto
qed simp

lemma sort_key_cong_on:
  assumes eq: "\<And>x. x \<in> set xs \<Longrightarrow> f x = g x"
  shows "sort_key f xs = sort_key g xs"
proof (rule properties_for_sort_key)
  fix k assume "k \<in> set (sort_key g xs)"
  then have k: "f k = g k" using eq by simp
  have "filter (\<lambda>x. f k = f x) (sort_key g xs) = filter (\<lambda>x. g k = g x) (sort_key g xs)"
    by (rule filter_cong) (simp_all add: eq k)
  also have "\<dots> = filter (\<lambda>x. f k = f x) xs" by (simp add: eq k cong: filter_cong)
  finally show "filter (\<lambda>x. f k = f x) (sort_key g xs) = filter (\<lambda>x. f k = f x) xs" .
next
  have "map f (sort_key g xs) = map g (sort_key g xs)" by (rule map_cong) (simp_all add: eq)
  then show "sorted (map f (sort_key g xs))" by (simp only: sorted_sort_key)
qed simp

lemma map_sort_key: "map g (sort_key (\<lambda>x. f (g x)) xs) = sort_key f (map g xs)"
proof (rule properties_for_sort_key [symmetric])
  fix k
  show "filter (\<lambda>x. f k = f x) (map g (sort_key (\<lambda>x. f (g x)) xs)) = filter (\<lambda>x. f k = f x) (map g xs)"
    using filter_same_key [of "f k" "\<lambda>x. f (g x)" xs] by (simp add: filter_map comp_def)
qed (simp_all add: comp_def)

section \<open>Indexes that hold a list per key\<close>

text \<open>Each key has the list of exactly the values it should have, once each, and no key an empty list.\<close>

definition lists_exact :: "('k \<Rightarrow> 'v set) \<Rightarrow> ('k \<times> 'v list) list \<Rightarrow> bool" where
  "lists_exact C m \<longleftrightarrow>
     distinct (map fst m) \<and>
     (\<forall>k. map_of m k \<noteq> Some [] \<and> distinct (held_list m k) \<and> set (held_list m k) = C k)"

definition lists_sorted :: "('v \<Rightarrow> 'a::linorder) \<Rightarrow> ('k \<times> 'v list) list \<Rightarrow> bool" where
  "lists_sorted key m \<longleftrightarrow> (\<forall>k. sorted (map key (held_list m k)))"

definition put_list :: "'k \<Rightarrow> 'v list \<Rightarrow> ('k \<times> 'v list) list \<Rightarrow> ('k \<times> 'v list) list" where
  "put_list k xs m = (if xs = [] then map_erase k m else map_assign k xs m)"

lemma lists_exactD:
  assumes "lists_exact C m"
  shows "distinct (map fst m)" "map_of m k \<noteq> Some []" "distinct (held_list m k)" "set (held_list m k) = C k"
  using assms by (simp_all add: lists_exact_def)

lemma map_of_map_erase [simp]: "map_of (map_erase k m) = (map_of m)(k := None)"
  by (induction m) (auto simp: map_erase_def)

lemma distinct_map_erase [simp]: "distinct (map fst m) \<Longrightarrow> distinct (map fst (map_erase k m))"
  by (induction m) (auto simp: map_erase_def)

lemma held_list_assign [simp]: "held_list (map_assign k xs m) j = (if j = k then xs else held_list m j)"
  by (simp add: held_list_def)

lemma held_list_put [simp]: "held_list (put_list k xs m) j = (if j = k then xs else held_list m j)"
  by (simp add: held_list_def put_list_def)

lemma map_of_put_list: "map_of (put_list k xs m) = (map_of m)(k := (if xs = [] then None else Some xs))"
  by (simp add: put_list_def)

lemma distinct_put_list [simp]: "distinct (map fst m) \<Longrightarrow> distinct (map fst (put_list k xs m))"
  by (simp add: put_list_def)

lemma put_list_exact:
  assumes "lists_exact C m" "distinct xs"
  shows "lists_exact (C(k := set xs)) (put_list k xs m)"
proof -
  have "distinct (map fst (put_list k xs m))" using assms(1) by (simp add: lists_exact_def)
  then show ?thesis using assms by (simp add: lists_exact_def map_of_put_list)
qed

lemma put_list_sorted:
  "lists_sorted key m \<Longrightarrow> sorted (map key xs) \<Longrightarrow> lists_sorted key (put_list k xs m)"
  by (simp add: lists_sorted_def)

lemma map_assign_put: "xs \<noteq> [] \<Longrightarrow> map_assign k xs m = put_list k xs m"
  by (simp add: put_list_def)

lemma held_list_Nil: "lists_exact C m \<Longrightarrow> map_of m k = None \<longleftrightarrow> C k = {}"
  using lists_exactD(2,4) [of C m k] by (cases "map_of m k") (auto simp: held_list_def)

lemma lists_exact_Nil: "lists_exact (\<lambda>_. {}) []" "lists_sorted key []"
  by (simp_all add: lists_exact_def lists_sorted_def held_list_def)

text \<open>Every list rewritten element by element, and the emptied ones dropped.\<close>

definition remap_lists :: "('v \<Rightarrow> 'w option) \<Rightarrow> ('k \<times> 'v list) list \<Rightarrow> ('k \<times> 'w list) list" where
  "remap_lists g m = filter (\<lambda>(_, ys). ys \<noteq> []) (map (\<lambda>(k, xs). (k, List.map_filter g xs)) m)"

lemma map_of_remap_lists:
  "distinct (map fst m) \<Longrightarrow>
   map_of (remap_lists g m) k =
     (case map_of m k of
        None \<Rightarrow> None
      | Some xs \<Rightarrow> if List.map_filter g xs = [] then None else Some (List.map_filter g xs))"
proof (induction m)
  case (Cons e m)
  obtain j xs where e: "e = (j, xs)" by (cases e)
  show ?case
  proof (cases "k = j")
    case True
    have "map_of m j = None" using Cons.prems e by (simp add: map_of_eq_None_iff)
    then show ?thesis using True e Cons by (simp add: remap_lists_def)
  next
    case False
    then show ?thesis using e Cons by (simp add: remap_lists_def)
  qed
qed (simp add: remap_lists_def)

lemma held_list_remap:
  "distinct (map fst m) \<Longrightarrow> held_list (remap_lists g m) k = List.map_filter g (held_list m k)"
  by (simp add: held_list_def map_of_remap_lists split: option.split)

lemma distinct_map_filter_inj:
  "distinct xs \<Longrightarrow> (\<And>x y z. x \<in> set xs \<Longrightarrow> y \<in> set xs \<Longrightarrow> g x = Some z \<Longrightarrow> g y = Some z \<Longrightarrow> x = y) \<Longrightarrow>
   distinct (List.map_filter g xs)"
proof (induction xs)
  case (Cons x xs)
  have IH: "distinct (List.map_filter g xs)" using Cons by simp
  show ?case
  proof (cases "g x")
    case (Some z)
    have "z \<notin> set (List.map_filter g xs)"
    proof
      assume "z \<in> set (List.map_filter g xs)"
      then obtain y where "y \<in> set xs" "g y = Some z" by (auto simp: List.map_filter_def)
      then show False using Cons.prems Some by auto
    qed
    then show ?thesis using IH Some by simp
  qed (use IH in simp)
qed simp

lemma remap_lists_exact:
  assumes ex: "lists_exact C m"
    and inj: "\<And>k x y z. x \<in> C k \<Longrightarrow> y \<in> C k \<Longrightarrow> g x = Some z \<Longrightarrow> g y = Some z \<Longrightarrow> x = y"
  shows "lists_exact (\<lambda>k. {y. \<exists>x \<in> C k. g x = Some y}) (remap_lists g m)"
  unfolding lists_exact_def
proof (intro conjI allI)
  note d = lists_exactD [OF ex]
  show "distinct (map fst (remap_lists g m))"
    using d(1) unfolding remap_lists_def by (induction m) (auto simp: image_iff)
  fix k
  show "map_of (remap_lists g m) k \<noteq> Some []" by (simp add: map_of_remap_lists [OF d(1)] split: option.split)
  show "distinct (held_list (remap_lists g m) k)"
    unfolding held_list_remap [OF d(1)] by (rule distinct_map_filter_inj) (use d(3,4) inj in auto)
  show "set (held_list (remap_lists g m) k) = {y. \<exists>x \<in> C k. g x = Some y}"
    unfolding held_list_remap [OF d(1)] using d(4) [of k] by (force simp: List.map_filter_def)
qed

lemma sorted_map_filter:
  "sorted (map f xs) \<Longrightarrow> (\<And>x y. x \<in> set xs \<Longrightarrow> g x = Some y \<Longrightarrow> f' y = f x) \<Longrightarrow>
   sorted (map f' (List.map_filter g xs))"
proof (induction xs)
  case (Cons x xs)
  have IH: "sorted (map f' (List.map_filter g xs))" using Cons by simp
  show ?case
  proof (cases "g x")
    case (Some y)
    have "f' y \<le> f' z" if z: "z \<in> set (List.map_filter g xs)" for z
    proof -
      obtain w where w: "w \<in> set xs" "g w = Some z" using z by (auto simp: List.map_filter_def)
      then have "f x \<le> f w" using Cons.prems(1) by simp
      then show ?thesis using Cons.prems(2) [of x y] Cons.prems(2) [of w z] w Some by simp
    qed
    then show ?thesis using IH Some by simp
  qed (use IH in simp)
qed simp

section \<open>What the indexes hold\<close>

definition stream_positions :: "persistent_event list \<Rightarrow> nat list" where
  "stream_positions rows = sort_key (\<lambda>p. pe_stream_ordering (rows ! p)) [0..<length rows]"

definition room_rows :: "persistent_event list \<Rightarrow> byte_string \<Rightarrow> nat set" where
  "room_rows rows room = {p. p < length rows \<and> pe_room_id (rows ! p) = room}"

definition room_times :: "persistent_event list \<Rightarrow> byte_string \<Rightarrow> time_entry set" where
  "room_times rows room = {e. \<exists>p \<in> room_rows rows room. time_entry_for (rows ! p) p = Some e}"

definition related_rows :: "yyjson_reader \<Rightarrow> persistent_event list \<Rightarrow> byte_string \<times> relation_kind \<Rightarrow> nat set" where
  "related_rows read_raw rows key = {p. p < length rows \<and> relation_key_for read_raw (rows ! p) = Some key}"

definition room_latest :: "persistent_event list \<Rightarrow> byte_string \<Rightarrow> int" where
  "room_latest rows room = Max (insert 0 ((\<lambda>p. latest_ts_of (rows ! p)) ` room_rows rows room))"

definition ids_exact :: "('r \<Rightarrow> 'k) \<Rightarrow> 'r list \<Rightarrow> ('k \<times> nat) list \<Rightarrow> bool" where
  "ids_exact key rows m \<longleftrightarrow>
     distinct (map fst m) \<and> (\<forall>k p. map_of m k = Some p \<longleftrightarrow> p < length rows \<and> key (rows ! p) = k)"

definition child_list :: "(byte_string \<times> nat list list) list \<Rightarrow> byte_string \<times> relation_kind \<Rightarrow> nat list" where
  "child_list m key = (case map_of m (fst key) of None \<Rightarrow> [] | Some children \<Rightarrow> children ! kind_index (snd key))"

definition children_exact ::
    "(byte_string \<times> relation_kind \<Rightarrow> nat set) \<Rightarrow> (byte_string \<times> nat list list) list \<Rightarrow> bool" where
  "children_exact C m \<longleftrightarrow>
     distinct (map fst m) \<and>
     (\<forall>target children. map_of m target = Some children \<longrightarrow>
        length children = 3 \<and> \<not> list_all (\<lambda>l. l = []) children) \<and>
     (\<forall>key. distinct (child_list m key) \<and> set (child_list m key) = C key)"

definition latest_exact :: "persistent_event list \<Rightarrow> (byte_string \<times> int) list \<Rightarrow> bool" where
  "latest_exact rows m \<longleftrightarrow>
     distinct (map fst m) \<and>
     (\<forall>room. map_of m room = (if 0 < room_latest rows room then Some (room_latest rows room) else None))"

definition table_exact :: "yyjson_reader \<Rightarrow> event_table \<Rightarrow> bool" where
  "table_exact read_raw t \<longleftrightarrow>
     ids_exact pe_event_id (ev_rows t) (by_id t) \<and>
     stream_order t = stream_positions (ev_rows t) \<and>
     lists_exact (room_rows (ev_rows t)) (by_room_stream t) \<and>
     lists_sorted (row_ordering t) (by_room_stream t) \<and>
     lists_exact (room_times (ev_rows t)) (by_room_time t) \<and>
     lists_sorted (\<lambda>e. e) (by_room_time t) \<and>
     children_exact (related_rows read_raw (ev_rows t)) (relation_children t) \<and>
     latest_exact (ev_rows t) (room_latest_ts t)"

lemma row_ordering_update [simp]:
  "row_ordering (t\<lparr>by_id := a\<rparr>) = row_ordering t" "row_ordering (t\<lparr>stream_order := b\<rparr>) = row_ordering t"
  "row_ordering (t\<lparr>by_room_stream := c\<rparr>) = row_ordering t" "row_ordering (t\<lparr>by_room_time := d\<rparr>) = row_ordering t"
  "row_ordering (t\<lparr>relation_children := e\<rparr>) = row_ordering t" "row_ordering (t\<lparr>room_latest_ts := f\<rparr>) = row_ordering t"
  by (simp_all add: row_ordering_def fun_eq_iff)

lemma lists_sorted_cong:
  assumes "lists_exact C m" "\<And>k p. p \<in> C k \<Longrightarrow> f p = g p" "lists_sorted f m"
  shows "lists_sorted g m"
  unfolding lists_sorted_def
proof
  fix k
  have "map f (held_list m k) = map g (held_list m k)"
    by (rule map_cong) (use assms(2) lists_exactD(4) [OF assms(1)] in auto)
  moreover have "sorted (map f (held_list m k))" using assms(3) by (simp add: lists_sorted_def)
  ultimately show "sorted (map g (held_list m k))" by (simp only:)
qed

subsection \<open>One step of each index\<close>

definition enter_list :: "('v \<Rightarrow> 'a::linorder) \<Rightarrow> 'k \<Rightarrow> 'v \<Rightarrow> ('k \<times> 'v list) list \<Rightarrow> ('k \<times> 'v list) list" where
  "enter_list key k x m = put_list k (inplace_merge key (held_list m k) [x]) m"

lemma inplace_merge_not_Nil [simp]: "inplace_merge key xs [x] \<noteq> []" "[] \<noteq> inplace_merge key xs [x]"
  by (cases xs; simp)+

lemma enter_list_exact:
  assumes "lists_exact C m" "x \<notin> C k"
  shows "lists_exact (C(k := insert x (C k))) (enter_list key k x m)"
proof -
  note d = lists_exactD [OF assms(1)]
  have "mset (inplace_merge key (held_list m k) [x]) = mset (x # held_list m k)" by simp
  then have "distinct (inplace_merge key (held_list m k) [x])"
    using d(3,4) [of k] assms(2) by (metis distinct.simps(2) mset_eq_imp_distinct_iff)
  then have "lists_exact (C(k := set (inplace_merge key (held_list m k) [x]))) (enter_list key k x m)"
    unfolding enter_list_def by (rule put_list_exact [OF assms(1)])
  then show ?thesis using d(4) [of k] by simp
qed

lemma enter_list_sorted: "lists_sorted key m \<Longrightarrow> lists_sorted key (enter_list key k x m)"
  unfolding enter_list_def by (rule put_list_sorted) (simp_all add: lists_sorted_def sorted_inplace_merge)

lemma enter_stream_merge:
  "sorted (map (row_ordering t) ps) \<Longrightarrow> enter_stream t p ps = inplace_merge (row_ordering t) ps [p]"
  by (auto simp: enter_stream_def upper_insert_merge upper_insert_last)

lemma index_stream_field:
  assumes "lists_sorted (row_ordering t) (by_room_stream t)"
  shows "index_stream p t =
    t\<lparr>by_room_stream := enter_list (row_ordering t) (pe_room_id (ev_rows t ! p)) p (by_room_stream t)\<rparr>"
  using assms by (simp add: index_stream_def enter_list_def enter_stream_merge lists_sorted_def put_list_def Let_def)

definition enter_time :: "persistent_event list \<Rightarrow> nat \<Rightarrow> (byte_string \<times> time_entry list) list \<Rightarrow> (byte_string \<times> time_entry list) list" where
  "enter_time rows p m =
     (case time_entry_for (rows ! p) p of
        None \<Rightarrow> m
      | Some entry \<Rightarrow> enter_list (\<lambda>e. e) (pe_room_id (rows ! p)) entry m)"

lemma index_time_field:
  assumes "lists_sorted (\<lambda>e. e) (by_room_time t)"
  shows "index_time p t = t\<lparr>by_room_time := enter_time (ev_rows t) p (by_room_time t)\<rparr>"
proof (cases "time_entry_for (ev_rows t ! p) p")
  case None
  then show ?thesis by (simp add: index_time_def enter_time_def)
next
  case (Some entry)
  let ?es = "held_list (by_room_time t) (pe_room_id (ev_rows t ! p))"
  have s: "sorted (map (\<lambda>e. e) ?es)" using assms unfolding lists_sorted_def by blast
  have "(if ?es = [] \<or> last ?es \<le> entry then ?es @ [entry] else upper_insert (\<lambda>e. e) entry ?es) =
      inplace_merge (\<lambda>e. e) ?es [entry]"
    using upper_insert_last [of ?es "\<lambda>e. e" entry] upper_insert_merge [OF s, of entry] s by auto
  then show ?thesis using Some by (simp add: index_time_def enter_time_def enter_list_def put_list_def Let_def)
qed

subsection \<open>A new last row\<close>

lemma room_rows_append:
  "room_rows (rows @ [e]) =
     (room_rows rows)(pe_room_id e := insert (length rows) (room_rows rows (pe_room_id e)))"
  by (auto simp: room_rows_def fun_eq_iff nth_append less_Suc_eq)

lemma room_rows_less: "p \<in> room_rows rows room \<Longrightarrow> p < length rows"
  by (simp add: room_rows_def)

lemma room_times_append:
  "room_times (rows @ [e]) =
     (case time_entry_for e (length rows) of
        None \<Rightarrow> room_times rows
      | Some entry \<Rightarrow> (room_times rows)(pe_room_id e := insert entry (room_times rows (pe_room_id e))))"
proof -
  have old: "time_entry_for ((rows @ [e]) ! p) p = time_entry_for (rows ! p) p" if "p \<in> room_rows rows room" for p room
    using room_rows_less [OF that] by (simp add: nth_append)
  have "room_times (rows @ [e]) room =
      room_times rows room \<union> (if room = pe_room_id e then set_option (time_entry_for e (length rows)) else {})" for room
    using old by (auto simp: room_times_def room_rows_append)
  then show ?thesis by (auto simp: fun_eq_iff split: option.split)
qed

lemma time_entry_position: "time_entry_for row p = Some entry \<Longrightarrow> entry_position entry = p"
  by (auto simp: time_entry_for_def split: if_splits)

lemma fresh_time_entry: "time_entry_for e (length rows) = Some entry \<Longrightarrow> entry \<notin> room_times rows room"
  using time_entry_position room_rows_less by (fastforce simp: room_times_def)

lemma related_rows_append:
  "related_rows read_raw (rows @ [e]) =
     (case relation_key_for read_raw e of
        None \<Rightarrow> related_rows read_raw rows
      | Some key \<Rightarrow> (related_rows read_raw rows)(key := insert (length rows) (related_rows read_raw rows key)))"
  by (auto simp: related_rows_def fun_eq_iff nth_append less_Suc_eq split: option.split)

lemma latest_ts_of_nonneg [simp]: "0 \<le> latest_ts_of row"
  by (simp add: latest_ts_of_def split: option.split)

lemma finite_room_rows [simp]: "finite (room_rows rows room)"
  by (simp add: room_rows_def)

lemma room_latest_nonneg [simp]: "0 \<le> room_latest rows room"
  by (simp add: room_latest_def)

lemma room_latest_append:
  "room_latest (rows @ [e]) room =
     (if room = pe_room_id e then max (latest_ts_of e) (room_latest rows room) else room_latest rows room)"
proof -
  have old: "(\<lambda>p. latest_ts_of ((rows @ [e]) ! p)) ` room_rows rows room = (\<lambda>p. latest_ts_of (rows ! p)) ` room_rows rows room"
    by (rule image_cong) (auto simp: nth_append dest: room_rows_less)
  show ?thesis
  proof (cases "room = pe_room_id e")
    case True
    have "insert 0 ((\<lambda>p. latest_ts_of ((rows @ [e]) ! p)) ` room_rows (rows @ [e]) room) =
        insert (latest_ts_of e) (insert 0 ((\<lambda>p. latest_ts_of (rows ! p)) ` room_rows rows room))"
      using True old by (auto simp: room_rows_append)
    then show ?thesis using True by (simp only: room_latest_def) (simp add: Max_insert)
  next
    case False
    then show ?thesis using old by (simp add: room_latest_def room_rows_append)
  qed
qed

lemma stream_positions_append:
  "stream_positions (rows @ [e]) =
     inplace_merge (\<lambda>p. pe_stream_ordering ((rows @ [e]) ! p)) (stream_positions rows) [length rows]"
proof -
  let ?f = "\<lambda>p. pe_stream_ordering ((rows @ [e]) ! p)"
  have "stream_positions rows = sort_key ?f [0..<length rows]"
    unfolding stream_positions_def by (rule sort_key_cong_on) (simp add: nth_append)
  moreover have "sort_key ?f [length rows] = [length rows]" by simp
  ultimately show ?thesis
    using inplace_merge_sort [of ?f "[0..<length rows]" "[length rows]"]
    by (simp add: stream_positions_def del: inplace_merge.simps)
qed

lemma ids_exact_append:
  assumes "ids_exact key rows m" "key e \<notin> set (map fst m)"
  shows "ids_exact key (rows @ [e]) (map_emplace (key e) (length rows) m)"
proof -
  have none: "map_of m (key e) = None" using assms(2) by (simp add: map_of_eq_None_iff)
  have look: "map_of m k = Some p \<longleftrightarrow> p < length rows \<and> key (rows ! p) = k" for k p
    using assms(1) by (simp add: ids_exact_def)
  have "map_of (map_emplace (key e) (length rows) m) k = Some p \<longleftrightarrow>
      p < length (rows @ [e]) \<and> key ((rows @ [e]) ! p) = k" for k p
    using none look [of k p] look [of "key e" p] by (auto simp: nth_append less_Suc_eq domIff)
  then show ?thesis using assms(1) by (simp add: ids_exact_def)
qed

definition raised_latest :: "persistent_event \<Rightarrow> (byte_string \<times> int) list \<Rightarrow> (byte_string \<times> int) list" where
  "raised_latest e m =
     (if 0 < latest_ts_of e
      then map_assign (pe_room_id e)
             (case map_of m (pe_room_id e) of None \<Rightarrow> latest_ts_of e | Some held \<Rightarrow> max held (latest_ts_of e)) m
      else m)"

lemma raise_latest_field: "raise_latest_ts e t = t\<lparr>room_latest_ts := raised_latest e (room_latest_ts t)\<rparr>"
  by (simp add: raise_latest_ts_def raised_latest_def Let_def)

lemma raised_latest_exact:
  assumes "latest_exact rows m"
  shows "latest_exact (rows @ [e]) (raised_latest e m)"
proof (cases "0 < latest_ts_of e")
  case True
  then show ?thesis
    using assms by (auto simp: latest_exact_def raised_latest_def room_latest_append max_def)
next
  case False
  then have "latest_ts_of e = 0" using latest_ts_of_nonneg [of e] by linarith
  then show ?thesis using assms by (simp add: latest_exact_def raised_latest_def room_latest_append max_def)
qed

subsection \<open>The relation index\<close>

lemma kind_index_less [simp]: "kind_index kind < 3"
  by (cases kind) (simp_all add: kind_index_def)

lemma kind_index_inject [simp]: "kind_index a = kind_index b \<longleftrightarrow> a = b"
  by (cases a; cases b) (simp_all add: kind_index_def)

definition children_of :: "(byte_string \<times> nat list list) list \<Rightarrow> byte_string \<Rightarrow> nat list list" where
  "children_of m target = (case map_of m target of None \<Rightarrow> [[], [], []] | Some children \<Rightarrow> children)"

lemma nth_no_children [simp]: "[[], [], []] ! kind_index kind = []"
  by (cases kind) (simp_all add: kind_index_def)

lemma child_list_children_of: "child_list m key = children_of m (fst key) ! kind_index (snd key)"
  by (simp add: child_list_def children_of_def split: option.split)

lemma children_exactD:
  assumes "children_exact C m"
  shows "distinct (map fst m)" "distinct (child_list m key)" "set (child_list m key) = C key"
    "length (children_of m target) = 3"
proof -
  show "distinct (map fst m)" "distinct (child_list m key)" "set (child_list m key) = C key"
    using assms unfolding children_exact_def by blast+
  show "length (children_of m target) = 3"
    using assms by (cases "map_of m target") (simp_all add: children_of_def children_exact_def)
qed

lemma all_children_empty:
  "length children = 3 \<Longrightarrow> list_all (\<lambda>l. l = []) children \<longleftrightarrow> (\<forall>kind. children ! kind_index kind = [])"
proof
  assume len: "length children = 3" and all: "\<forall>kind. children ! kind_index kind = []"
  have "children ! i = []" if "i < 3" for i
    using that all [rule_format, of Rel_replace] all [rule_format, of Rel_thread] all [rule_format, of Rel_reference]
    by (auto simp: kind_index_def less_Suc_eq numeral_eq_Suc)
  then show "list_all (\<lambda>l. l = []) children" using len by (simp add: list_all_length)
qed (simp add: list_all_length)

text \<open>One child list replaced: the entry of its target is erased when that leaves nothing.\<close>

definition put_child :: "byte_string \<times> relation_kind \<Rightarrow> nat list \<Rightarrow> (byte_string \<times> nat list list) list \<Rightarrow> (byte_string \<times> nat list list) list" where
  "put_child key l m =
     (let children = (children_of m (fst key))[kind_index (snd key) := l] in
      if list_all (\<lambda>l. l = []) children then map_erase (fst key) m else map_assign (fst key) children m)"

lemma put_child_exact:
  assumes ex: "children_exact C m" and l: "distinct l"
  shows "children_exact (C(key := set l)) (put_child key l m)"
proof -
  note d = children_exactD [OF ex]
  let ?target = "fst key"
  let ?new = "(children_of m ?target)[kind_index (snd key) := l]"
  have len: "length ?new = 3" using d(4) by simp
  have look: "map_of (put_child key l m) =
      (map_of m)(?target := (if list_all (\<lambda>l. l = []) ?new then None else Some ?new))"
    by (simp add: put_child_def Let_def)
  have new: "?new ! kind_index kind = (if kind = snd key then l else child_list m (?target, kind))" for kind
    using d(4) [of ?target] by (simp add: nth_list_update child_list_children_of)
  have child: "child_list (put_child key l m) other = (if other = key then l else child_list m other)" for other
  proof (cases "fst other = ?target")
    case False
    then show ?thesis using look by (auto simp: child_list_def)
  next
    case True
    then have "child_list (put_child key l m) other = ?new ! kind_index (snd other)"
      using look all_children_empty [OF len] by (simp add: child_list_def)
    then show ?thesis using True new by (cases other; cases key) auto
  qed
  have "length children = 3 \<and> \<not> list_all (\<lambda>l. l = []) children"
    if "map_of (put_child key l m) target = Some children" for target children
    using that ex len unfolding look children_exact_def by (auto split: if_splits)
  moreover have "distinct (map fst (put_child key l m))" using d(1) by (simp add: put_child_def Let_def)
  moreover have "distinct (child_list (put_child key l m) other) \<and>
      set (child_list (put_child key l m) other) = (C(key := set l)) other" for other
    using d(2,3) l by (simp add: child)
  ultimately show ?thesis unfolding children_exact_def by blast
qed

lemma index_relation_field:
  assumes "children_exact C (relation_children t)"
  shows "index_relation p key t = t\<lparr>relation_children :=
    put_child key (child_list (relation_children t) key @ [p]) (relation_children t)\<rparr>"
proof -
  obtain target kind where key: "key = (target, kind)" by (cases key)
  let ?children = "children_of (relation_children t) target"
  let ?new = "?children[kind_index kind := ?children ! kind_index kind @ [p]]"
  have "length ?children = 3" using children_exactD(4) [OF assms] .
  then have "\<not> list_all (\<lambda>l. l = []) ?new"
    by (subst all_children_empty) (auto intro!: exI [of _ kind])
  then show ?thesis
    by (simp add: key index_relation_def put_child_def Let_def child_list_children_of) (simp add: children_of_def)
qed

lemma enter_child_exact:
  assumes "children_exact C m" "p \<notin> C key"
  shows "children_exact (C(key := insert p (C key))) (put_child key (child_list m key @ [p]) m)"
proof -
  note d = children_exactD [OF assms(1)]
  have "children_exact (C(key := set (child_list m key @ [p]))) (put_child key (child_list m key @ [p]) m)"
    by (rule put_child_exact [OF assms(1)]) (use d(2,3) assms(2) in simp)
  then show ?thesis using d(3) [of key] by simp
qed

lemma unindex_relation_field:
  assumes "children_exact C (relation_children t)"
  shows "unindex_relation p key t = t\<lparr>relation_children :=
    put_child key (filter (\<lambda>q. q \<noteq> p) (child_list (relation_children t) key)) (relation_children t)\<rparr>"
proof -
  obtain target kind where key: "key = (target, kind)" by (cases key)
  show ?thesis
  proof (cases "map_of (relation_children t) target")
    case None
    then have "map_erase target (relation_children t) = relation_children t"
      by (auto simp: map_erase_def map_of_eq_None_iff filter_id_conv)
    then show ?thesis using None
      by (cases kind) (simp_all add: key unindex_relation_def put_child_def child_list_def children_of_def kind_index_def Let_def)
  next
    case (Some children)
    then show ?thesis
      by (simp add: key unindex_relation_def put_child_def child_list_def children_of_def Let_def)
  qed
qed

lemma leave_child_exact:
  assumes "children_exact C m"
  shows "children_exact (C(key := C key - {p})) (put_child key (filter (\<lambda>q. q \<noteq> p) (child_list m key)) m)"
proof -
  note d = children_exactD [OF assms]
  have "children_exact (C(key := set (filter (\<lambda>q. q \<noteq> p) (child_list m key))))
      (put_child key (filter (\<lambda>q. q \<noteq> p) (child_list m key)) m)"
    by (rule put_child_exact [OF assms]) (use d(2) in simp)
  moreover have "set (filter (\<lambda>q. q \<noteq> p) (child_list m key)) = C key - {p}" using d(3) [of key] by auto
  ultimately show ?thesis by simp
qed

subsection \<open>Insertion keeps the indexes exact\<close>

lemma table_exactD:
  assumes "table_exact read_raw t"
  shows "ids_exact pe_event_id (ev_rows t) (by_id t)" "stream_order t = stream_positions (ev_rows t)"
    "lists_exact (room_rows (ev_rows t)) (by_room_stream t)" "lists_sorted (row_ordering t) (by_room_stream t)"
    "lists_exact (room_times (ev_rows t)) (by_room_time t)" "lists_sorted (\<lambda>e. e) (by_room_time t)"
    "children_exact (related_rows read_raw (ev_rows t)) (relation_children t)"
    "latest_exact (ev_rows t) (room_latest_ts t)"
  using assms by (simp_all add: table_exact_def)

lemma enter_time_exact:
  assumes "lists_exact (room_times rows) m"
  shows "lists_exact (room_times (rows @ [e])) (enter_time (rows @ [e]) (length rows) m)"
  using assms by (simp add: enter_time_def room_times_append enter_list_exact fresh_time_entry split: option.split)

lemma enter_time_sorted: "lists_sorted (\<lambda>e. e) m \<Longrightarrow> lists_sorted (\<lambda>e. e) (enter_time rows p m)"
  by (simp add: enter_time_def enter_list_sorted split: option.split)

lemma enter_room_exact:
  assumes "lists_exact (room_rows rows) m"
  shows "lists_exact (room_rows (rows @ [e])) (enter_list key (pe_room_id e) (length rows) m)"
  unfolding room_rows_append by (rule enter_list_exact [OF assms]) (simp add: room_rows_def)

definition entered_children ::
    "yyjson_reader \<Rightarrow> persistent_event \<Rightarrow> nat \<Rightarrow> (byte_string \<times> nat list list) list \<Rightarrow> (byte_string \<times> nat list list) list" where
  "entered_children read_raw e p m =
     (case relation_key_for read_raw e of
        None \<Rightarrow> m
      | Some key \<Rightarrow> put_child key (child_list m key @ [p]) m)"

lemma enter_relation_field:
  assumes "children_exact C (relation_children t)"
  shows "enter_relation read_raw p t =
    t\<lparr>relation_children := entered_children read_raw (ev_rows t ! p) p (relation_children t)\<rparr>"
  by (simp add: enter_relation_def entered_children_def index_relation_field [OF assms] split: option.split)

lemma entered_children_exact:
  assumes "children_exact (related_rows read_raw rows) m"
  shows "children_exact (related_rows read_raw (rows @ [e])) (entered_children read_raw e (length rows) m)"
proof (cases "relation_key_for read_raw e")
  case None
  then show ?thesis using assms by (simp add: related_rows_append entered_children_def)
next
  case (Some key)
  have "children_exact ((related_rows read_raw rows)(key := insert (length rows) (related_rows read_raw rows key)))
      (put_child key (child_list m key @ [length rows]) m)"
    by (rule enter_child_exact [OF assms]) (simp add: related_rows_def)
  then show ?thesis using Some by (simp add: related_rows_append entered_children_def)
qed

lemma sorted_stream_positions: "sorted (map (\<lambda>p. pe_stream_ordering (rows ! p)) (stream_positions rows))"
  by (simp add: stream_positions_def)

lemma stream_positions_less: "p \<in> set (stream_positions rows) \<Longrightarrow> p < length rows"
  by (simp add: stream_positions_def)

lemma row_ordering_rows: "row_ordering t = (\<lambda>p. pe_stream_ordering (ev_rows t ! p))"
  by (simp add: row_ordering_def fun_eq_iff)

lemma sorted_old_positions:
  "sorted (map (\<lambda>p. pe_stream_ordering ((rows @ es) ! p)) (stream_positions rows))"
proof -
  have "map (\<lambda>p. pe_stream_ordering ((rows @ es) ! p)) (stream_positions rows) =
      map (\<lambda>p. pe_stream_ordering (rows ! p)) (stream_positions rows)"
    by (rule map_cong) (auto simp: nth_append dest: stream_positions_less)
  then show ?thesis using sorted_stream_positions [of rows] by (simp only:)
qed

lemma lists_sorted_append:
  assumes "lists_exact (room_rows rows) m" "lists_sorted (\<lambda>p. pe_stream_ordering (rows ! p)) m"
  shows "lists_sorted (\<lambda>p. pe_stream_ordering ((rows @ es) ! p)) m"
  by (rule lists_sorted_cong [OF assms(1) _ assms(2)]) (auto simp: nth_append dest: room_rows_less)

lemma insert_event_exact:
  assumes ex: "table_exact read_raw t"
  shows "table_exact read_raw (snd (insert_event read_raw e t))"
proof (cases "pe_event_id e \<in> set (map fst (by_id t))")
  case True
  then show ?thesis using ex by (simp add: insert_event_def)
next
  case False
  note d = table_exactD [OF ex]
  let ?rows = "ev_rows t" and ?ord = "\<lambda>p. pe_stream_ordering ((ev_rows t @ [e]) ! p)"
  let ?ids = "map_emplace (pe_event_id e) (length ?rows) (by_id t)"
  let ?times = "enter_time (?rows @ [e]) (length ?rows) (by_room_time t)"
  let ?streams = "enter_list ?ord (pe_room_id e) (length ?rows) (by_room_stream t)"
  let ?children = "entered_children read_raw e (length ?rows) (relation_children t)"
  have s: "lists_sorted ?ord (by_room_stream t)"
    by (rule lists_sorted_append [OF d(3) d(4) [unfolded row_ordering_rows]])
  let ?t1 = "t\<lparr>by_id := ?ids, ev_rows := ?rows @ [e]\<rparr>"
  let ?t5 = "?t1\<lparr>by_room_time := ?times, by_room_stream := ?streams,
      room_latest_ts := raised_latest e (room_latest_ts t), relation_children := ?children\<rparr>"
  have t5: "enter_relation read_raw (length ?rows)
      (raise_latest_ts e (index_stream (length ?rows) (index_time (length ?rows) ?t1))) = ?t5"
    using s d(6,7)
    by (simp add: index_time_field index_stream_field row_ordering_rows raise_latest_field enter_relation_field)
  have "enter_stream ?t5 (length ?rows) (stream_positions ?rows) = stream_positions (?rows @ [e])"
    using sorted_old_positions [of ?rows "[e]"]
    by (simp add: enter_stream_merge row_ordering_rows stream_positions_append)
  then have new: "snd (insert_event read_raw e t) = ?t5\<lparr>stream_order := stream_positions (?rows @ [e])\<rparr>"
    using False t5 d(2) by (simp add: insert_event_def Let_def)
  show ?thesis
    unfolding table_exact_def new
    using ids_exact_append [OF d(1) False] enter_room_exact [OF d(3)] enter_list_sorted [OF s]
      enter_time_exact [OF d(5)] enter_time_sorted [OF d(6)] entered_children_exact [OF d(7)]
      raised_latest_exact [OF d(8)]
    by (simp add: row_ordering_rows)
qed

subsection \<open>Erasure keeps the indexes exact\<close>

text \<open>The renumbering of rows that stay, as the rest of the table sees it.\<close>

definition renumbers :: "(nat \<Rightarrow> nat option) \<Rightarrow> 'r list \<Rightarrow> 'r list \<Rightarrow> bool" where
  "renumbers r rows rows' \<longleftrightarrow>
     (\<forall>p q. p < length rows \<longrightarrow> r p = Some q \<longrightarrow> q < length rows' \<and> rows' ! q = rows ! p) \<and>
     (\<forall>q < length rows'. \<exists>p < length rows. r p = Some q) \<and>
     (\<forall>p p' q q'. p < p' \<longrightarrow> p' < length rows \<longrightarrow> r p = Some q \<longrightarrow> r p' = Some q' \<longrightarrow> q < q')"

lemma renumbersD:
  assumes "renumbers r rows rows'"
  shows "p < length rows \<Longrightarrow> r p = Some q \<Longrightarrow> q < length rows'"
    and "p < length rows \<Longrightarrow> r p = Some q \<Longrightarrow> rows' ! q = rows ! p"
    and "q < length rows' \<Longrightarrow> \<exists>p < length rows. r p = Some q"
    and "p < p' \<Longrightarrow> p' < length rows \<Longrightarrow> r p = Some q \<Longrightarrow> r p' = Some q' \<Longrightarrow> q < q'"
  using assms unfolding renumbers_def by blast+

lemma renumbers_inj:
  assumes "renumbers r rows rows'" "p < length rows" "p' < length rows" "r p = Some q" "r p' = Some q"
  shows "p = p'"
  using renumbersD(4) [OF assms(1), of p p' q q] renumbersD(4) [OF assms(1), of p' p q q] assms(2-)
  by (metis less_irrefl nat_neq_iff)

definition unmarked_before :: "bool list \<Rightarrow> nat \<Rightarrow> nat" where
  "unmarked_before removed p = length (filter Not (take p removed))"

lemma unmarked_before_simps [simp]:
  "unmarked_before removed 0 = 0"
  "unmarked_before (b # removed) (Suc p) = (if b then 0 else 1) + unmarked_before removed p"
  by (simp_all add: unmarked_before_def)

lemma keep_unmarked_simps [simp]:
  "keep_unmarked [] [] = []"
  "keep_unmarked (b # removed) (row # rows) =
     (if b then keep_unmarked removed rows else row # keep_unmarked removed rows)"
  by (simp_all add: keep_unmarked_def)

lemma remap_from_nth:
  "p < length removed \<Longrightarrow>
   remap_from k removed ! p = (if removed ! p then None else Some (k + unmarked_before removed p))"
proof (induction removed arbitrary: k p)
  case (Cons b removed)
  then show ?case by (cases p) auto
qed simp

lemma keep_unmarked_nth:
  "length removed = length rows \<Longrightarrow> p < length rows \<Longrightarrow> \<not> removed ! p \<Longrightarrow>
   unmarked_before removed p < length (keep_unmarked removed rows) \<and>
   keep_unmarked removed rows ! unmarked_before removed p = rows ! p"
proof (induction removed rows arbitrary: p rule: list_induct2)
  case (Cons b removed row rows)
  then show ?case by (cases p) auto
qed simp

lemma keep_unmarked_surj:
  "length removed = length rows \<Longrightarrow> q < length (keep_unmarked removed rows) \<Longrightarrow>
   \<exists>p < length rows. \<not> removed ! p \<and> unmarked_before removed p = q"
proof (induction removed rows arbitrary: q rule: list_induct2)
  case (Cons b removed row rows)
  show ?case
  proof (cases b)
    case True
    then obtain p where "p < length rows" "\<not> removed ! p" "unmarked_before removed p = q"
      using Cons by auto
    then show ?thesis using True by (intro exI [of _ "Suc p"]) simp
  next
    case False
    show ?thesis
    proof (cases q)
      case 0
      then show ?thesis using False by (intro exI [of _ 0]) simp
    next
      case (Suc q')
      then obtain p where "p < length rows" "\<not> removed ! p" "unmarked_before removed p = q'"
        using Cons False by auto
      then show ?thesis using False Suc by (intro exI [of _ "Suc p"]) simp
    qed
  qed
qed simp

lemma unmarked_before_mono:
  assumes "p < p'" "p' \<le> length removed" "\<not> removed ! p"
  shows "unmarked_before removed p < unmarked_before removed p'"
proof -
  have "take p' removed = take p removed @ removed ! p # drop (p + 1) (take p' removed)"
    using assms(1,2) id_take_nth_drop [of p "take p' removed"] by (simp add: min_absorb1)
  then show ?thesis
    unfolding unmarked_before_def using assms(3)
    by (metis (no_types, lifting) filter.simps(2) filter_append length_Cons length_append less_add_same_cancel1 zero_less_Suc)
qed

lemma remap_renumbers:
  assumes "length removed = length rows"
  shows "renumbers (\<lambda>p. remap_from 0 removed ! p) rows (keep_unmarked removed rows)"
  unfolding renumbers_def
proof (intro conjI allI impI)
  fix p q assume p: "p < length rows" and r: "remap_from 0 removed ! p = Some q"
  then have "\<not> removed ! p" "q = unmarked_before removed p"
    using assms by (simp_all add: remap_from_nth split: if_splits)
  then show "q < length (keep_unmarked removed rows)" "keep_unmarked removed rows ! q = rows ! p"
    using keep_unmarked_nth [OF assms p] by simp_all
next
  fix q assume "q < length (keep_unmarked removed rows)"
  then obtain p where "p < length rows" "\<not> removed ! p" "unmarked_before removed p = q"
    using keep_unmarked_surj [OF assms] by blast
  then show "\<exists>p < length rows. remap_from 0 removed ! p = Some q"
    using assms by (intro exI [of _ p]) (simp add: remap_from_nth)
next
  fix p p' q q' assume "p < p'" "p' < length rows" "remap_from 0 removed ! p = Some q" "remap_from 0 removed ! p' = Some q'"
  then show "q < q'" using assms unmarked_before_mono [of p p' removed] by (simp add: remap_from_nth split: if_splits)
qed

lemma map_filter_sort_positions:
  assumes "renumbers r rows rows'"
  shows "List.map_filter r [0..<length rows] = [0..<length rows']"
proof (rule sorted_distinct_set_unique)
  show "distinct (List.map_filter r [0..<length rows])"
    by (rule distinct_map_filter_inj) (use renumbers_inj [OF assms] in auto)
  show "set (List.map_filter r [0..<length rows]) = set [0..<length rows']"
    using renumbersD(1,3) [OF assms] by (force simp: List.map_filter_def)
  have "sorted (List.map_filter r xs)" if "sorted_wrt (<) xs" "\<forall>p \<in> set xs. p < length rows" for xs
    using that
  proof (induction xs)
    case (Cons p xs)
    have IH: "sorted (List.map_filter r xs)" using Cons by simp
    show ?case
    proof (cases "r p")
      case (Some q)
      have "q \<le> q'" if q': "q' \<in> set (List.map_filter r xs)" for q'
      proof -
        obtain p' where "p' \<in> set xs" "r p' = Some q'" using q' by (auto simp: List.map_filter_def)
        then show ?thesis using Cons.prems Some renumbersD(4) [OF assms, of p p' q q'] by auto
      qed
      then show ?thesis using IH Some by simp
    qed (use IH in simp)
  qed simp
  then show "sorted (List.map_filter r [0..<length rows])" by (simp add: sorted_wrt_upt)
qed simp_all

lemma filter_map_filter:
  "(\<And>p q. p \<in> set ps \<Longrightarrow> r p = Some q \<Longrightarrow> Q' q \<longleftrightarrow> Q p) \<Longrightarrow>
   filter Q' (List.map_filter r ps) = List.map_filter r (filter Q ps)"
  by (induction ps) (auto split: option.split)

lemma stream_positions_renumber:
  assumes rn: "renumbers r rows rows'"
  shows "List.map_filter r (stream_positions rows) = stream_positions rows'"
proof -
  let ?f = "\<lambda>p. pe_stream_ordering (rows ! p)" and ?f' = "\<lambda>q. pe_stream_ordering (rows' ! q)"
  let ?ps = "stream_positions rows"
  have f': "?f' q = ?f p" if "p < length rows" "r p = Some q" for p q
    using renumbersD(2) [OF rn that] by simp
  have less: "p < length rows" if "p \<in> set ?ps" for p using stream_positions_less that .
  have "sort_key ?f' [0..<length rows'] = List.map_filter r ?ps"
  proof (rule properties_for_sort_key)
    have "mset (List.map_filter r ?ps) = mset (List.map_filter r [0..<length rows])"
      unfolding List.map_filter_def stream_positions_def by (simp add: mset_filter)
    then show "mset (List.map_filter r ?ps) = mset [0..<length rows']"
      by (simp add: map_filter_sort_positions [OF rn])
    show "sorted (map ?f' (List.map_filter r ?ps))"
      by (rule sorted_map_filter [OF sorted_stream_positions]) (blast intro: f' less)
    have same: "?f' k = ?f' q \<longleftrightarrow> ?f' k = ?f p" if "p < length rows" "r p = Some q" for k p q
      using f' [OF that] by simp
    fix k
    have "filter (\<lambda>q. ?f' k = ?f' q) (List.map_filter r ?ps) = List.map_filter r (filter (\<lambda>p. ?f' k = ?f p) ?ps)"
      by (rule filter_map_filter, rule same [OF less])
    also have "\<dots> = List.map_filter r (filter (\<lambda>p. ?f' k = ?f p) [0..<length rows])"
      by (simp add: stream_positions_def)
    also have "\<dots> = filter (\<lambda>q. ?f' k = ?f' q) (List.map_filter r [0..<length rows])"
      by (rule filter_map_filter [symmetric], rule same) simp_all
    finally show "filter (\<lambda>q. ?f' k = ?f' q) (List.map_filter r ?ps) = filter (\<lambda>q. ?f' k = ?f' q) [0..<length rows']"
      by (simp add: map_filter_sort_positions [OF rn])
  qed
  then show ?thesis by (simp add: stream_positions_def)
qed

lemma room_rows_renumber:
  assumes rn: "renumbers r rows rows'"
  shows "{q. \<exists>p \<in> room_rows rows room. r p = Some q} = room_rows rows' room"
proof (intro equalityI subsetI)
  fix q assume "q \<in> {q. \<exists>p \<in> room_rows rows room. r p = Some q}"
  then obtain p where "p < length rows" "pe_room_id (rows ! p) = room" "r p = Some q"
    by (auto simp: room_rows_def)
  then show "q \<in> room_rows rows' room" using renumbersD(1,2) [OF rn, of p q] by (simp add: room_rows_def)
next
  fix q assume q: "q \<in> room_rows rows' room"
  then obtain p where p: "p < length rows" "r p = Some q" using renumbersD(3) [OF rn] by (auto simp: room_rows_def)
  then have "p \<in> room_rows rows room" using q renumbersD(2) [OF rn p] by (simp add: room_rows_def)
  then show "q \<in> {q. \<exists>p \<in> room_rows rows room. r p = Some q}" using p by blast
qed

lemma map_of_renumbered:
  "distinct (map fst m) \<Longrightarrow>
   map_of (List.map_filter (\<lambda>(k, p). map_option (Pair k) (r p)) m) k = Option.bind (map_of m k) r"
proof (induction m arbitrary: k)
  case (Cons e m)
  obtain j p where e: "e = (j, p)" by (cases e)
  have "map_of (List.map_filter (\<lambda>(k, p). map_option (Pair k) (r p)) m) j = None"
    using Cons.IH [of j] Cons.prems by (simp add: e map_of_eq_None_iff [THEN iffD2])
  then show ?case using Cons by (cases "r p") (auto simp: e)
qed simp

lemma ids_exact_renumber:
  assumes rn: "renumbers r rows rows'" and ex: "ids_exact key rows m"
  shows "ids_exact key rows' (List.map_filter (\<lambda>(k, p). map_option (Pair k) (r p)) m)"
proof -
  have d: "distinct (map fst m)" and look: "\<And>k p. map_of m k = Some p \<longleftrightarrow> p < length rows \<and> key (rows ! p) = k"
    using ex by (auto simp: ids_exact_def)
  have "distinct (map fst (List.map_filter (\<lambda>(k, p). map_option (Pair k) (r p)) m))"
    using d by (induction m) (auto simp: List.map_filter_def image_iff split: option.splits)
  moreover have "Option.bind (map_of m k) r = Some q \<longleftrightarrow> q < length rows' \<and> key (rows' ! q) = k" for k q
  proof
    assume "Option.bind (map_of m k) r = Some q"
    then obtain p where "map_of m k = Some p" "r p = Some q" by (auto simp: bind_eq_Some_conv)
    then show "q < length rows' \<and> key (rows' ! q) = k"
      using look renumbersD(1,2) [OF rn] by auto
  next
    assume q: "q < length rows' \<and> key (rows' ! q) = k"
    then obtain p where p: "p < length rows" "r p = Some q" using renumbersD(3) [OF rn] by blast
    then have "map_of m k = Some p" using look q renumbersD(2) [OF rn p] by simp
    then show "Option.bind (map_of m k) r = Some q" using p by simp
  qed
  ultimately show ?thesis by (simp add: ids_exact_def map_of_renumbered [OF d])
qed

lemma room_times_renumber:
  assumes rn: "renumbers (\<lambda>p. remap ! p) rows rows'"
  shows "{e'. \<exists>e \<in> room_times rows room. renumber_entry remap e = Some e'} = room_times rows' room"
proof (intro equalityI subsetI)
  have entry: "renumber_entry remap e = Some (Time_entry (entry_ts e) (entry_depth e) (entry_ordering e) q) \<and>
      time_entry_for (rows' ! q) q = Some (Time_entry (entry_ts e) (entry_depth e) (entry_ordering e) q)"
    if "p < length rows" "remap ! p = Some q" "time_entry_for (rows ! p) p = Some e" for p q e
    using that renumbersD(2) [OF rn that(1,2)]
    by (auto simp: renumber_entry_def time_entry_for_def split: if_splits)
  {
    fix e' assume "e' \<in> {e'. \<exists>e \<in> room_times rows room. renumber_entry remap e = Some e'}"
    then obtain p e where p: "p \<in> room_rows rows room" "time_entry_for (rows ! p) p = Some e" "renumber_entry remap e = Some e'"
      by (auto simp: room_times_def)
    moreover have "entry_position e = p" using p(2) by (rule time_entry_position)
    ultimately obtain q where q: "remap ! p = Some q" by (auto simp: renumber_entry_def)
    then have "q \<in> room_rows rows' room" using p(1) room_rows_renumber [OF rn, of room] by blast
    then show "e' \<in> room_times rows' room"
      using entry [OF room_rows_less [OF p(1)] q p(2)] p(3) by (auto simp: room_times_def)
  next
    fix e' assume "e' \<in> room_times rows' room"
    then obtain q where q: "q \<in> room_rows rows' room" "time_entry_for (rows' ! q) q = Some e'"
      by (auto simp: room_times_def)
    then obtain p where p: "p \<in> room_rows rows room" "remap ! p = Some q"
      using room_rows_renumber [OF rn, of room] by blast
    have same: "rows' ! q = rows ! p" using renumbersD(2) [OF rn room_rows_less [OF p(1)] p(2)] .
    then obtain e where e: "time_entry_for (rows ! p) p = Some e"
      using q(2) by (auto simp: time_entry_for_def split: if_splits)
    then have "renumber_entry remap e = Some e'"
      using entry [OF room_rows_less [OF p(1)] p(2) e] q(2) by simp
    then show "e' \<in> {e'. \<exists>e \<in> room_times rows room. renumber_entry remap e = Some e'}"
      using p(1) e by (auto simp: room_times_def)
  }
qed

lemma room_times_position:
  "e \<in> room_times rows room \<Longrightarrow> entry_position e < length rows"
  using time_entry_position room_rows_less by (fastforce simp: room_times_def)

lemma renumber_entry_mono:
  assumes rn: "renumbers (\<lambda>p. remap ! p) rows rows'"
    and e: "entry_position e < length rows" "entry_position f < length rows" "e \<le> f"
    and r: "renumber_entry remap e = Some e'" "renumber_entry remap f = Some f'"
  shows "e' \<le> f'"
proof -
  obtain q q' where q: "remap ! entry_position e = Some q" "remap ! entry_position f = Some q'"
    using r by (auto simp: renumber_entry_def)
  then have "entry_position e < entry_position f \<Longrightarrow> q < q'"
    using renumbersD(4) [OF rn] e(2) by blast
  moreover have "entry_position e = entry_position f \<Longrightarrow> q = q'" using q by simp
  ultimately show ?thesis
    using e(3) r q
    by (cases e; cases f) (auto simp: renumber_entry_def less_eq_time_entry_def less_time_entry_def split: if_splits)
qed

lemma renumber_entry_inj:
  assumes rn: "renumbers (\<lambda>p. remap ! p) rows rows'"
    and e: "entry_position e < length rows" "entry_position f < length rows"
    and r: "renumber_entry remap e = Some e'" "renumber_entry remap f = Some e'"
  shows "e = f"
  using renumbers_inj [OF rn e] r by (cases e; cases f) (auto simp: renumber_entry_def)

lemma sorted_map_filter_mono:
  "sorted xs \<Longrightarrow>
   (\<And>x y a b. x \<in> set xs \<Longrightarrow> y \<in> set xs \<Longrightarrow> x \<le> y \<Longrightarrow> g x = Some a \<Longrightarrow> g y = Some b \<Longrightarrow> a \<le> b) \<Longrightarrow>
   sorted (List.map_filter g xs)"
proof (induction xs)
  case (Cons x xs)
  have "sorted (List.map_filter g xs)"
    by (rule Cons.IH) (use Cons.prems in \<open>auto intro: Cons.prems(2)\<close>)
  moreover have "a \<le> b" if a: "g x = Some a" and b: "b \<in> set (List.map_filter g xs)" for a b
  proof -
    obtain y where "y \<in> set xs" "g y = Some b" using b by (auto simp: List.map_filter_def)
    then show ?thesis using Cons.prems(1) a by (intro Cons.prems(2) [of x y]) auto
  qed
  ultimately show ?case by (cases "g x") auto
qed simp

lemma times_renumber:
  assumes rn: "renumbers (\<lambda>p. remap ! p) rows rows'" and ex: "lists_exact (room_times rows) m"
    and so: "lists_sorted (\<lambda>e. e) m"
  shows "lists_exact (room_times rows') (remap_lists (renumber_entry remap) m)"
    "lists_sorted (\<lambda>e. e) (remap_lists (renumber_entry remap) m)"
proof -
  have "lists_exact (\<lambda>room. {e'. \<exists>e \<in> room_times rows room. renumber_entry remap e = Some e'})
      (remap_lists (renumber_entry remap) m)"
    by (rule remap_lists_exact [OF ex]) (blast intro: renumber_entry_inj [OF rn] room_times_position)
  then show "lists_exact (room_times rows') (remap_lists (renumber_entry remap) m)"
    by (simp only: room_times_renumber [OF rn])
  note d = lists_exactD [OF ex]
  have "sorted (List.map_filter (renumber_entry remap) (held_list m room))" for room
  proof (rule sorted_map_filter_mono)
    show "sorted (held_list m room)" using so by (simp add: lists_sorted_def)
  qed (use d(4) [of room] in \<open>blast intro: renumber_entry_mono [OF rn] room_times_position\<close>)
  then show "lists_sorted (\<lambda>e. e) (remap_lists (renumber_entry remap) m)"
    by (simp add: lists_sorted_def held_list_remap [OF d(1)])
qed

lemma rooms_renumber:
  assumes rn: "renumbers r rows rows'" and ex: "lists_exact (room_rows rows) m"
    and so: "lists_sorted (\<lambda>p. pe_stream_ordering (rows ! p)) m"
  shows "lists_exact (room_rows rows') (remap_lists r m)"
    "lists_sorted (\<lambda>p. pe_stream_ordering (rows' ! p)) (remap_lists r m)"
proof -
  have "lists_exact (\<lambda>room. {q. \<exists>p \<in> room_rows rows room. r p = Some q}) (remap_lists r m)"
    by (rule remap_lists_exact [OF ex]) (blast intro: renumbers_inj [OF rn] room_rows_less)
  then show "lists_exact (room_rows rows') (remap_lists r m)" by (simp only: room_rows_renumber [OF rn])
  note d = lists_exactD [OF ex]
  have "sorted (map (\<lambda>p. pe_stream_ordering (rows' ! p)) (List.map_filter r (held_list m room)))" for room
  proof (rule sorted_map_filter)
    show "sorted (map (\<lambda>p. pe_stream_ordering (rows ! p)) (held_list m room))" using so by (simp add: lists_sorted_def)
    fix p q assume "p \<in> set (held_list m room)" "r p = Some q"
    then show "pe_stream_ordering (rows' ! q) = pe_stream_ordering (rows ! p)"
      using d(4) [of room] renumbersD(2) [OF rn, of p q] room_rows_less by auto
  qed
  then show "lists_sorted (\<lambda>p. pe_stream_ordering (rows' ! p)) (remap_lists r m)"
    by (simp add: lists_sorted_def held_list_remap [OF d(1)])
qed

definition remap_children :: "(nat \<Rightarrow> nat option) \<Rightarrow> (byte_string \<times> nat list list) list \<Rightarrow> (byte_string \<times> nat list list) list" where
  "remap_children r m =
     filter (\<lambda>(_, ls). \<not> list_all (\<lambda>l. l = []) ls) (map (\<lambda>(target, ls). (target, map (List.map_filter r) ls)) m)"

lemma map_of_remap_children:
  "distinct (map fst m) \<Longrightarrow>
   map_of (remap_children r m) target =
     (case map_of m target of
        None \<Rightarrow> None
      | Some ls \<Rightarrow>
          if list_all (\<lambda>l. l = []) (map (List.map_filter r) ls) then None else Some (map (List.map_filter r) ls))"
proof (induction m)
  case (Cons e m)
  obtain j ls where e: "e = (j, ls)" by (cases e)
  show ?case
  proof (cases "target = j")
    case True
    have "map_of m j = None" using Cons.prems e by (simp add: map_of_eq_None_iff)
    then show ?thesis using True e Cons by (simp add: remap_children_def)
  next
    case False
    then show ?thesis using e Cons by (simp add: remap_children_def)
  qed
qed (simp add: remap_children_def)

lemma child_list_remap:
  assumes "children_exact C m"
  shows "child_list (remap_children r m) key = List.map_filter r (child_list m key)"
proof (cases "map_of m (fst key)")
  case None
  then show ?thesis by (simp add: child_list_def map_of_remap_children [OF children_exactD(1) [OF assms]])
next
  case (Some ls)
  then have "length ls = 3" using assms by (simp add: children_exact_def)
  then show ?thesis
    using Some all_children_empty [of "map (List.map_filter r) ls"]
    by (simp add: child_list_def map_of_remap_children [OF children_exactD(1) [OF assms]])
qed

lemma related_rows_renumber:
  assumes rn: "renumbers r rows rows'"
  shows "{q. \<exists>p \<in> related_rows read_raw rows key. r p = Some q} = related_rows read_raw rows' key"
proof (intro equalityI subsetI)
  fix q assume "q \<in> {q. \<exists>p \<in> related_rows read_raw rows key. r p = Some q}"
  then obtain p where "p < length rows" "relation_key_for read_raw (rows ! p) = Some key" "r p = Some q"
    by (auto simp: related_rows_def)
  then show "q \<in> related_rows read_raw rows' key" using renumbersD(1,2) [OF rn, of p q] by (simp add: related_rows_def)
next
  fix q assume q: "q \<in> related_rows read_raw rows' key"
  then obtain p where p: "p < length rows" "r p = Some q" using renumbersD(3) [OF rn] by (auto simp: related_rows_def)
  then have "p \<in> related_rows read_raw rows key" using q renumbersD(2) [OF rn p] by (simp add: related_rows_def)
  then show "q \<in> {q. \<exists>p \<in> related_rows read_raw rows key. r p = Some q}" using p by blast
qed

lemma children_renumber:
  assumes rn: "renumbers r rows rows'" and ex: "children_exact (related_rows read_raw rows) m"
  shows "children_exact (related_rows read_raw rows') (remap_children r m)"
  unfolding children_exact_def
proof (intro conjI allI impI)
  note d = children_exactD [OF ex]
  show "distinct (map fst (remap_children r m))"
    using d(1) unfolding remap_children_def by (induction m) (auto simp: image_iff)
  fix key
  have "distinct (List.map_filter r (child_list m key))"
    by (rule distinct_map_filter_inj [OF d(2)], rule renumbers_inj [OF rn]) (use d(3) [of key] in \<open>auto simp: related_rows_def\<close>)
  then show "distinct (child_list (remap_children r m) key)" by (simp add: child_list_remap [OF ex])
  have "set (List.map_filter r (child_list m key)) = {q. \<exists>p \<in> related_rows read_raw rows key. r p = Some q}"
    using d(3) [of key] by (force simp: List.map_filter_def)
  then show "set (child_list (remap_children r m) key) = related_rows read_raw rows' key"
    by (simp add: child_list_remap [OF ex] related_rows_renumber [OF rn])
next
  note d = children_exactD [OF ex]
  fix target children assume "map_of (remap_children r m) target = Some children"
  then show "length children = 3" "\<not> list_all (\<lambda>l. l = []) children"
    using ex by (auto simp: map_of_remap_children [OF d(1)] children_exact_def split: option.splits if_splits)
qed

lemma fold_max_set: "fold (\<lambda>p. max (f p)) xs (a :: int) = Max (insert a (f ` set xs))"
proof (induction xs arbitrary: a)
  case (Cons x xs)
  have "Max (insert (max (f x) a) (f ` set xs)) = Max (insert a (insert (f x) (f ` set xs)))"
    by (cases "set xs = {}") (simp_all add: max.assoc max.commute max.left_commute)
  then show ?case using Cons by simp
qed simp

definition latest_entry :: "persistent_event list \<Rightarrow> byte_string \<Rightarrow> int option" where
  "latest_entry rows room = (if 0 < room_latest rows room then Some (room_latest rows room) else None)"

lemma recompute_latest_field:
  assumes "lists_exact (room_rows (ev_rows t)) (by_room_stream t)"
  shows "\<exists>m. recompute_latest_ts room t = t\<lparr>room_latest_ts := m\<rparr> \<and>
    map_of m = (map_of (room_latest_ts t))(room := latest_entry (ev_rows t) room) \<and>
    (distinct (map fst (room_latest_ts t)) \<longrightarrow> distinct (map fst m))"
  using lists_exactD(4) [OF assms, of room]
  by (auto simp: recompute_latest_ts_def latest_entry_def room_latest_def fold_max_set Let_def)

lemma fold_recompute_latest:
  assumes "lists_exact (room_rows (ev_rows t)) (by_room_stream t)"
  shows "\<exists>m. fold recompute_latest_ts rooms t = t\<lparr>room_latest_ts := m\<rparr> \<and>
    (\<forall>room. map_of m room = (if room \<in> set rooms then latest_entry (ev_rows t) room else map_of (room_latest_ts t) room)) \<and>
    (distinct (map fst (room_latest_ts t)) \<longrightarrow> distinct (map fst m))"
  using assms
proof (induction rooms arbitrary: t)
  case Nil
  show ?case by (intro exI [of _ "room_latest_ts t"]) simp
next
  case (Cons room rooms)
  obtain m where m: "recompute_latest_ts room t = t\<lparr>room_latest_ts := m\<rparr>"
    "map_of m = (map_of (room_latest_ts t))(room := latest_entry (ev_rows t) room)"
    "distinct (map fst (room_latest_ts t)) \<longrightarrow> distinct (map fst m)"
    using recompute_latest_field [OF Cons.prems] by blast
  obtain n where n: "fold recompute_latest_ts rooms (t\<lparr>room_latest_ts := m\<rparr>) = t\<lparr>room_latest_ts := n\<rparr>"
    "\<And>r. map_of n r = (if r \<in> set rooms then latest_entry (ev_rows t) r else map_of m r)"
    "distinct (map fst m) \<longrightarrow> distinct (map fst n)"
    using Cons.IH [of "t\<lparr>room_latest_ts := m\<rparr>"] Cons.prems by auto
  show ?case by (intro exI [of _ n]) (use m n in auto)
qed

lemma latest_exact_entry:
  "latest_exact rows m \<longleftrightarrow> distinct (map fst m) \<and> (\<forall>room. map_of m room = latest_entry rows room)"
  by (simp add: latest_exact_def latest_entry_def)

definition losing_rooms :: "bool list \<Rightarrow> persistent_event list \<Rightarrow> byte_string list" where
  "losing_rooms removed rows =
     fold (\<lambda>(row, gone) rooms. if gone then set_insert (pe_room_id row) rooms else rooms) (zip rows removed) []"

lemma set_losing_rooms:
  assumes "length removed = length rows"
  shows "set (losing_rooms removed rows) = {room. \<exists>p < length rows. removed ! p \<and> pe_room_id (rows ! p) = room}"
proof -
  have "set (fold (\<lambda>(row, gone) rooms. if gone then set_insert (pe_room_id row) rooms else rooms) zs acc) =
      set acc \<union> {pe_room_id row |row. (row, True) \<in> set zs}" for zs acc
    by (induction zs arbitrary: acc) (auto split: if_splits)
  from this [of "zip rows removed" "[]"]
  have "set (losing_rooms removed rows) = {pe_room_id row |row. (row, True) \<in> set (zip rows removed)}"
    by (simp add: losing_rooms_def)
  also have "\<dots> = {room. \<exists>p < length rows. removed ! p \<and> pe_room_id (rows ! p) = room}"
    using assms by (auto simp: set_zip)
  finally show ?thesis .
qed

lemma room_latest_kept:
  assumes len: "length removed = length rows" and kept: "room \<notin> set (losing_rooms removed rows)"
  shows "latest_entry (keep_unmarked removed rows) room = latest_entry rows room"
proof -
  let ?r = "\<lambda>p. remap_from 0 removed ! p" and ?rows' = "keep_unmarked removed rows"
  note rn = remap_renumbers [OF len]
  have r: "\<exists>q. ?r p = Some q" if "p \<in> room_rows rows room" for p
    using that kept len by (auto simp: set_losing_rooms room_rows_def remap_from_nth)
  have "(\<lambda>p. latest_ts_of (rows ! p)) ` room_rows rows room = (\<lambda>q. latest_ts_of (?rows' ! q)) ` room_rows ?rows' room"
  proof (intro equalityI subsetI)
    fix v assume "v \<in> (\<lambda>p. latest_ts_of (rows ! p)) ` room_rows rows room"
    then obtain p q where p: "p \<in> room_rows rows room" "v = latest_ts_of (rows ! p)" "?r p = Some q" using r by blast
    then have "q \<in> room_rows ?rows' room" using room_rows_renumber [OF rn, of room] by blast
    moreover have "?rows' ! q = rows ! p" using renumbersD(2) [OF rn room_rows_less [OF p(1)] p(3)] .
    ultimately show "v \<in> (\<lambda>q. latest_ts_of (?rows' ! q)) ` room_rows ?rows' room" using p(2) by force
  next
    fix v assume "v \<in> (\<lambda>q. latest_ts_of (?rows' ! q)) ` room_rows ?rows' room"
    then obtain q where q: "q \<in> room_rows ?rows' room" "v = latest_ts_of (?rows' ! q)" by blast
    then obtain p where p: "p \<in> room_rows rows room" "?r p = Some q" using room_rows_renumber [OF rn, of room] by blast
    then have "?rows' ! q = rows ! p" using renumbersD(2) [OF rn room_rows_less [OF p(1)] p(2)] by simp
    then show "v \<in> (\<lambda>p. latest_ts_of (rows ! p)) ` room_rows rows room" using p(1) q(2) by force
  qed
  then show ?thesis by (simp add: latest_entry_def room_latest_def)
qed

lemma erase_marked_exact:
  assumes ex: "table_exact read_raw t" and len: "length removed = length (ev_rows t)"
    and order: "visits_all (order_losing orders)"
  shows "table_exact read_raw (snd (erase_marked orders removed t))"
proof -
  note d = table_exactD [OF ex]
  let ?remap = "remap_from 0 removed" and ?rows' = "keep_unmarked removed (ev_rows t)"
  let ?losing = "losing_rooms removed (ev_rows t)"
  note rn = remap_renumbers [OF len]
  let ?t1 = "t\<lparr>ev_rows := ?rows',
      by_id := List.map_filter (\<lambda>(k, p). map_option (Pair k) (?remap ! p)) (by_id t),
      stream_order := List.map_filter (\<lambda>p. ?remap ! p) (stream_order t),
      by_room_stream := remap_lists (\<lambda>p. ?remap ! p) (by_room_stream t),
      by_room_time := remap_lists (renumber_entry ?remap) (by_room_time t),
      relation_children := remap_children (\<lambda>p. ?remap ! p) (relation_children t)\<rparr>"
  have rooms: "lists_exact (room_rows ?rows') (remap_lists (\<lambda>p. ?remap ! p) (by_room_stream t))"
    "lists_sorted (\<lambda>p. pe_stream_ordering (?rows' ! p)) (remap_lists (\<lambda>p. ?remap ! p) (by_room_stream t))"
    using rooms_renumber [OF rn d(3) d(4) [unfolded row_ordering_rows]] .
  have "snd (erase_marked orders removed t) = fold recompute_latest_ts (order_losing orders ?losing) ?t1"
    by (simp add: erase_marked_def Let_def losing_rooms_def renumber_def [abs_def] remap_lists_def remap_children_def)
  moreover obtain m where m: "fold recompute_latest_ts (order_losing orders ?losing) ?t1 = ?t1\<lparr>room_latest_ts := m\<rparr>"
    "\<And>room. map_of m room = (if room \<in> set ?losing then latest_entry ?rows' room else map_of (room_latest_ts t) room)"
    "distinct (map fst (room_latest_ts t)) \<longrightarrow> distinct (map fst m)"
    using fold_recompute_latest [of ?t1 "order_losing orders ?losing"] rooms(1) visits_allD(1) [OF order] by auto
  moreover have "latest_exact ?rows' m"
    using d(8) m(2,3) room_latest_kept [OF len] by (auto simp: latest_exact_entry)
  ultimately show ?thesis
    using ids_exact_renumber [OF rn d(1)] stream_positions_renumber [OF rn] rooms times_renumber [OF rn d(5,6)]
      children_renumber [OF rn d(7)] d(2)
    by (simp add: table_exact_def row_ordering_rows)
qed

lemma erase_events_exact:
  assumes "table_exact read_raw t" "visits_all (order_losing orders)"
  shows "table_exact read_raw (snd (erase_events_if orders P t))"
  using assms by (simp add: erase_events_if_def Let_def erase_marked_exact)

subsection \<open>Modification keeps the indexes exact\<close>

lemma room_rows_update:
  assumes "p < length rows"
  defines "C \<equiv> (room_rows rows)(pe_room_id (rows ! p) := room_rows rows (pe_room_id (rows ! p)) - {p})"
  shows "room_rows (rows[p := new]) = C(pe_room_id new := insert p (C (pe_room_id new)))"
proof -
  have C: "C room = room_rows rows room - {p}" for room unfolding C_def by (auto simp: room_rows_def)
  have "room_rows (rows[p := new]) room = C room \<union> (if room = pe_room_id new then {p} else {})" for room
    using assms(1) unfolding C by (auto simp: room_rows_def nth_list_update split: if_splits)
  then show ?thesis by (auto simp: fun_eq_iff)
qed

lemma room_times_update:
  assumes p: "p < length rows"
  defines "C \<equiv> (room_times rows)(pe_room_id (rows ! p) :=
      room_times rows (pe_room_id (rows ! p)) - set_option (time_entry_for (rows ! p) p))"
  shows "room_times (rows[p := new]) =
    (case time_entry_for new p of
       None \<Rightarrow> C
     | Some e \<Rightarrow> C(pe_room_id new := insert e (C (pe_room_id new))))"
proof -
  have C: "C room = {e. \<exists>q. q \<noteq> p \<and> q \<in> room_rows rows room \<and> time_entry_for (rows ! q) q = Some e}" for room
  proof (intro equalityI subsetI)
    fix e assume "e \<in> C room"
    then obtain q where q: "q \<in> room_rows rows room" "time_entry_for (rows ! q) q = Some e"
      "q = p \<longrightarrow> room \<noteq> pe_room_id (rows ! p)"
      unfolding C_def by (auto simp: room_times_def split: if_splits)
    then have "q \<noteq> p" by (auto simp: room_rows_def)
    then show "e \<in> {e. \<exists>q. q \<noteq> p \<and> q \<in> room_rows rows room \<and> time_entry_for (rows ! q) q = Some e}" using q by blast
  next
    fix e assume "e \<in> {e. \<exists>q. q \<noteq> p \<and> q \<in> room_rows rows room \<and> time_entry_for (rows ! q) q = Some e}"
    then obtain q where q: "q \<noteq> p" "q \<in> room_rows rows room" "time_entry_for (rows ! q) q = Some e" by blast
    have "e \<notin> set_option (time_entry_for (rows ! p) p)"
      using time_entry_position [OF q(3)] q(1) time_entry_position [of "rows ! p" p] by auto
    then show "e \<in> C room" using q(2,3) unfolding C_def by (auto simp: room_times_def)
  qed
  have "room_times (rows[p := new]) room =
      C room \<union> (if room = pe_room_id new then set_option (time_entry_for new p) else {})" for room
    using p unfolding C by (auto simp: room_times_def room_rows_def nth_list_update split: if_splits)
  then show ?thesis by (auto simp: fun_eq_iff split: option.split)
qed

lemma related_rows_update:
  fixes read_raw :: yyjson_reader
  assumes p: "p < length rows"
  defines "C \<equiv> (case relation_key_for read_raw (rows ! p) of
      None \<Rightarrow> related_rows read_raw rows
    | Some key \<Rightarrow> (related_rows read_raw rows)(key := related_rows read_raw rows key - {p}))"
  shows "related_rows read_raw (rows[p := new]) =
    (case relation_key_for read_raw new of
       None \<Rightarrow> C
     | Some key \<Rightarrow> C(key := insert p (C key)))"
proof -
  have C: "C key = related_rows read_raw rows key - {p}" for key
    unfolding C_def by (auto simp: related_rows_def split: option.split)
  have "related_rows read_raw (rows[p := new]) key = C key \<union> (if relation_key_for read_raw new = Some key then {p} else {})" for key
    using p unfolding C by (auto simp: related_rows_def nth_list_update split: if_splits)
  then show ?thesis by (auto simp: fun_eq_iff split: option.split)
qed

lemma ids_exact_update:
  assumes "ids_exact key rows m" "p < length rows" "key new = key (rows ! p)"
  shows "ids_exact key (rows[p := new]) m"
proof -
  have "key (rows[p := new] ! q) = key (rows ! q)" for q
    using assms(2,3) by (cases "q = p") simp_all
  then show ?thesis using assms(1) by (simp add: ids_exact_def)
qed

lemma ordering_update:
  assumes "p < length rows" "pe_stream_ordering new = pe_stream_ordering (rows ! p)"
  shows "pe_stream_ordering (rows[p := new] ! q) = pe_stream_ordering (rows ! q)"
  using assms by (cases "q = p") simp_all

lemma remove1_sorted_front:
  "sorted (map f ps) \<Longrightarrow>
   remove1 p (takeWhile (\<lambda>q. f q \<le> f p) ps) @ drop (length (takeWhile (\<lambda>q. f q \<le> f p) ps)) ps = remove1 p ps"
proof (induction ps)
  case (Cons a ps)
  show ?case
  proof (cases "f a \<le> f p")
    case True
    then show ?thesis using Cons by (auto simp: dropWhile_eq_drop [symmetric])
  next
    case False
    then have "p \<notin> set (a # ps)" using Cons.prems by auto
    then show ?thesis using False by (simp add: remove1_idem)
  qed
qed simp

lemma remove1_sorted_stream:
  "sorted (map f ps) \<Longrightarrow>
   (let below = takeWhile (\<lambda>q. f q < f p) ps;
        rest = drop (length below) ps;
        same = takeWhile (\<lambda>q. f q \<le> f p) rest in
    below @ remove1 p same @ drop (length same) rest) = remove1 p ps"
proof (induction ps)
  case (Cons a ps)
  show ?case
  proof (cases "f a < f p")
    case True
    then have "a \<noteq> p" by auto
    then show ?thesis using True Cons by (simp add: Let_def)
  next
    case False
    then show ?thesis using remove1_sorted_front [OF Cons.prems, of p] by (simp add: Let_def)
  qed
qed simp

lemma unindex_stream_field:
  assumes "lists_sorted (row_ordering t) (by_room_stream t)" "order_no = row_ordering t p"
  shows "unindex_stream room p order_no t =
    t\<lparr>by_room_stream := put_list room (remove1 p (held_list (by_room_stream t) room)) (by_room_stream t)\<rparr>"
proof (cases "map_of (by_room_stream t) room")
  case None
  then have "map_erase room (by_room_stream t) = by_room_stream t"
    by (auto simp: map_erase_def map_of_eq_None_iff filter_id_conv)
  then show ?thesis using None by (simp add: unindex_stream_def put_list_def held_list_def)
next
  case (Some ps)
  then have "sorted (map (row_ordering t) ps)"
    using assms(1) by (auto simp: lists_sorted_def held_list_def dest: spec [of _ room])
  note same = remove1_sorted_stream [OF this, of p, unfolded Let_def]
  show ?thesis
    unfolding unindex_stream_def put_list_def held_list_def Some option.case Let_def assms(2) same ..
qed

lemma erase_at_lower_bound_remove1: "sorted es \<Longrightarrow> erase_at_lower_bound e es = remove1 e es"
proof (induction es)
  case (Cons a es)
  show ?case
  proof (cases "a < e")
    case True
    then show ?thesis using Cons by (auto simp: erase_at_lower_bound_def Let_def)
  next
    case False
    have "e \<notin> set es" if "a \<noteq> e" using Cons.prems False that by auto
    then show ?thesis using False by (auto simp: erase_at_lower_bound_def Let_def remove1_idem)
  qed
qed (simp add: erase_at_lower_bound_def)

definition leave_list :: "'k \<Rightarrow> 'v \<Rightarrow> ('k \<times> 'v list) list \<Rightarrow> ('k \<times> 'v list) list" where
  "leave_list k x m = put_list k (remove1 x (held_list m k)) m"

lemma leave_list_exact:
  assumes "lists_exact C m"
  shows "lists_exact (C(k := C k - {x})) (leave_list k x m)"
proof -
  note d = lists_exactD [OF assms]
  have "lists_exact (C(k := set (remove1 x (held_list m k)))) (leave_list k x m)"
    unfolding leave_list_def by (rule put_list_exact [OF assms]) (simp add: d(3) distinct_remove1)
  then show ?thesis using d(3,4) [of k] by (simp add: set_remove1_eq)
qed

lemma leave_list_sorted: "lists_sorted key m \<Longrightarrow> lists_sorted key (leave_list k x m)"
  unfolding leave_list_def by (rule put_list_sorted) (simp_all add: lists_sorted_def sorted_map_remove1)

lemma map_erase_absent: "map_of m k = None \<Longrightarrow> map_erase k m = m"
  by (auto simp: map_erase_def map_of_eq_None_iff filter_id_conv)

lemma unindex_time_field:
  assumes "lists_sorted (\<lambda>e. e) (by_room_time t)"
  shows "unindex_time room entry t =
    t\<lparr>by_room_time := (case entry of None \<Rightarrow> by_room_time t | Some e \<Rightarrow> leave_list room e (by_room_time t))\<rparr>"
proof (cases entry)
  case None
  then show ?thesis by (simp add: unindex_time_def)
next
  case (Some e)
  show ?thesis
  proof (cases "map_of (by_room_time t) room")
    case None
    then show ?thesis using Some
      by (simp add: unindex_time_def leave_list_def put_list_def held_list_def map_erase_absent)
  next
    case (Some es)
    then have "held_list (by_room_time t) room = es" by (simp add: held_list_def)
    then have "sorted es" using assms unfolding lists_sorted_def by (metis list.map_ident)
    then show ?thesis using Some \<open>entry = Some e\<close>
      by (simp add: unindex_time_def leave_list_def put_list_def held_list_def erase_at_lower_bound_remove1 Let_def)
  qed
qed

text \<open>The room lists after a row has been replaced.\<close>

definition moved_rooms :: "nat \<Rightarrow> persistent_event \<Rightarrow> persistent_event \<Rightarrow> (nat \<Rightarrow> 64 word) \<Rightarrow> (byte_string \<times> nat list) list \<Rightarrow> (byte_string \<times> nat list) list" where
  "moved_rooms p old new key m =
     (if pe_room_id new = pe_room_id old then m
      else enter_list key (pe_room_id new) p (leave_list (pe_room_id old) p m))"

lemma moved_rooms_exact:
  assumes ex: "lists_exact (room_rows rows) m" and p: "p < length rows"
  shows "lists_exact (room_rows (rows[p := new])) (moved_rooms p (rows ! p) new key m)"
proof (cases "pe_room_id new = pe_room_id (rows ! p)")
  case True
  have "room_rows (rows[p := new]) = room_rows rows"
    using p True by (auto simp: room_rows_def nth_list_update fun_eq_iff split: if_splits)
  then show ?thesis using True ex by (simp add: moved_rooms_def)
next
  case False
  show ?thesis
    unfolding moved_rooms_def room_rows_update [OF p] using False
    by (simp only: if_False) (rule enter_list_exact [OF leave_list_exact [OF ex]], simp add: room_rows_def)
qed

lemma moved_rooms_sorted: "lists_sorted key m \<Longrightarrow> lists_sorted key (moved_rooms p old new key m)"
  by (simp add: moved_rooms_def enter_list_sorted leave_list_sorted)

definition moved_times :: "nat \<Rightarrow> persistent_event \<Rightarrow> persistent_event \<Rightarrow> (byte_string \<times> time_entry list) list \<Rightarrow> (byte_string \<times> time_entry list) list" where
  "moved_times p old new m =
     (let m' = (case time_entry_for old p of None \<Rightarrow> m | Some e \<Rightarrow> leave_list (pe_room_id old) e m) in
      case time_entry_for new p of None \<Rightarrow> m' | Some e \<Rightarrow> enter_list (\<lambda>e. e) (pe_room_id new) e m')"

lemma moved_times_exact:
  assumes ex: "lists_exact (room_times rows) m" and p: "p < length rows"
  shows "lists_exact (room_times (rows[p := new])) (moved_times p (rows ! p) new m)"
proof -
  let ?room = "pe_room_id (rows ! p)" and ?old = "time_entry_for (rows ! p) p"
  let ?C = "(room_times rows)(?room := room_times rows ?room - set_option ?old)"
  let ?m = "case ?old of None \<Rightarrow> m | Some e \<Rightarrow> leave_list ?room e m"
  have C: "lists_exact ?C ?m"
    using ex leave_list_exact [OF ex, of ?room] by (cases ?old) simp_all
  show ?thesis
  proof (cases "time_entry_for new p")
    case None
    then show ?thesis using C by (simp add: moved_times_def room_times_update [OF p])
  next
    case (Some e)
    have "e \<notin> ?C (pe_room_id new)"
    proof
      assume "e \<in> ?C (pe_room_id new)"
      then obtain q where q: "q \<in> room_rows rows (pe_room_id new)" "time_entry_for (rows ! q) q = Some e"
        "pe_room_id new = ?room \<longrightarrow> e \<notin> set_option ?old"
        by (auto simp: room_times_def split: if_splits)
      then have "q = p" using time_entry_position [OF q(2)] time_entry_position [OF Some] by simp
      then show False using q by (auto simp: room_rows_def)
    qed
    then show ?thesis
      unfolding moved_times_def room_times_update [OF p] Some option.case Let_def by (rule enter_list_exact [OF C])
  qed
qed

lemma moved_times_sorted: "lists_sorted (\<lambda>e. e) m \<Longrightarrow> lists_sorted (\<lambda>e. e) (moved_times p old new m)"
  by (simp add: moved_times_def Let_def enter_list_sorted leave_list_sorted split: option.split)

definition moved_children :: "yyjson_reader \<Rightarrow> nat \<Rightarrow> persistent_event \<Rightarrow> persistent_event \<Rightarrow> (byte_string \<times> nat list list) list \<Rightarrow> (byte_string \<times> nat list list) list" where
  "moved_children read_raw p old new m =
     entered_children read_raw new p
       (case relation_key_for read_raw old of
          None \<Rightarrow> m
        | Some key \<Rightarrow> put_child key (filter (\<lambda>q. q \<noteq> p) (child_list m key)) m)"

lemma moved_children_exact:
  assumes ex: "children_exact (related_rows read_raw rows) m" and p: "p < length rows"
  shows "children_exact (related_rows read_raw (rows[p := new])) (moved_children read_raw p (rows ! p) new m)"
proof -
  let ?old = "relation_key_for read_raw (rows ! p)"
  let ?C = "case ?old of
      None \<Rightarrow> related_rows read_raw rows
    | Some key \<Rightarrow> (related_rows read_raw rows)(key := related_rows read_raw rows key - {p})"
  let ?m = "case ?old of None \<Rightarrow> m | Some key \<Rightarrow> put_child key (filter (\<lambda>q. q \<noteq> p) (child_list m key)) m"
  have C: "children_exact ?C ?m" using ex leave_child_exact [OF ex] by (cases ?old) simp_all
  have fresh: "p \<notin> ?C key" for key by (auto simp: related_rows_def split: option.split)
  show ?thesis
    using C enter_child_exact [OF C fresh]
    by (cases "relation_key_for read_raw new")
      (simp_all add: moved_children_def entered_children_def related_rows_update [OF p])
qed

text \<open>The greatest timestamps after a row has been replaced.\<close>

lemma room_latest_update:
  assumes p: "p < length rows" and r: "room \<notin> {pe_room_id (rows ! p), pe_room_id new}"
  shows "latest_entry (rows[p := new]) room = latest_entry rows room"
proof -
  have "room_rows (rows[p := new]) room = room_rows rows room"
    using p r by (auto simp: room_rows_def nth_list_update split: if_splits)
  moreover have "latest_ts_of (rows[p := new] ! q) = latest_ts_of (rows ! q)" if "q \<in> room_rows rows room" for q
    using that r by (cases "q = p") (auto simp: room_rows_def)
  ultimately have "(\<lambda>q. latest_ts_of (rows[p := new] ! q)) ` room_rows (rows[p := new]) room =
      (\<lambda>q. latest_ts_of (rows ! q)) ` room_rows rows room"
    by (intro image_cong) auto
  then show ?thesis by (simp add: latest_entry_def room_latest_def)
qed

lemma room_latest_same:
  assumes p: "p < length rows" and "pe_room_id new = pe_room_id (rows ! p)" "latest_ts_of new = latest_ts_of (rows ! p)"
  shows "latest_entry (rows[p := new]) room = latest_entry rows room"
proof -
  have "room_rows (rows[p := new]) room = room_rows rows room"
    using p assms(2) by (auto simp: room_rows_def nth_list_update split: if_splits)
  moreover have "latest_ts_of (rows[p := new] ! q) = latest_ts_of (rows ! q)" for q
    using p assms(3) by (cases "q = p") simp_all
  ultimately show ?thesis by (simp add: latest_entry_def room_latest_def)
qed

lemma modified_latest:
  assumes ex: "latest_exact rows (room_latest_ts t)" and p: "p < length rows"
    and rows: "ev_rows t = rows[p := new]" and rooms: "lists_exact (room_rows (ev_rows t)) (by_room_stream t)"
  shows "\<exists>m. (if pe_room_id new \<noteq> pe_room_id (rows ! p) \<or> latest_ts_of new \<noteq> latest_ts_of (rows ! p)
      then recompute_latest_ts (pe_room_id new) (recompute_latest_ts (pe_room_id (rows ! p)) t) else t) =
      t\<lparr>room_latest_ts := m\<rparr> \<and> latest_exact (rows[p := new]) m"
proof (cases "pe_room_id new \<noteq> pe_room_id (rows ! p) \<or> latest_ts_of new \<noteq> latest_ts_of (rows ! p)")
  case True
  let ?rooms = "[pe_room_id (rows ! p), pe_room_id new]"
  obtain m where m: "fold recompute_latest_ts ?rooms t = t\<lparr>room_latest_ts := m\<rparr>"
    "\<And>room. map_of m room = (if room \<in> set ?rooms then latest_entry (ev_rows t) room else map_of (room_latest_ts t) room)"
    "distinct (map fst (room_latest_ts t)) \<longrightarrow> distinct (map fst m)"
    using fold_recompute_latest [OF rooms, of ?rooms] by blast
  have "latest_exact (rows[p := new]) m"
    using ex m(2,3) room_latest_update [OF p, of _ new] by (auto simp: latest_exact_entry rows)
  then show ?thesis using True m(1) by auto
next
  case False
  then have "latest_exact (rows[p := new]) (room_latest_ts t)"
    using ex room_latest_same [OF p, of new] by (simp add: latest_exact_entry)
  then show ?thesis using False by (intro exI [of _ "room_latest_ts t"]) simp
qed

lemma times_same:
  assumes ex: "lists_exact (room_times rows) m" and p: "p < length rows"
    and same: "pe_room_id new = pe_room_id (rows ! p)" "time_entry_for new p = time_entry_for (rows ! p) p"
  shows "lists_exact (room_times (rows[p := new])) m"
proof -
  have "time_entry_for (rows[p := new] ! q) q = time_entry_for (rows ! q) q" for q
    using p same(2) by (cases "q = p") simp_all
  moreover have "room_rows (rows[p := new]) = room_rows rows"
    using p same(1) by (auto simp: room_rows_def nth_list_update fun_eq_iff split: if_splits)
  ultimately show ?thesis using ex by (simp add: room_times_def [abs_def])
qed

lemma children_same:
  assumes "children_exact (related_rows read_raw rows) m" "p < length rows"
    and same: "relation_key_for read_raw new = relation_key_for read_raw (rows ! p)"
  shows "children_exact (related_rows read_raw (rows[p := new])) m"
proof -
  have "relation_key_for read_raw (rows[p := new] ! q) = relation_key_for read_raw (rows ! q)" for q
    using assms(2) same by (cases "q = p") simp_all
  then show ?thesis using assms(1) by (simp add: related_rows_def [abs_def])
qed

lemma modify_rooms_field:
  assumes s: "lists_sorted (row_ordering t) (by_room_stream t)" and p: "p < length (ev_rows t)"
    and old: "row_ordering t p = pe_stream_ordering old"
  shows "(if pe_room_id (ev_rows t ! p) \<noteq> pe_room_id old
      then index_stream p (unindex_stream (pe_room_id old) p (pe_stream_ordering old) t) else t) =
    t\<lparr>by_room_stream := moved_rooms p old (ev_rows t ! p) (row_ordering t) (by_room_stream t)\<rparr>"
proof -
  have "unindex_stream (pe_room_id old) p (pe_stream_ordering old) t =
      t\<lparr>by_room_stream := leave_list (pe_room_id old) p (by_room_stream t)\<rparr>"
    unfolding leave_list_def by (rule unindex_stream_field [OF s old [symmetric]])
  then show ?thesis
    using leave_list_sorted [OF s] by (simp add: moved_rooms_def index_stream_field)
qed

lemma modify_times_field:
  assumes s: "lists_sorted (\<lambda>e. e) (by_room_time t)"
  shows "index_time p (unindex_time (pe_room_id old) (time_entry_for old p) t) =
    t\<lparr>by_room_time := moved_times p old (ev_rows t ! p) (by_room_time t)\<rparr>"
proof -
  have "lists_sorted (\<lambda>e. e) (case time_entry_for old p of None \<Rightarrow> by_room_time t
      | Some e \<Rightarrow> leave_list (pe_room_id old) e (by_room_time t))"
    using s by (simp add: leave_list_sorted split: option.split)
  then show ?thesis
    by (simp add: unindex_time_field [OF s] index_time_field enter_time_def moved_times_def Let_def)
qed

lemma modify_children_field:
  assumes ex: "children_exact C (relation_children t)"
  shows "(let t' = (case relation_key_for read_raw old of None \<Rightarrow> t | Some key \<Rightarrow> unindex_relation p key t) in
      case relation_key_for read_raw new of None \<Rightarrow> t' | Some key \<Rightarrow> index_relation p key t') =
    t\<lparr>relation_children := moved_children read_raw p old new (relation_children t)\<rparr>"
proof -
  let ?t = "case relation_key_for read_raw old of None \<Rightarrow> t | Some key \<Rightarrow> unindex_relation p key t"
  let ?m = "case relation_key_for read_raw old of None \<Rightarrow> relation_children t
    | Some key \<Rightarrow> put_child key (filter (\<lambda>q. q \<noteq> p) (child_list (relation_children t) key)) (relation_children t)"
  have t: "?t = t\<lparr>relation_children := ?m\<rparr>"
    by (simp add: unindex_relation_field [OF ex] split: option.split)
  obtain C' where "children_exact C' ?m"
    using ex leave_child_exact [OF ex] by (cases "relation_key_for read_raw old") auto
  then have "children_exact C' (relation_children (t\<lparr>relation_children := ?m\<rparr>))" by simp
  from index_relation_field [OF this] show ?thesis
    unfolding t by (simp add: moved_children_def entered_children_def Let_def split: option.split)
qed

lemma modify_event_exact:
  assumes ex: "table_exact read_raw t" and p: "p < length (ev_rows t)"
  shows "table_exact read_raw (modify_event read_raw p mutation t)"
proof -
  note d = table_exactD [OF ex]
  let ?rows = "ev_rows t"
  let ?old = "?rows ! p"
  define new where "new = (mutation ?old)\<lparr>pe_event_id := pe_event_id ?old, pe_stream_ordering := pe_stream_ordering ?old\<rparr>"
  have keep: "pe_event_id new = pe_event_id ?old" "pe_stream_ordering new = pe_stream_ordering ?old"
    by (simp_all add: new_def)
  define moved where "moved \<longleftrightarrow> pe_room_id new \<noteq> pe_room_id ?old"
  let ?rooms = "moved_rooms p ?old new (row_ordering t) (by_room_stream t)"
  define times where "times = (if moved \<or> time_entry_for new p \<noteq> time_entry_for ?old p
      then moved_times p ?old new (by_room_time t) else by_room_time t)"
  define children where "children = (if relation_key_for read_raw new = relation_key_for read_raw ?old
      then relation_children t else moved_children read_raw p ?old new (relation_children t))"
  let ?t1 = "t\<lparr>ev_rows := ?rows[p := new]\<rparr>"
  have ord: "row_ordering ?t1 = row_ordering t"
    using ordering_update [OF p keep(2)] by (simp add: row_ordering_rows fun_eq_iff)
  have rooms: "lists_exact (room_rows (?rows[p := new])) ?rooms" "lists_sorted (row_ordering t) ?rooms"
    using moved_rooms_exact [OF d(3) p] moved_rooms_sorted [OF d(4)] by blast+
  have t2: "(if moved then index_stream p (unindex_stream (pe_room_id ?old) p (pe_stream_ordering ?old) ?t1) else ?t1) =
      ?t1\<lparr>by_room_stream := ?rooms\<rparr>"
  proof -
    have "row_ordering ?t1 p = pe_stream_ordering ?old" by (simp add: ord) (simp add: row_ordering_def)
    moreover have "lists_sorted (row_ordering ?t1) (by_room_stream ?t1)" using d(4) by (simp add: ord)
    ultimately show ?thesis using modify_rooms_field [of ?t1 p ?old] p by (simp add: ord moved_def split: if_splits)
  qed
  let ?t2 = "?t1\<lparr>by_room_stream := ?rooms\<rparr>"
  have t3: "(if moved \<or> time_entry_for new p \<noteq> time_entry_for ?old p
      then index_time p (unindex_time (pe_room_id ?old) (time_entry_for ?old p) ?t2) else ?t2) = ?t2\<lparr>by_room_time := times\<rparr>"
    using modify_times_field [of ?t2 p ?old] d(6) p by (simp add: times_def)
  let ?t3 = "?t2\<lparr>by_room_time := times\<rparr>"
  obtain latest where t4: "(if moved \<or> latest_ts_of new \<noteq> latest_ts_of ?old
      then recompute_latest_ts (pe_room_id new) (recompute_latest_ts (pe_room_id ?old) ?t3) else ?t3) =
      ?t3\<lparr>room_latest_ts := latest\<rparr>" "latest_exact (?rows[p := new]) latest"
    using modified_latest [of ?rows ?t3 p new] d(8) p rooms(1) by (auto simp: moved_def)
  let ?t4 = "?t3\<lparr>room_latest_ts := latest\<rparr>"
  have t5: "(case relation_key_for read_raw new of
        None \<Rightarrow> (case relation_key_for read_raw ?old of None \<Rightarrow> ?t4 | Some key \<Rightarrow> unindex_relation p key ?t4)
      | Some key \<Rightarrow> index_relation p key
          (case relation_key_for read_raw ?old of None \<Rightarrow> ?t4 | Some key \<Rightarrow> unindex_relation p key ?t4)) =
      ?t4\<lparr>relation_children := moved_children read_raw p ?old new (relation_children t)\<rparr>"
    using modify_children_field [where t = ?t4 and old = ?old and new = new and p = p and read_raw = read_raw, unfolded Let_def] d(7)
    by simp
  have final: "modify_event read_raw p mutation t = ?t4\<lparr>relation_children := children\<rparr>"
    unfolding modify_event_def Let_def new_def [symmetric] moved_def [symmetric] t2 t3 t4(1) t5 children_def by simp
  have "lists_exact (room_times (?rows[p := new])) times" "lists_sorted (\<lambda>e. e) times"
    using moved_times_exact [OF d(5) p] times_same [OF d(5) p] moved_times_sorted [OF d(6)] d(6)
    by (auto simp: times_def moved_def)
  moreover have "children_exact (related_rows read_raw (?rows[p := new])) children"
    using moved_children_exact [OF d(7) p] children_same [OF d(7) p] by (simp add: children_def)
  moreover have "stream_positions (?rows[p := new]) = stream_positions ?rows"
    using ordering_update [OF p keep(2)] by (simp add: stream_positions_def)
  ultimately show ?thesis
    unfolding table_exact_def final
    using ids_exact_update [OF d(1) p keep(1)] d(2) rooms t4(2) ord by simp
qed

subsection \<open>Bulk insertion keeps the indexes exact\<close>

lemma add_row_exact:
  assumes "ids_exact pe_event_id (ev_rows t) (by_id t)" "latest_exact (ev_rows t) (room_latest_ts t)"
  shows "\<exists>es ids latest. add_row e t = t\<lparr>ev_rows := ev_rows t @ es, by_id := ids, room_latest_ts := latest\<rparr> \<and>
    ids_exact pe_event_id (ev_rows t @ es) ids \<and> latest_exact (ev_rows t @ es) latest"
proof (cases "pe_event_id e \<in> set (map fst (by_id t))")
  case True
  then show ?thesis
    using assms by (intro exI [of _ "[]"] exI [of _ "by_id t"] exI [of _ "room_latest_ts t"]) (simp add: add_row_def)
next
  case False
  have "add_row e t = t\<lparr>ev_rows := ev_rows t @ [e], by_id := map_emplace (pe_event_id e) (length (ev_rows t)) (by_id t),
      room_latest_ts := raised_latest e (room_latest_ts t)\<rparr>"
    using False by (cases t) (simp add: add_row_def raise_latest_field Let_def)
  then show ?thesis using ids_exact_append [OF assms(1) False] raised_latest_exact [OF assms(2)] by blast
qed

lemma add_rows_exact:
  assumes "ids_exact pe_event_id (ev_rows t) (by_id t)" "latest_exact (ev_rows t) (room_latest_ts t)"
  shows "\<exists>es ids latest. fold add_row events t = t\<lparr>ev_rows := ev_rows t @ es, by_id := ids, room_latest_ts := latest\<rparr> \<and>
    ids_exact pe_event_id (ev_rows t @ es) ids \<and> latest_exact (ev_rows t @ es) latest"
  using assms
proof (induction events arbitrary: t)
  case Nil
  then show ?case
    by (intro exI [of _ "[]"] exI [of _ "by_id t"] exI [of _ "room_latest_ts t"]) simp
next
  case (Cons e events)
  obtain es ids latest where one: "add_row e t = t\<lparr>ev_rows := ev_rows t @ es, by_id := ids, room_latest_ts := latest\<rparr>"
    "ids_exact pe_event_id (ev_rows t @ es) ids" "latest_exact (ev_rows t @ es) latest"
    using add_row_exact [OF Cons.prems] by blast
  obtain es' ids' latest' where rest:
    "fold add_row events (add_row e t) = (add_row e t)\<lparr>ev_rows := ev_rows (add_row e t) @ es', by_id := ids', room_latest_ts := latest'\<rparr>"
    "ids_exact pe_event_id (ev_rows (add_row e t) @ es') ids'" "latest_exact (ev_rows (add_row e t) @ es') latest'"
    using Cons.IH [of "add_row e t"] one by auto
  show ?case
    by (intro exI [of _ "es @ es'"] exI [of _ ids'] exI [of _ latest']) (use one rest in simp)
qed

definition append_items :: "('k \<times> 'v) list \<Rightarrow> ('k \<times> 'v list) list \<times> ('k \<times> nat) list \<Rightarrow> ('k \<times> 'v list) list \<times> ('k \<times> nat) list" where
  "append_items items = fold (\<lambda>(k, x) (m, touched).
     (map_assign k (held_list m k @ [x]) m, map_emplace k (length (held_list m k)) touched)) items"

lemma append_items_spec:
  assumes "lists_exact C m0" "append_items items (m0, []) = (m, touched)"
  shows "held_list m k = held_list m0 k @ map snd (filter (\<lambda>i. fst i = k) items)" (is ?held)
    "map_of touched k = (if k \<in> fst ` set items then Some (length (held_list m0 k)) else None)" (is ?touched)
    "distinct (map fst m)" "distinct (map fst touched)" "map_of m k \<noteq> Some []"
proof -
  have "(\<forall>k. held_list m k = held_list m0 k @ map snd (filter (\<lambda>i. fst i = k) items)) \<and>
      (\<forall>k. map_of touched k = (if k \<in> fst ` set items then Some (length (held_list m0 k)) else None)) \<and>
      distinct (map fst m) \<and> distinct (map fst touched) \<and> (\<forall>k. map_of m k \<noteq> Some [])"
    using assms(2)
  proof (induction items arbitrary: m touched rule: rev_induct)
    case Nil
    then show ?case using lists_exactD [OF assms(1)] by (simp add: append_items_def)
  next
    case (snoc i items)
    obtain j x where i: "i = (j, x)" by (cases i)
    obtain m1 touched1 where one: "append_items items (m0, []) = (m1, touched1)" by fastforce
    have m: "m = map_assign j (held_list m1 j @ [x]) m1" "touched = map_emplace j (length (held_list m1 j)) touched1"
      using snoc.prems one by (simp_all add: append_items_def i)
    note IH = snoc.IH [OF one]
    have fresh: "filter (\<lambda>i. fst i = j) items = []" if "j \<notin> fst ` set items"
      using that by (auto simp: filter_empty_conv)
    show ?case using IH fresh unfolding m i by (auto simp: domIff split: if_splits)
  qed
  then show ?held ?touched "distinct (map fst m)" "distinct (map fst touched)" "map_of m k \<noteq> Some []" by blast+
qed

lemma merge_steps_map_of:
  assumes "distinct (map fst visits)"
  shows "map_of (fold (\<lambda>(k, n) m. map_assign k (merge_tail key n (held_list m k)) m) visits m) k =
    (case map_of visits k of None \<Rightarrow> map_of m k | Some n \<Rightarrow> Some (merge_tail key n (held_list m k)))"
  using assms
proof (induction visits arbitrary: m)
  case (Cons v visits)
  obtain j n where v: "v = (j, n)" by (cases v)
  have "map_of visits j = None" using Cons.prems v by (simp add: map_of_eq_None_iff)
  then show ?case using Cons v by (auto split: option.split)
qed simp

lemma merge_steps_keys:
  "distinct (map fst m) \<Longrightarrow>
   distinct (map fst (fold (\<lambda>(k, n) m. map_assign k (merge_tail key n (held_list m k)) m) visits m))"
  by (induction visits arbitrary: m) (auto split: prod.split)

lemma visit_map_lookup:
  assumes "visits_all order" "distinct (map fst m)"
  shows "map_of (visit_map order m) = map_of m" "distinct (map fst (visit_map order m))"
proof -
  show keys: "distinct (map fst (visit_map order m))"
    using assms by (simp add: visit_map_keys)
  then show "map_of (visit_map order m) = map_of m"
    using map_of_inject_set [OF keys assms(2)] visit_map_set [OF assms] by simp
qed

lemma merge_rooms_exact:
  assumes ex: "lists_exact C m0" and so: "lists_sorted key m0" and order: "visits_all order"
    and items: "distinct (map snd items)" "\<And>k x. (k, x) \<in> set items \<Longrightarrow> x \<notin> C k"
  defines "res \<equiv> merge_rooms order key (append_items items (m0, []))"
  shows "lists_exact (\<lambda>k. C k \<union> {x. (k, x) \<in> set items}) res" "lists_sorted key res"
proof -
  obtain m touched where one: "append_items items (m0, []) = (m, touched)" by fastforce
  note sp = append_items_spec [OF ex one] and d = lists_exactD [OF ex]
  note vm = visit_map_lookup [OF order sp(4)]
  let ?tail = "\<lambda>k. map snd (filter (\<lambda>i. fst i = k) items)"
  have look: "map_of res k =
      (if k \<in> fst ` set items then Some (inplace_merge key (held_list m0 k) (sort_key key (?tail k))) else map_of m k)" for k
    using sp(1,2) [of k] unfolding res_def one merge_rooms_def prod.case merge_steps_map_of [OF vm(2)] vm(1)
    by (simp add: merge_tail_def)
  have untouched: "?tail k = []" if "k \<notin> fst ` set items" for k using that by (auto simp: filter_empty_conv)
  have "inplace_merge key xs [] = xs" for xs by (cases xs) simp_all
  then have held: "held_list res k = inplace_merge key (held_list m0 k) (sort_key key (?tail k))" for k
    using look [of k] untouched [of k] sp(1) [of k] by (auto simp: held_list_def)
  have keys: "distinct (map fst res)" unfolding res_def one merge_rooms_def by (simp add: merge_steps_keys sp(3))
  have tail: "set (?tail k) = {x. (k, x) \<in> set items}" for k by force
  have "distinct (?tail k)" for k using items(1) by (rule distinct_map_filter)
  then have dist: "distinct (held_list m0 k @ ?tail k)" for k
    using d(3,4) [of k] items(2) tail [of k] by auto
  have ms: "mset (held_list res k) = mset (held_list m0 k @ ?tail k)" for k by (simp add: held)
  show "lists_sorted key res" unfolding lists_sorted_def held using so by (simp add: lists_sorted_def sorted_inplace_merge)
  show "lists_exact (\<lambda>k. C k \<union> {x. (k, x) \<in> set items}) res"
    unfolding lists_exact_def
  proof (intro conjI allI)
    fix k
    show "distinct (held_list res k)" using dist mset_eq_imp_distinct_iff [OF ms] by blast
    show "set (held_list res k) = C k \<union> {x. (k, x) \<in> set items}"
      using mset_eq_setD [OF ms [of k]] d(4) [of k] tail [of k] by simp
    show "map_of res k \<noteq> Some []"
    proof (cases "k \<in> fst ` set items")
      case True
      then have "set (?tail k) \<noteq> {}" by auto
      then have "set (inplace_merge key (held_list m0 k) (sort_key key (?tail k))) \<noteq> {}" by simp
      then have "inplace_merge key (held_list m0 k) (sort_key key (?tail k)) \<noteq> []" by (metis list.set(1))
      then show ?thesis using look [of k] True by simp
    qed (use look [of k] sp(5) [of k] in simp)
  qed (rule keys)
qed

text \<open>The two loops over the added rows append items.\<close>

definition stream_items :: "persistent_event list \<Rightarrow> nat list \<Rightarrow> (byte_string \<times> nat) list" where
  "stream_items rows ps = map (\<lambda>p. (pe_room_id (rows ! p), p)) ps"

definition time_items :: "persistent_event list \<Rightarrow> nat list \<Rightarrow> (byte_string \<times> time_entry) list" where
  "time_items rows ps = List.map_filter (\<lambda>p. map_option (Pair (pe_room_id (rows ! p))) (time_entry_for (rows ! p) p)) ps"

lemma append_streams: "fold (\<lambda>p. append_to_room (pe_room_id (rows ! p)) p) ps acc = append_items (stream_items rows ps) acc"
  by (induction ps arbitrary: acc) (simp_all add: stream_items_def append_items_def append_to_room_def)

lemma append_times: "fold (append_time_entry t) ps acc = append_items (time_items (ev_rows t) ps) acc"
  by (induction ps arbitrary: acc)
    (simp_all add: time_items_def append_items_def append_time_entry_def append_to_room_def split: option.split)

lemma room_rows_extend:
  "room_rows (rows @ es) room = room_rows rows room \<union> {p. (room, p) \<in> set (stream_items (rows @ es) [length rows..<length (rows @ es)])}"
  by (auto simp: room_rows_def stream_items_def nth_append image_iff)

lemma room_times_extend:
  "room_times (rows @ es) room = room_times rows room \<union> {e. (room, e) \<in> set (time_items (rows @ es) [length rows..<length (rows @ es)])}"
proof -
  have "{e. (room, e) \<in> set (time_items (rows @ es) [length rows..<length (rows @ es)])} =
      {e. \<exists>p \<in> room_rows (rows @ es) room. length rows \<le> p \<and> time_entry_for ((rows @ es) ! p) p = Some e}"
    by (auto simp: time_items_def List.map_filter_def room_rows_def image_iff)
  moreover have "room_times rows room =
      {e. \<exists>p \<in> room_rows (rows @ es) room. p < length rows \<and> time_entry_for ((rows @ es) ! p) p = Some e}"
    by (auto simp: room_times_def room_rows_def nth_append)
  ultimately show ?thesis by (auto simp: room_times_def) (meson not_le)
qed

lemma distinct_stream_items: "distinct ps \<Longrightarrow> distinct (map snd (stream_items rows ps))"
  by (simp add: stream_items_def comp_def)

lemma distinct_time_items: "distinct ps \<Longrightarrow> distinct (map snd (time_items rows ps))"
proof (induction ps)
  case (Cons p ps)
  have "e \<notin> snd ` set (time_items rows ps)" if e: "time_entry_for (rows ! p) p = Some e" for e
  proof
    assume "e \<in> snd ` set (time_items rows ps)"
    then obtain q where "q \<in> set ps" "time_entry_for (rows ! q) q = Some e"
      by (auto simp: time_items_def List.map_filter_def)
    then have "q = p" using time_entry_position [of "rows ! q" q e] time_entry_position [OF e] by simp
    then show False using \<open>q \<in> set ps\<close> Cons.prems by simp
  qed
  then show ?case using Cons by (simp add: time_items_def split: option.split)
qed (simp add: time_items_def)

lemma enter_relations_exact:
  assumes "children_exact (related_rows read_raw (take n (ev_rows t))) (relation_children t)"
    "n + k \<le> length (ev_rows t)"
  shows "\<exists>m. fold (enter_relation read_raw) [n..<n + k] t = t\<lparr>relation_children := m\<rparr> \<and>
    children_exact (related_rows read_raw (take (n + k) (ev_rows t))) m"
  using assms(2)
proof (induction k)
  case 0
  show ?case using assms(1) by (intro exI [of _ "relation_children t"]) simp
next
  case (Suc k)
  then obtain m where m: "fold (enter_relation read_raw) [n..<n + k] t = t\<lparr>relation_children := m\<rparr>"
    "children_exact (related_rows read_raw (take (n + k) (ev_rows t))) m" by auto
  let ?e = "ev_rows t ! (n + k)"
  have rows: "take (n + Suc k) (ev_rows t) = take (n + k) (ev_rows t) @ [?e]"
    using Suc.prems by (simp add: take_Suc_conv_app_nth)
  have "length (take (n + k) (ev_rows t)) = n + k" using Suc.prems by simp
  then have "children_exact (related_rows read_raw (take (n + Suc k) (ev_rows t))) (entered_children read_raw ?e (n + k) m)"
    using entered_children_exact [OF m(2), of ?e] unfolding rows by simp
  then show ?case using m by (auto simp: enter_relation_field)
qed

lemma stream_positions_extend:
  "merge_tail (\<lambda>p. pe_stream_ordering ((rows @ es) ! p)) (length (stream_positions rows))
     (stream_positions rows @ [length rows..<length (rows @ es)]) = stream_positions (rows @ es)"
proof -
  let ?f = "\<lambda>p. pe_stream_ordering ((rows @ es) ! p)"
  have old: "stream_positions rows = sort_key ?f [0..<length rows]"
    unfolding stream_positions_def by (rule sort_key_cong_on) (simp add: nth_append)
  have split: "[0..<length (rows @ es)] = [0..<length rows] @ [length rows..<length (rows @ es)]"
    using upt_add_eq_append [of 0 "length rows" "length es"] by simp
  show ?thesis
    unfolding stream_positions_def [of "rows @ es"] old split by (rule merge_tail_sort [OF refl])
qed

lemma insert_all_exact:
  assumes ex: "table_exact read_raw t"
    and orders: "visits_all (order_streams orders)" "visits_all (order_times orders)"
  shows "table_exact read_raw (snd (insert_all_events read_raw orders events t))"
proof -
  note d = table_exactD [OF ex]
  obtain es ids latest where rows: "fold add_row events t = t\<lparr>ev_rows := ev_rows t @ es, by_id := ids, room_latest_ts := latest\<rparr>"
    "ids_exact pe_event_id (ev_rows t @ es) ids" "latest_exact (ev_rows t @ es) latest"
    using add_rows_exact [OF d(1,8)] by blast
  let ?rows = "ev_rows t @ es" and ?n = "length (ev_rows t)"
  let ?t1 = "t\<lparr>ev_rows := ?rows, by_id := ids, room_latest_ts := latest\<rparr>" and ?added = "[?n..<length ?rows]"
  let ?ord = "\<lambda>p. pe_stream_ordering (?rows ! p)"
  let ?streams = "merge_rooms (order_streams orders) ?ord (append_items (stream_items ?rows ?added) (by_room_stream t, []))"
  let ?times = "merge_rooms (order_times orders) (\<lambda>e. e) (append_items (time_items ?rows ?added) (by_room_time t, []))"
  have sorted: "lists_sorted ?ord (by_room_stream t)"
    by (rule lists_sorted_append [OF d(3) d(4) [unfolded row_ordering_rows]])
  have new: "x \<notin> room_rows (ev_rows t) k" if "(k, x) \<in> set (stream_items ?rows ?added)" for k x
    using that by (auto simp: stream_items_def room_rows_def)
  have rooms: "room_rows ?rows = (\<lambda>room. room_rows (ev_rows t) room \<union> {p. (room, p) \<in> set (stream_items ?rows ?added)})"
    by (rule ext) (rule room_rows_extend)
  have streams: "lists_exact (room_rows ?rows) ?streams" "lists_sorted ?ord ?streams"
    unfolding rooms by (rule merge_rooms_exact [OF d(3) sorted orders(1) distinct_stream_items new]; simp)+
  have fresh: "e \<notin> room_times (ev_rows t) k" if "(k, e) \<in> set (time_items ?rows ?added)" for k e
  proof
    assume "e \<in> room_times (ev_rows t) k"
    then have "entry_position e < ?n" by (rule room_times_position)
    moreover have "?n \<le> entry_position e"
      using that by (auto simp: time_items_def List.map_filter_def dest: time_entry_position)
    ultimately show False by simp
  qed
  have by_time: "room_times ?rows = (\<lambda>room. room_times (ev_rows t) room \<union> {e. (room, e) \<in> set (time_items ?rows ?added)})"
    by (rule ext) (rule room_times_extend)
  have times: "lists_exact (room_times ?rows) ?times" "lists_sorted (\<lambda>e. e) ?times"
    unfolding by_time by (rule merge_rooms_exact [OF d(5,6) orders(2) distinct_time_items fresh]; simp)+
  let ?t2 = "?t1\<lparr>stream_order := stream_positions ?rows, by_room_stream := ?streams, by_room_time := ?times\<rparr>"
  obtain children where rel: "fold (enter_relation read_raw) ?added ?t2 = ?t2\<lparr>relation_children := children\<rparr>"
    "children_exact (related_rows read_raw ?rows) children"
    using enter_relations_exact [of read_raw ?n ?t2 "length es"] d(7) by auto
  have "snd (insert_all_events read_raw orders events t) = fold (enter_relation read_raw) ?added ?t2"
    using stream_positions_extend [of "ev_rows t" es] d(2)
    by (simp add: insert_all_events_def rows(1) Let_def append_streams append_times row_ordering_rows)
  then show ?thesis
    using rel rows(2,3) streams times by (simp add: table_exact_def row_ordering_rows)
qed

section \<open>Reachable tables\<close>

inductive reachable_events :: "yyjson_reader \<Rightarrow> event_table \<Rightarrow> bool" for read_raw where
  empty: "reachable_events read_raw empty_event_table"
| inserted: "reachable_events read_raw t \<Longrightarrow> reachable_events read_raw (snd (insert_event read_raw e t))"
| loaded: "reachable_events read_raw t \<Longrightarrow> visits_all (order_streams orders) \<Longrightarrow> visits_all (order_times orders) \<Longrightarrow>
    reachable_events read_raw (snd (insert_all_events read_raw orders events t))"
| erased: "reachable_events read_raw t \<Longrightarrow> visits_all (order_losing orders) \<Longrightarrow>
    reachable_events read_raw (snd (erase_events_if orders P t))"
| modified: "reachable_events read_raw t \<Longrightarrow> p < length (ev_rows t) \<Longrightarrow>
    reachable_events read_raw (modify_event read_raw p mutation t)"

lemma empty_table_exact: "table_exact read_raw empty_event_table"
proof -
  have "room_rows [] = (\<lambda>_. {})" "related_rows read_raw [] = (\<lambda>_. {})" "room_times [] = (\<lambda>_. {})"
    by (simp_all add: room_rows_def related_rows_def room_times_def fun_eq_iff)
  then show ?thesis
    by (simp add: table_exact_def empty_event_table_def ids_exact_def stream_positions_def lists_exact_Nil
        children_exact_def child_list_def latest_exact_def room_latest_def)
qed

lemma reachable_events_exact: "reachable_events read_raw t \<Longrightarrow> table_exact read_raw t"
proof (induction rule: reachable_events.induct)
  case empty
  show ?case by (rule empty_table_exact)
next
  case (inserted t e)
  show ?case by (rule insert_event_exact [OF inserted.IH])
next
  case (loaded t orders events)
  show ?case by (rule insert_all_exact [OF loaded.IH loaded.hyps(2,3)])
next
  case (erased t orders P)
  show ?case by (rule erase_events_exact [OF erased.IH erased.hyps(2)])
next
  case (modified t p mutation)
  show ?case by (rule modify_event_exact [OF modified.IH modified.hyps(2)])
qed

section \<open>What the readers return\<close>

lemma ids_exact_find:
  assumes "ids_exact key rows m"
  shows "map_option (\<lambda>p. rows ! p) (map_of m k) = find (\<lambda>row. key row = k) rows"
proof -
  have look: "map_of m k = Some q \<longleftrightarrow> q < length rows \<and> key (rows ! q) = k" for q
    using assms by (simp add: ids_exact_def)
  show ?thesis
  proof (cases "map_of m k")
    case None
    then have "\<forall>q < length rows. key (rows ! q) \<noteq> k" using look by auto
    then have "find (\<lambda>row. key row = k) rows = None" by (auto simp: find_None_iff in_set_conv_nth)
    then show ?thesis using None by simp
  next
    case (Some p)
    have "key (rows ! q) \<noteq> k" if "q < p" for q using look [of q] look [of p] Some that by auto
    then have "find (\<lambda>row. key row = k) rows = Some (rows ! p)"
      using Some look [of p] unfolding find_Some_iff by (intro exI [of _ p]) auto
    then show ?thesis using Some by simp
  qed
qed

lemma find_event_row_find:
  assumes "ids_exact pe_event_id (ev_rows t) (by_id t)"
  shows "find_event_row t event_id = find (\<lambda>row. pe_event_id row = event_id) (ev_rows t)"
  using ids_exact_find [OF assms] by (simp add: find_event_row_def)

lemma in_stream_order_sort:
  assumes "stream_order t = stream_positions (ev_rows t)"
  shows "in_stream_order t = sort_key pe_stream_ordering (ev_rows t)"
  using map_sort_key [of "\<lambda>p. ev_rows t ! p" pe_stream_ordering "[0..<length (ev_rows t)]"]
  by (simp add: in_stream_order_def assms stream_positions_def map_nth)

lemma mset_positions:
  assumes "distinct ps" "set ps = {p. p < length rows \<and> P (rows ! p)}"
  shows "mset (map (\<lambda>p. rows ! p) ps) = mset (filter P rows)"
proof -
  let ?qs = "filter (\<lambda>p. P (rows ! p)) [0..<length rows]"
  have "set ps = set ?qs" using assms(2) by auto
  then have "mset ps = mset ?qs" 
    using set_eq_iff_mset_eq_distinct [OF assms(1) distinct_filter [OF distinct_upt]] by blast
  then have "mset (map (\<lambda>p. rows ! p) ps) = mset (map (\<lambda>p. rows ! p) ?qs)" by simp
  also have "map (\<lambda>p. rows ! p) ?qs = filter P rows"
    using filter_map [of P "\<lambda>p. rows ! p" "[0..<length rows]"] by (simp add: map_nth comp_def)
  finally show ?thesis .
qed

lemma room_in_stream_order_rows:
  assumes "table_exact read_raw t"
  shows "mset (room_in_stream_order t room) = mset (filter (\<lambda>row. pe_room_id row = room) (ev_rows t))"
    "sorted (map pe_stream_ordering (room_in_stream_order t room))"
proof -
  note d = table_exactD [OF assms] and l = lists_exactD(3,4) [OF table_exactD(3) [OF assms], of room]
  show "mset (room_in_stream_order t room) = mset (filter (\<lambda>row. pe_room_id row = room) (ev_rows t))"
    unfolding room_in_stream_order_def by (rule mset_positions) (use l in \<open>simp_all add: room_rows_def\<close>)
  show "sorted (map pe_stream_ordering (room_in_stream_order t room))"
    using d(4) by (simp add: lists_sorted_def room_in_stream_order_def row_ordering_rows comp_def)
qed

lemma sorted_key_unique:
  assumes "sorted (map f xs)" "sorted (map f ys)" "mset xs = mset ys" "distinct (map f xs)"
  shows "xs = ys"
proof -
  have s: "set xs = set ys" using assms(3) by (rule mset_eq_setD)
  have "distinct (map f ys)"
    using assms(3,4) by (metis mset_eq_imp_distinct_iff mset_map)
  then show ?thesis
    using map_sorted_distinct_set_unique [of f xs ys] assms(1,2,4) s by (simp add: distinct_map)
qed

lemma room_in_stream_order_filter:
  assumes "table_exact read_raw t" "distinct (map pe_stream_ordering (ev_rows t))"
  shows "room_in_stream_order t room = filter (\<lambda>row. pe_room_id row = room) (in_stream_order t)"
proof (rule sorted_key_unique [of pe_stream_ordering])
  note d = table_exactD [OF assms(1)] and r = room_in_stream_order_rows [OF assms(1), of room]
  show "sorted (map pe_stream_ordering (room_in_stream_order t room))" by (rule r(2))
  show "sorted (map pe_stream_ordering (filter (\<lambda>row. pe_room_id row = room) (in_stream_order t)))"
    by (simp add: in_stream_order_sort [OF d(2)] sorted_filter)
  show "mset (room_in_stream_order t room) = mset (filter (\<lambda>row. pe_room_id row = room) (in_stream_order t))"
    by (simp add: r(1) in_stream_order_sort [OF d(2)] mset_filter)
  have "distinct (map pe_stream_ordering (filter (\<lambda>row. pe_room_id row = room) (ev_rows t)))"
    using assms(2) by (rule distinct_map_filter)
  then show "distinct (map pe_stream_ordering (room_in_stream_order t room))"
    using r(1) by (metis mset_eq_imp_distinct_iff mset_map)
qed

lemma room_latest_rows:
  "room_latest rows room = Max (insert 0 (latest_ts_of ` set (filter (\<lambda>row. pe_room_id row = room) rows)))"
proof -
  have "(\<lambda>p. latest_ts_of (rows ! p)) ` room_rows rows room =
      latest_ts_of ` set (filter (\<lambda>row. pe_room_id row = room) rows)"
    by (force simp: room_rows_def in_set_conv_nth)
  then show ?thesis by (simp add: room_latest_def)
qed

lemma latest_reader:
  assumes "latest_exact (ev_rows t) (room_latest_ts t)"
  shows "room_latest_origin_server_ts t room =
    Max (insert 0 (latest_ts_of ` set (filter (\<lambda>row. pe_room_id row = room) (ev_rows t))))"
proof -
  have "room_latest_origin_server_ts t room = room_latest (ev_rows t) room"
  proof (cases "0 < room_latest (ev_rows t) room")
    case False
    then have "room_latest (ev_rows t) room = 0" using room_latest_nonneg [of "ev_rows t" room] by linarith
    then show ?thesis using assms by (simp add: room_latest_origin_server_ts_def latest_exact_def)
  qed (use assms in \<open>simp add: room_latest_origin_server_ts_def latest_exact_def\<close>)
  then show ?thesis by (simp only: room_latest_rows)
qed

lemma relation_children_rows:
  assumes "children_exact (related_rows read_raw (ev_rows t)) (relation_children t)"
  shows "mset (fst (for_each_relation_child_newest_first t target kind (relation_child_count t target kind))) =
    mset (filter (\<lambda>row. relation_key_for read_raw row = Some (target, kind)) (ev_rows t))"
proof -
  note d = children_exactD [OF assms]
  have "fst (for_each_relation_child_newest_first t target kind (relation_child_count t target kind)) =
      map (\<lambda>p. ev_rows t ! p) (rev (child_list (relation_children t) (target, kind)))"
    by (simp add: for_each_relation_child_newest_first_def relation_child_count_def child_list_def Let_def split: option.split)
  moreover have "mset (map (\<lambda>p. ev_rows t ! p) (child_list (relation_children t) (target, kind))) =
      mset (filter (\<lambda>row. relation_key_for read_raw row = Some (target, kind)) (ev_rows t))"
    by (rule mset_positions [OF d(2)]) (simp add: d(3) related_rows_def)
  ultimately show ?thesis by (simp add: rev_map)
qed

section \<open>The search by time\<close>

lemma offer_rows_take:
  "offer_rows accept budget rows =
     (find accept (take budget rows), find accept (take budget rows) = None \<and> budget < length rows)"
  by (induction accept budget rows rule: offer_rows.induct) (auto simp: take_Cons')

lemma sorted_dropWhile_filter:
  "sorted (map f xs) \<Longrightarrow> dropWhile (\<lambda>x. f x < c) xs = filter (\<lambda>x. c \<le> f x) xs"
proof (induction xs)
  case (Cons x xs)
  show ?case
  proof (cases "f x < c")
    case False
    then have "filter (\<lambda>x. c \<le> f x) xs = xs" using Cons.prems by (auto simp: filter_id_conv not_less)
    then show ?thesis using False by simp
  qed (use Cons in simp)
qed simp

lemma sorted_takeWhile_filter:
  "sorted (map f xs) \<Longrightarrow> takeWhile (\<lambda>x. f x \<le> c) xs = filter (\<lambda>x. f x \<le> c) xs"
proof (induction xs)
  case (Cons x xs)
  show ?case
  proof (cases "f x \<le> c")
    case False
    then have "filter (\<lambda>x. f x \<le> c) xs = []" using Cons.prems by (auto simp: filter_empty_conv)
    then show ?thesis using False by simp
  qed (use Cons in simp)
qed simp

lemma entry_ts_mono: "a \<le> b \<Longrightarrow> entry_ts a \<le> entry_ts b"
  by (auto simp: less_eq_time_entry_def less_time_entry_def split: if_splits)

text \<open>The timeline of a room: its rows with a timestamp and an accepted status, by time, depth and arrival.\<close>

definition room_timeline :: "persistent_event list \<Rightarrow> byte_string \<Rightarrow> time_entry list" where
  "room_timeline rows room =
     sort (List.map_filter (\<lambda>p. if pe_room_id (rows ! p) = room then time_entry_for (rows ! p) p else None) [0..<length rows])"

lemma room_timeline_held:
  assumes "table_exact read_raw t"
  shows "held_list (by_room_time t) room = room_timeline (ev_rows t) room"
proof (rule sorted_distinct_set_unique)
  note d = table_exactD [OF assms] and l = lists_exactD(3,4) [OF table_exactD(5) [OF assms], of room]
  let ?rows = "ev_rows t"
  let ?es = "List.map_filter (\<lambda>p. if pe_room_id (?rows ! p) = room then time_entry_for (?rows ! p) p else None) [0..<length ?rows]"
  show "sorted (held_list (by_room_time t) room)" using d(6) by (simp add: lists_sorted_def)
  show "distinct (held_list (by_room_time t) room)" by (rule l(1))
  show "sorted (room_timeline ?rows room)" by (simp add: room_timeline_def)
  have "distinct ?es"
    by (rule distinct_map_filter_inj) (auto split: if_splits dest!: time_entry_position)
  then show "distinct (room_timeline ?rows room)" by (simp add: room_timeline_def)
  have "set ?es = room_times ?rows room"
    by (auto simp: List.map_filter_def room_times_def room_rows_def split: if_splits) force
  then show "set (held_list (by_room_time t) room) = set (room_timeline ?rows room)"
    using l(2) by (simp add: room_timeline_def)
qed

lemma nearest_by_time_timeline:
  assumes "table_exact read_raw t"
  shows "nearest_by_time t room ts forwards accept max_examined =
    (let candidates = map (\<lambda>e. ev_rows t ! entry_position e)
           (if forwards then filter (\<lambda>e. ts \<le> entry_ts e) (room_timeline (ev_rows t) room)
            else rev (filter (\<lambda>e. entry_ts e \<le> ts) (room_timeline (ev_rows t) room)));
         found = find accept (take max_examined candidates) in
     (found, found = None \<and> max_examined < length candidates))"
proof -
  have "sorted (room_timeline (ev_rows t) room)" by (simp add: room_timeline_def)
  then have s: "sorted (map entry_ts (room_timeline (ev_rows t) room))"
    by (rule sorted_map_mono) (auto simp: mono_on_def entry_ts_mono)
  show ?thesis
  proof (cases "map_of (by_room_time t) room")
    case None
    then have "room_timeline (ev_rows t) room = []"
      using room_timeline_held [OF assms, of room] by (simp add: held_list_def)
    then show ?thesis using None by (simp add: nearest_by_time_def)
  next
    case (Some es)
    then have "es = room_timeline (ev_rows t) room"
      using room_timeline_held [OF assms, of room] by (simp add: held_list_def)
    then show ?thesis using Some
      by (simp add: nearest_by_time_def offer_rows_take sorted_dropWhile_filter [OF s] sorted_takeWhile_filter [OF s] Let_def)
  qed
qed

section \<open>A table keyed by id\<close>

text \<open>
  The interface the readers of a table rely on: rows are found by key, a key is held once, and the first row
  stored under a key stays.
\<close>

locale keyed_table =
  fixes key :: "'r \<Rightarrow> 'k"
    and rows :: "'t \<Rightarrow> 'r list"
    and add :: "'r \<Rightarrow> 't \<Rightarrow> 't"
    and lookup :: "'t \<Rightarrow> 'k \<Rightarrow> 'r option"
    and ok :: "'t \<Rightarrow> bool"
  assumes lookup_find: "ok t \<Longrightarrow> lookup t k = find (\<lambda>r. key r = k) (rows t)"
    and rows_add: "ok t \<Longrightarrow> rows (add r t) = (if lookup t (key r) = None then rows t @ [r] else rows t)"
    and ok_add: "ok t \<Longrightarrow> ok (add r t)"
begin

lemma find_append: "find P (xs @ ys) = (case find P xs of None \<Rightarrow> find P ys | Some x \<Rightarrow> Some x)"
  by (induction xs) simp_all

lemma lookup_add: "ok t \<Longrightarrow> lookup (add r t) k = (if lookup t k = None \<and> k = key r then Some r else lookup t k)"
  using lookup_find [of t "key r"]
  by (auto simp: lookup_find ok_add rows_add find_append split: option.split)

lemma ok_adds: "ok t \<Longrightarrow> ok (fold add rs t)"
  by (induction rs arbitrary: t) (simp_all add: ok_add)

lemma lookup_adds:
  "ok t \<Longrightarrow> lookup (fold add rs t) k = (case lookup t k of None \<Rightarrow> find (\<lambda>r. key r = k) rs | Some r \<Rightarrow> Some r)"
  by (induction rs arbitrary: t) (auto simp: ok_add lookup_add split: option.split)

end

lemma insert_event_rows:
  assumes "table_exact read_raw t"
  shows "ev_rows (snd (insert_event read_raw e t)) =
    (if find_event_row t (pe_event_id e) = None then ev_rows t @ [e] else ev_rows t)"
proof -
  have "find_event_row t (pe_event_id e) = None \<longleftrightarrow> pe_event_id e \<notin> set (map fst (by_id t))"
    by (simp add: find_event_row_def map_of_eq_None_iff)
  moreover have "ev_rows (index_time p u) = ev_rows u" "ev_rows (index_stream p u) = ev_rows u"
    "ev_rows (raise_latest_ts e u) = ev_rows u" "ev_rows (enter_relation read_raw p u) = ev_rows u" for p u
    by (simp_all add: index_time_def index_stream_def raise_latest_ts_def enter_relation_def index_relation_def Let_def
        split: option.split prod.split)
  ultimately show ?thesis by (simp add: insert_event_def Let_def)
qed

interpretation event_rows: keyed_table pe_event_id ev_rows "\<lambda>e t. snd (insert_event read_raw e t)" find_event_row
    "table_exact read_raw" for read_raw
  by unfold_locales
    (simp_all add: find_event_row_find table_exactD(1) insert_event_rows insert_event_exact)

section \<open>Equal stream orderings\<close>

text \<open>
  A row that changes its room enters the list of the new room after the rows of the same stream ordering, also
  those added later, while the stream order keeps them by position: with equal stream orderings the room list
  is not the stream order restricted to the room.
\<close>

definition tie_event :: "byte_string \<Rightarrow> byte_string \<Rightarrow> persistent_event" where
  "tie_event event_id room_id =
     \<lparr>pe_event_id = event_id, pe_room_id = room_id, pe_sender = ''@u'', pe_json = ''{}'', pe_depth = 1,
      pe_stream_ordering = 5, pe_prev_event_ids = [], pe_auth_event_ids = [], pe_signatures = [],
      pe_status = ''accepted''\<rparr>"

definition no_reader :: yyjson_reader where
  "no_reader s = Inl Read_more"

definition tie_table :: event_table where
  "tie_table =
     modify_event no_reader 0 (\<lambda>e. e\<lparr>pe_room_id := ''!b''\<rparr>)
       (snd (insert_event no_reader (tie_event ''$2'' ''!b'')
         (snd (insert_event no_reader (tie_event ''$1'' ''!a'') empty_event_table))))"

lemma moved_row_enters_last:
  "map pe_event_id (room_in_stream_order tie_table ''!b'') = [''$2'', ''$1'']"
  "map pe_event_id (filter (\<lambda>e. pe_room_id e = ''!b'') (in_stream_order tie_table)) = [''$1'', ''$2'']"
  by code_simp+

section \<open>Samples\<close>

definition stamped_json :: "byte_string \<Rightarrow> byte_string" where
  "stamped_json ts = CHR ''{'' # CHR 0x22 # ''origin_server_ts'' @ CHR 0x22 # CHR '':'' # ts @ ''}''"

definition stamped_event :: "byte_string \<Rightarrow> 64 word \<Rightarrow> byte_string \<Rightarrow> persistent_event" where
  "stamped_event event_id arrival ts =
     (tie_event event_id ''!a'')\<lparr>pe_stream_ordering := arrival, pe_json := stamped_json ts\<rparr>"

definition sample_events :: event_table where
  "sample_events =
     snd (insert_event no_reader (stamped_event ''$2'' 1 ''7'')
       (snd (insert_event no_reader (stamped_event ''$1'' 2 ''5'') empty_event_table)))"

lemma sample_events_reachable: "reachable_events no_reader sample_events"
  unfolding sample_events_def by (intro reachable_events.intros)

lemma sample_events_rows: "ev_rows sample_events = [stamped_event ''$1'' 2 ''5'', stamped_event ''$2'' 1 ''7'']"
  by code_simp

section \<open>Properties\<close>

text \<open>
  C37: the event table is what a scan of its rows says it is. In every table reached by insertions, bulk loads,
  erasures and modifications, in any order and for every visit order of the hash containers, the id index
  finds the row with that id, the stream order is the stable sort of the rows by stream ordering, the list of a
  room holds exactly the rows of the room by stream ordering (and is the stream order restricted to the room
  when stream orderings differ), the greatest timestamp of a room is the greatest of its rows, and the children
  listed under a relation target are exactly the rows that relate to it.
\<close>

theorem event_table_refines_scan:
  assumes "reachable_events read_raw t"
  shows "find_event_row t event_id = find (\<lambda>row. pe_event_id row = event_id) (ev_rows t) \<and>
    in_stream_order t = sort_key pe_stream_ordering (ev_rows t) \<and>
    mset (room_in_stream_order t room) = mset (filter (\<lambda>row. pe_room_id row = room) (ev_rows t)) \<and>
    sorted (map pe_stream_ordering (room_in_stream_order t room)) \<and>
    (distinct (map pe_stream_ordering (ev_rows t)) \<longrightarrow>
      room_in_stream_order t room = filter (\<lambda>row. pe_room_id row = room) (in_stream_order t)) \<and>
    room_latest_origin_server_ts t room =
      Max (insert 0 (latest_ts_of ` set (filter (\<lambda>row. pe_room_id row = room) (ev_rows t)))) \<and>
    mset (fst (for_each_relation_child_newest_first t target kind (relation_child_count t target kind))) =
      mset (filter (\<lambda>row. relation_key_for read_raw row = Some (target, kind)) (ev_rows t))"
proof -
  note ex = reachable_events_exact [OF assms]
  note d = table_exactD [OF ex]
  show ?thesis
    by (intro conjI impI find_event_row_find [OF d(1)] in_stream_order_sort [OF d(2)] room_in_stream_order_rows [OF ex]
        room_in_stream_order_filter [OF ex] latest_reader [OF d(8)] relation_children_rows [OF d(7)])
qed

theorem event_table_refines_scan_witness:
  "in_stream_order sample_events = [stamped_event ''$2'' 1 ''7'', stamped_event ''$1'' 2 ''5''] \<and>
   room_in_stream_order sample_events ''!a'' = [stamped_event ''$2'' 1 ''7'', stamped_event ''$1'' 2 ''5'']"
proof -
  let ?ordered = "[stamped_event ''$2'' 1 ''7'', stamped_event ''$1'' 2 ''5'']"
  have sorted: "sort_key pe_stream_ordering (ev_rows sample_events) = ?ordered"
    unfolding sample_events_rows by code_simp
  have room: "filter (\<lambda>row. pe_room_id row = ''!a'') ?ordered = ?ordered" by code_simp
  have "distinct (map pe_stream_ordering (ev_rows sample_events))"
    by (simp add: sample_events_rows stamped_event_def)
  with event_table_refines_scan [OF sample_events_reachable, of _ "''!a''"] sorted room show ?thesis by metis
qed

text \<open>
  C38: the search by time returns the nearest admissible row. In every reachable table it offers the rows of the
  timeline of the room (those with an integer timestamp whose status is not outlier, rejected or soft-failed)
  on the asked side of the time, the boundary included, nearest first by timestamp, depth and arrival, at most
  the given number of them; it returns the first one accepted, and reports truncation exactly when it found
  none and candidates were left.
\<close>

theorem nearest_by_time_exact:
  assumes "reachable_events read_raw t"
  shows "nearest_by_time t room ts forwards accept max_examined =
    (let candidates = map (\<lambda>e. ev_rows t ! entry_position e)
           (if forwards then filter (\<lambda>e. ts \<le> entry_ts e) (room_timeline (ev_rows t) room)
            else rev (filter (\<lambda>e. entry_ts e \<le> ts) (room_timeline (ev_rows t) room)));
         found = find accept (take max_examined candidates) in
     (found, found = None \<and> max_examined < length candidates))"
  by (rule nearest_by_time_timeline [OF reachable_events_exact [OF assms]])

theorem nearest_by_time_exact_witness:
  "nearest_by_time sample_events ''!a'' 6 True (\<lambda>_. True) 10 = (Some (stamped_event ''$2'' 1 ''7''), False)"
proof -
  have line: "room_timeline [stamped_event ''$1'' 2 ''5'', stamped_event ''$2'' 1 ''7''] ''!a'' =
      [Time_entry 5 1 2 0, Time_entry 7 1 1 1]" by code_simp
  show ?thesis
    using nearest_by_time_exact [OF sample_events_reachable, of "''!a''" 6 True "\<lambda>_. True" 10]
    by (simp add: sample_events_rows line Let_def)
qed

end
