(* ===== verification/Spec2Isabelle.thy ===== *)
theory Spec2Isabelle
  imports StateResolution StreamToken QueryParams ServerAcl EventTableIndex
begin

text \<open>
  Merovingian is a Matrix homeserver written in C++. Rooms are replicated between servers as graphs of signed
  JSON events, and every server decides on its own which events a room accepts and what the state of the
  room is. This library models the parts of \<open>src/\<close> that make those decisions and the in-memory tables that
  answer for them.

  \<^bold>\<open>How the parts interact.\<close> An event arrives as JSON text. It is parsed losslessly
  (\<open>canonicaljson\<close>), its envelope is checked (\<open>events/event.cpp\<close>), its content hash and its id are computed
  from the redacted event (\<open>redaction.cpp\<close>, \<open>event_id.cpp\<close>) and its signatures are verified
  (\<open>event_signer.cpp\<close>, \<open>crypto\<close>). The authorization rules (\<open>authorization.cpp\<close>) decide whether it is allowed
  against the state it cites; where the graph forks, state resolution (\<open>state_resolution.cpp\<close>) orders the
  conflicting events and applies the same rules to them one by one. The outcome is stored in the event table
  and the current-state table (\<open>database/EventTable.cpp\<close>, \<open>database/PersistentStore.cpp\<close>), which the readers,
  for example the server access control list of a room (\<open>federation/server_acl.cpp\<close>), consult through indexes.

  \<^bold>\<open>Theories and sources.\<close>
  \<^item> \<open>Prelude\<close>: bytes, strings, decimal numbers, \<open>from_chars\<close>, IEEE doubles, the interface \<open>codec\<close>.
  \<^item> \<open>CanonicalJson\<close>: \<open>canonicaljson/parser.cpp\<close>, \<open>serializer.cpp\<close>, \<open>signable.cpp\<close>, \<open>yyjson_adapter.c\<close>.
  \<^item> \<open>RoomVersions\<close>, \<open>Redaction\<close>: \<open>rooms/RoomVersionPolicy.cpp\<close>, \<open>events/redaction.cpp\<close>.
  \<^item> \<open>Crypto\<close>, \<open>Events\<close>: \<open>crypto/ed25519.cpp\<close>, \<open>signing_service.cpp\<close>, the Ed25519 providers,
    \<open>homeserver/RuntimeSigningKeyStore.cpp\<close>; \<open>events/event.cpp\<close>, \<open>event_id.cpp\<close>, \<open>event_signer.cpp\<close>,
    \<open>unsigned_data.cpp\<close>.
  \<^item> \<open>Authorization\<close>: \<open>events/authorization.cpp\<close>, one definition per rule.
  \<^item> \<open>Containers\<close>, \<open>Kahn\<close>: the standard containers and the topological peeling shared by two algorithms.
  \<^item> \<open>AuthChain\<close>, \<open>StateOrdering\<close>, \<open>StateResolution\<close>: \<open>events/state_resolution.cpp\<close> from its fetch budget to
    the resolved state.
  \<^item> \<open>StateIndex\<close>: the current-state rows of \<open>database/PersistentStore.cpp\<close> with their three indexes.
  \<^item> \<open>EventTable\<close>, \<open>EventTableIndex\<close>: \<open>database/EventTable.cpp\<close>, the definitions and the proofs.
  \<^item> \<open>ServerAcl\<close>: \<open>federation/server_acl.cpp\<close>.
  \<^item> \<open>StreamToken\<close>, \<open>QueryParams\<close>: \<open>sync/StreamToken.cpp\<close>, \<open>core/query_params.cpp\<close>.

  \<^bold>\<open>Modelling.\<close> A structure of the source is a record, an enumeration a datatype, a class with state a record
  that its operations take and return. Byte strings are lists of characters; 64-bit counters are words, and
  \<open>std::size_t\<close> positions and lengths are natural numbers, which no container exceeds. Errors, exceptions and
  empty optionals are values of a sum or an option type. Hash maps are association lists with distinct keys; a
  loop whose result could depend on the visit order of a hash container takes that order as a parameter, of
  which only \<open>visits_all\<close> is assumed. Code outside \<open>src/\<close> is a parameter: the yyjson reader (\<open>yyjson_reader\<close>),
  libsodium (record \<open>sodium\<close>), the C library's number printing (record \<open>c_library\<close>), \<open>inet_pton\<close> (record
  \<open>ip_parser\<close>) and the function that fetches an event by id.

  \<^bold>\<open>What is shown.\<close>
  \<^item> JSON: the strict serializer accepts exactly the float-free values with valid strings and distinct keys (it
    does not check the range of integers) and prints the canonical form, the UTF-8 validator is exact, what the
    lossless parser accepts can be signed, and integers of the range it admits round trip.
  \<^item> Events: redaction is idempotent and keeps exactly the keys the specification of each room version lists,
    but for \<open>third_party_invite\<close> in the content of a create event; an id binds the redacted event; signatures
    and unsigned data do not change the hash or the id; a signature made with a key pair is accepted; accepted
    envelopes are within their limits.
  \<^item> Authorization: no allowed power levels event escalates power or touches a level out of reach; joins,
    removals and other events need the right they name; every allowed event is rooted in a create event.
  \<^item> State resolution: the auth chain walk, the auth difference, the conflicted subgraph and the partition are
    exact for every visit order; the power ordering and the mainline ordering are sorted permutations and
    deterministic; every event of the resolved state is agreed, the create event, or allowed by the
    authorization rules; agreed state survives; the limits hold.
  \<^item> Tables: in every reachable store the indexes of the current state and of the events answer what a scan of
    the rows answers, after any sequence of writers.
  \<^item> Interfaces: \<open>codec\<close>, \<open>current_store\<close> and \<open>keyed_table\<close> are interpreted on the model's own definitions, and
    the round trips and read-after-write properties rest on them.

  \<^bold>\<open>Termination, fuel and bounds.\<close> Every loop is a total function: structural recursion, a \<open>measure\<close>, or the
  budget the source itself counts (the event fetch budget, the auth chain cap, the depth limit of the parser).
  No fuel was added where the source has none.

  \<^bold>\<open>Not modelled.\<close> The network and process layers (\<open>http/OutboundClient.cpp\<close>, \<open>net\<close>, \<open>ipc\<close>,
  \<open>federation_worker\<close>, \<open>platform\<close>, \<open>email\<close>, \<open>identity\<close>, \<open>media\<close> decoders) are sockets, files, sandboxes and
  third-party codecs. The SQL backends (\<open>sqlite_store.cpp\<close>, \<open>postgresql_store.cpp\<close>, migrations) are statements
  sent to a database; a transaction is known here by its outcome. The request handlers of \<open>homeserver\<close> and the
  configuration parser compose the modelled decisions with those layers. Locking is not modelled: the modelled
  tables are guarded by one mutex, so their operations are atomic steps.
\<close>

end
